(* ===== verification/NC_Prelude.thy ===== *)
theory NC_Prelude
  imports "HOL-Library.Word" "HOL-Library.Multiset"
begin

text \<open>
  Shared vocabulary of the development: C characters and their promotions, the
  little-endian loads of the x86-64 target, the status codes of the code base,
  and the generic lemmas on lists and words that the component theories use.
\<close>

unbundle bit_operations_syntax

named_theorems cchar_simps \<open>promotions of characters to machine integers\<close>
named_theorems nc_inv \<open>preservation of component invariants\<close>

subsection \<open>Machine characters and integers\<close>

text \<open>
  A byte of a C object is an Isabelle \<^typ>\<open>char\<close>.  The build target is x86-64,
  where plain \<open>char\<close> is signed: \<open>(uint32_t)key[x]\<close> sign-extends, whereas an access
  through \<open>uint8_t *\<close> zero-extends.
\<close>

type_synonym u8 = "8 word"
type_synonym u16 = "16 word"
type_synonym u32 = "32 word"
type_synonym u64 = "64 word"
type_synonym bytes = "char list"
type_synonym memory = "nat \<Rightarrow> char"

definition u8_of :: "char \<Rightarrow> u8" where
  "u8_of c = of_char c"

definition uchar32 :: "char \<Rightarrow> u32" where
  "uchar32 c = of_char c"

definition schar32 :: "char \<Rightarrow> u32" where
  "schar32 c = scast (u8_of c)"

definition schar64 :: "char \<Rightarrow> u64" where
  "schar64 c = scast (u8_of c)"

definition char_of_u32 :: "u32 \<Rightarrow> char" where
  "char_of_u32 w = char_of (unat w)"

definition rotl32 :: "u32 \<Rightarrow> nat \<Rightarrow> u32" where
  "rotl32 x k = push_bit k x OR drop_bit (32 - k) x"

definition le32 :: "char \<Rightarrow> char \<Rightarrow> char \<Rightarrow> char \<Rightarrow> u32" where
  "le32 b0 b1 b2 b3 = uchar32 b0 + push_bit 8 (uchar32 b1) + push_bit 16 (uchar32 b2)
     + push_bit 24 (uchar32 b3)"

definition le16 :: "char \<Rightarrow> char \<Rightarrow> u32" where
  "le16 b0 b1 = uchar32 b0 + push_bit 8 (uchar32 b1)"

subsection \<open>Status codes\<close>

datatype rstatus = NC_OK | NC_ERROR | NC_EAGAIN | NC_ENOMEM

subsection \<open>Decimal numbers\<close>

definition digit_char :: "nat \<Rightarrow> char" where
  "digit_char d = char_of (48 + d)"

text \<open>The output of \<open>%u\<close> and \<open>%d\<close> for non-negative values.\<close>

fun show_nat :: "nat \<Rightarrow> bytes" where
  "show_nat n = (if n < 10 then [digit_char n] else show_nat (n div 10) @ [digit_char (n mod 10)])"

declare show_nat.simps [simp del]

subsection \<open>Facts on characters\<close>

lemma of_char_less_256 [simp]: "(of_char c :: nat) < 256"
  by (metis char_of_char mod_less_divisor of_char_of zero_less_numeral)

lemma of_nat_of_char_word [cchar_simps]: "of_nat (of_char c) = (of_char c :: 'a::len word)"
  by (simp add: of_char_def)

lemma unat_uchar32 [cchar_simps, simp]: "unat (uchar32 c) = of_char c"
proof -
  have "uchar32 c = of_nat (of_char c)" by (simp add: uchar32_def of_nat_of_char_word)
  moreover have "(of_char c :: nat) < 2 ^ 32" by (rule order.strict_trans [OF of_char_less_256]) simp
  ultimately show ?thesis by (simp add: unsigned_of_nat take_bit_nat_eq_self)
qed

lemma uchar32_less [simp]: "uchar32 c < 256"
  by (simp add: word_less_nat_alt)

lemma bit_of_char_word:
  "bit (of_char c :: 'a::len word) n \<longleftrightarrow>
    n < LENGTH('a) \<and> n < 8 \<and> [digit0 c, digit1 c, digit2 c, digit3 c, digit4 c, digit5 c, digit6 c, digit7 c] ! n"
  unfolding of_char_def bit_horner_sum_bit_word_iff by (simp add: numeral_eq_Suc)

lemma bit_uchar32 [bit_simps]: "bit (uchar32 c) n \<longleftrightarrow> n < 8 \<and> bit (u8_of c) n"
  by (auto simp: uchar32_def u8_of_def bit_of_char_word)

lemma bit_schar32 [bit_simps]: "bit (schar32 c) n \<longleftrightarrow> n < 32 \<and> bit (u8_of c) (min 7 n)"
  by (simp add: schar32_def bit_signed_iff)

lemma bit_schar64 [bit_simps]: "bit (schar64 c) n \<longleftrightarrow> n < 64 \<and> bit (u8_of c) (min 7 n)"
  by (simp add: schar64_def bit_signed_iff)

lemma min_7 [simp]: "n < 8 \<Longrightarrow> min 7 n = (n :: nat)"
  by simp

lemma drop_bit_8_uchar32 [simp]: "drop_bit 8 (uchar32 c) = 0"
  by (rule bit_word_eqI) (simp add: bit_simps)

lemma unat_less_pow [simp]: "unat (w :: 'a::len word) < 2 ^ LENGTH('a)"
  by (rule unsigned_less)

lemma unat_ucast_up:
  assumes "LENGTH('a::len) \<le> LENGTH('b::len)"
  shows "unat (ucast (w :: 'a word) :: 'b word) = unat w"
proof -
  have "unat w < 2 ^ LENGTH('b)"
    using unat_less_pow [of w] assms by (metis less_le_trans one_le_numeral power_increasing)
  then show ?thesis by (simp add: unsigned_ucast_eq take_bit_nat_eq_self)
qed

lemma ucast_ucast_u16 [simp]: "ucast (ucast (w :: u16) :: u32) = w"
  by (rule bit_word_eqI) (auto simp: bit_simps dest: bit_imp_le_length)

lemma add_push_bit_or:
  assumes "\<And>n. bit a n \<Longrightarrow> n < k"
  shows "a + push_bit k b = (a OR push_bit k b :: 'a::len word)"
proof -
  have "a AND push_bit k b = 0"
    using assms by (intro bit_word_eqI) (force simp: bit_simps)
  then show ?thesis by (rule disjunctive_add_eq_or)
qed

lemma le32_or:
  "le32 b0 b1 b2 b3 = uchar32 b0 OR push_bit 8 (uchar32 b1) OR push_bit 16 (uchar32 b2)
     OR push_bit 24 (uchar32 b3)"
  unfolding le32_def
  by (subst add_push_bit_or, force simp: bit_simps)+ (simp only: or.assoc)

lemma le16_or: "le16 b0 b1 = uchar32 b0 OR push_bit 8 (uchar32 b1)"
  unfolding le16_def by (rule add_push_bit_or) (simp add: bit_simps)

lemma le24_or:
  "le16 b0 b1 + push_bit 16 (uchar32 b2)
    = uchar32 b0 OR push_bit 8 (uchar32 b1) OR push_bit 16 (uchar32 b2)"
  unfolding le16_or by (subst add_push_bit_or, force simp: bit_simps) (simp only: or.assoc)

text \<open>Masking a word load keeps exactly the low bytes.\<close>

lemma le32_mask:
  "le32 b0 b1 b2 b3 AND 0xff = uchar32 b0"
  "le32 b0 b1 b2 b3 AND 0xffff = le16 b0 b1"
  "le32 b0 b1 b2 b3 AND 0xffffff = le16 b0 b1 + push_bit 16 (uchar32 b2)"
proof -
  have m: "(0xff :: u32) = mask 8" "(0xffff :: u32) = mask 16" "(0xffffff :: u32) = mask 24"
    by (simp_all add: mask_eq_exp_minus_1)
  show "le32 b0 b1 b2 b3 AND 0xff = uchar32 b0"
    unfolding m le32_or by (rule bit_word_eqI) (auto simp: bit_simps)
  show "le32 b0 b1 b2 b3 AND 0xffff = le16 b0 b1"
    unfolding m le32_or le16_or by (rule bit_word_eqI) (auto simp: bit_simps)
  show "le32 b0 b1 b2 b3 AND 0xffffff = le16 b0 b1 + push_bit 16 (uchar32 b2)"
    unfolding m le32_or le24_or by (rule bit_word_eqI) (auto simp: bit_simps)
qed

lemma dropD:
  assumes "drop p d = x # xs"
  shows "p < length d" "d ! p = x" "drop (Suc p) d = xs"
  using assms by (auto simp: nth_via_drop drop_Suc tl_drop [symmetric] intro: ccontr)

lemma map_update_same: "f s = f (xs ! i) \<Longrightarrow> map f (xs[i := s]) = map f xs"
  by (metis list_update_id map_update)

lemma u32_inc:
  fixes n limit :: u32
  assumes "n < limit"
  shows "unat (n + 1) = Suc (unat n)" "n + 1 \<le> limit"
proof -
  have "unat n < unat limit" "unat limit < 2 ^ 32"
    using assms unsigned_less [of limit] by (simp_all add: word_less_nat_alt)
  then show "unat (n + 1) = Suc (unat n)" by (simp add: unat_word_ariths)
  with \<open>unat n < unat limit\<close> show "n + 1 \<le> limit" by (simp add: word_le_nat_alt)
qed

lemma u32_dec:
  fixes n :: u32
  assumes "n \<noteq> 0"
  shows "unat (n - 1) = unat n - 1" "n - 1 \<le> n"
proof -
  show "unat (n - 1) = unat n - 1" by (rule unat_minus_one [OF assms])
  then show "n - 1 \<le> n" by (simp add: word_le_nat_alt)
qed

end
