(* ===== verification/Hash_Kit.thy ===== *)
theory Hash_Kit
  imports NC_Prelude
begin

text \<open>
  The byte-oriented hash functions of \<^verbatim>\<open>src/src/hashkit\<close>: FNV (\<^verbatim>\<open>nc_fnv.c\<close>), CRC-16
  (\<^verbatim>\<open>nc_crc16.c\<close>), CRC-32 (\<^verbatim>\<open>nc_crc32.c\<close>), one-at-a-time (\<^verbatim>\<open>nc_one_at_a_time.c\<close>),
  Hsieh (\<^verbatim>\<open>nc_hsieh.c\<close>) and Murmur (\<^verbatim>\<open>nc_murmur.c\<close>).  A key is the list of the
  \<open>key_length\<close> bytes at \<open>key\<close>; a loop over them is a fold.  The lemmas relate the
  table-driven checksums to bit-serial division by the generator polynomial and
  the FNV functions to the published definition.
\<close>

unbundle bit_operations_syntax

subsection \<open>FNV\<close>

definition FNV_64_INIT :: u64 where "FNV_64_INIT = 0xcbf29ce484222325"
definition FNV_64_PRIME :: u64 where "FNV_64_PRIME = 0x100000001b3"
definition FNV_32_INIT :: u32 where "FNV_32_INIT = 2166136261"
definition FNV_32_PRIME :: u32 where "FNV_32_PRIME = 16777619"

definition hash_fnv1_64 :: "bytes \<Rightarrow> u32" where
  "hash_fnv1_64 key =
     ucast (foldl (\<lambda>hash c. (hash * FNV_64_PRIME) XOR schar64 c) FNV_64_INIT key)"

definition hash_fnv1a_64 :: "bytes \<Rightarrow> u32" where
  "hash_fnv1a_64 key =
     foldl (\<lambda>hash c. (hash XOR schar32 c) * ucast FNV_64_PRIME) (ucast FNV_64_INIT) key"

definition hash_fnv1_32 :: "bytes \<Rightarrow> u32" where
  "hash_fnv1_32 key = foldl (\<lambda>hash c. (hash * FNV_32_PRIME) XOR schar32 c) FNV_32_INIT key"

definition hash_fnv1a_32 :: "bytes \<Rightarrow> u32" where
  "hash_fnv1a_32 key = foldl (\<lambda>hash c. (hash XOR schar32 c) * FNV_32_PRIME) FNV_32_INIT key"

subsection \<open>CRC-16\<close>

definition crc16tab :: "u32 list" where
  "crc16tab = [
     0x0000, 0x1021, 0x2042, 0x3063, 0x4084, 0x50a5, 0x60c6, 0x70e7,
     0x8108, 0x9129, 0xa14a, 0xb16b, 0xc18c, 0xd1ad, 0xe1ce, 0xf1ef,
     0x1231, 0x0210, 0x3273, 0x2252, 0x52b5, 0x4294, 0x72f7, 0x62d6,
     0x9339, 0x8318, 0xb37b, 0xa35a, 0xd3bd, 0xc39c, 0xf3ff, 0xe3de,
     0x2462, 0x3443, 0x0420, 0x1401, 0x64e6, 0x74c7, 0x44a4, 0x5485,
     0xa56a, 0xb54b, 0x8528, 0x9509, 0xe5ee, 0xf5cf, 0xc5ac, 0xd58d,
     0x3653, 0x2672, 0x1611, 0x0630, 0x76d7, 0x66f6, 0x5695, 0x46b4,
     0xb75b, 0xa77a, 0x9719, 0x8738, 0xf7df, 0xe7fe, 0xd79d, 0xc7bc,
     0x48c4, 0x58e5, 0x6886, 0x78a7, 0x0840, 0x1861, 0x2802, 0x3823,
     0xc9cc, 0xd9ed, 0xe98e, 0xf9af, 0x8948, 0x9969, 0xa90a, 0xb92b,
     0x5af5, 0x4ad4, 0x7ab7, 0x6a96, 0x1a71, 0x0a50, 0x3a33, 0x2a12,
     0xdbfd, 0xcbdc, 0xfbbf, 0xeb9e, 0x9b79, 0x8b58, 0xbb3b, 0xab1a,
     0x6ca6, 0x7c87, 0x4ce4, 0x5cc5, 0x2c22, 0x3c03, 0x0c60, 0x1c41,
     0xedae, 0xfd8f, 0xcdec, 0xddcd, 0xad2a, 0xbd0b, 0x8d68, 0x9d49,
     0x7e97, 0x6eb6, 0x5ed5, 0x4ef4, 0x3e13, 0x2e32, 0x1e51, 0x0e70,
     0xff9f, 0xefbe, 0xdfdd, 0xcffc, 0xbf1b, 0xaf3a, 0x9f59, 0x8f78,
     0x9188, 0x81a9, 0xb1ca, 0xa1eb, 0xd10c, 0xc12d, 0xf14e, 0xe16f,
     0x1080, 0x00a1, 0x30c2, 0x20e3, 0x5004, 0x4025, 0x7046, 0x6067,
     0x83b9, 0x9398, 0xa3fb, 0xb3da, 0xc33d, 0xd31c, 0xe37f, 0xf35e,
     0x02b1, 0x1290, 0x22f3, 0x32d2, 0x4235, 0x5214, 0x6277, 0x7256,
     0xb5ea, 0xa5cb, 0x95a8, 0x8589, 0xf56e, 0xe54f, 0xd52c, 0xc50d,
     0x34e2, 0x24c3, 0x14a0, 0x0481, 0x7466, 0x6447, 0x5424, 0x4405,
     0xa7db, 0xb7fa, 0x8799, 0x97b8, 0xe75f, 0xf77e, 0xc71d, 0xd73c,
     0x26d3, 0x36f2, 0x0691, 0x16b0, 0x6657, 0x7676, 0x4615, 0x5634,
     0xd94c, 0xc96d, 0xf90e, 0xe92f, 0x99c8, 0x89e9, 0xb98a, 0xa9ab,
     0x5844, 0x4865, 0x7806, 0x6827, 0x18c0, 0x08e1, 0x3882, 0x28a3,
     0xcb7d, 0xdb5c, 0xeb3f, 0xfb1e, 0x8bf9, 0x9bd8, 0xabbb, 0xbb9a,
     0x4a75, 0x5a54, 0x6a37, 0x7a16, 0x0af1, 0x1ad0, 0x2ab3, 0x3a92,
     0xfd2e, 0xed0f, 0xdd6c, 0xcd4d, 0xbdaa, 0xad8b, 0x9de8, 0x8dc9,
     0x7c26, 0x6c07, 0x5c64, 0x4c45, 0x3ca2, 0x2c83, 0x1ce0, 0x0cc1,
     0xef1f, 0xff3e, 0xcf5d, 0xdf7c, 0xaf9b, 0xbfba, 0x8fd9, 0x9ff8,
     0x6e17, 0x7e36, 0x4e55, 0x5e74, 0x2e93, 0x3eb2, 0x0ed1, 0x1ef0]"

definition hash_crc16 :: "bytes \<Rightarrow> u32" where
  "hash_crc16 key =
     foldl (\<lambda>crc c. push_bit 8 crc XOR crc16tab ! unat ((drop_bit 8 crc XOR schar32 c) AND 0xff))
       0 key"

subsection \<open>CRC-32\<close>

definition crc32tab :: "u32 list" where
  "crc32tab = [
     0x00000000, 0x77073096, 0xee0e612c, 0x990951ba, 0x076dc419, 0x706af48f, 0xe963a535, 0x9e6495a3,
     0x0edb8832, 0x79dcb8a4, 0xe0d5e91e, 0x97d2d988, 0x09b64c2b, 0x7eb17cbd, 0xe7b82d07, 0x90bf1d91,
     0x1db71064, 0x6ab020f2, 0xf3b97148, 0x84be41de, 0x1adad47d, 0x6ddde4eb, 0xf4d4b551, 0x83d385c7,
     0x136c9856, 0x646ba8c0, 0xfd62f97a, 0x8a65c9ec, 0x14015c4f, 0x63066cd9, 0xfa0f3d63, 0x8d080df5,
     0x3b6e20c8, 0x4c69105e, 0xd56041e4, 0xa2677172, 0x3c03e4d1, 0x4b04d447, 0xd20d85fd, 0xa50ab56b,
     0x35b5a8fa, 0x42b2986c, 0xdbbbc9d6, 0xacbcf940, 0x32d86ce3, 0x45df5c75, 0xdcd60dcf, 0xabd13d59,
     0x26d930ac, 0x51de003a, 0xc8d75180, 0xbfd06116, 0x21b4f4b5, 0x56b3c423, 0xcfba9599, 0xb8bda50f,
     0x2802b89e, 0x5f058808, 0xc60cd9b2, 0xb10be924, 0x2f6f7c87, 0x58684c11, 0xc1611dab, 0xb6662d3d,
     0x76dc4190, 0x01db7106, 0x98d220bc, 0xefd5102a, 0x71b18589, 0x06b6b51f, 0x9fbfe4a5, 0xe8b8d433,
     0x7807c9a2, 0x0f00f934, 0x9609a88e, 0xe10e9818, 0x7f6a0dbb, 0x086d3d2d, 0x91646c97, 0xe6635c01,
     0x6b6b51f4, 0x1c6c6162, 0x856530d8, 0xf262004e, 0x6c0695ed, 0x1b01a57b, 0x8208f4c1, 0xf50fc457,
     0x65b0d9c6, 0x12b7e950, 0x8bbeb8ea, 0xfcb9887c, 0x62dd1ddf, 0x15da2d49, 0x8cd37cf3, 0xfbd44c65,
     0x4db26158, 0x3ab551ce, 0xa3bc0074, 0xd4bb30e2, 0x4adfa541, 0x3dd895d7, 0xa4d1c46d, 0xd3d6f4fb,
     0x4369e96a, 0x346ed9fc, 0xad678846, 0xda60b8d0, 0x44042d73, 0x33031de5, 0xaa0a4c5f, 0xdd0d7cc9,
     0x5005713c, 0x270241aa, 0xbe0b1010, 0xc90c2086, 0x5768b525, 0x206f85b3, 0xb966d409, 0xce61e49f,
     0x5edef90e, 0x29d9c998, 0xb0d09822, 0xc7d7a8b4, 0x59b33d17, 0x2eb40d81, 0xb7bd5c3b, 0xc0ba6cad,
     0xedb88320, 0x9abfb3b6, 0x03b6e20c, 0x74b1d29a, 0xead54739, 0x9dd277af, 0x04db2615, 0x73dc1683,
     0xe3630b12, 0x94643b84, 0x0d6d6a3e, 0x7a6a5aa8, 0xe40ecf0b, 0x9309ff9d, 0x0a00ae27, 0x7d079eb1,
     0xf00f9344, 0x8708a3d2, 0x1e01f268, 0x6906c2fe, 0xf762575d, 0x806567cb, 0x196c3671, 0x6e6b06e7,
     0xfed41b76, 0x89d32be0, 0x10da7a5a, 0x67dd4acc, 0xf9b9df6f, 0x8ebeeff9, 0x17b7be43, 0x60b08ed5,
     0xd6d6a3e8, 0xa1d1937e, 0x38d8c2c4, 0x4fdff252, 0xd1bb67f1, 0xa6bc5767, 0x3fb506dd, 0x48b2364b,
     0xd80d2bda, 0xaf0a1b4c, 0x36034af6, 0x41047a60, 0xdf60efc3, 0xa867df55, 0x316e8eef, 0x4669be79,
     0xcb61b38c, 0xbc66831a, 0x256fd2a0, 0x5268e236, 0xcc0c7795, 0xbb0b4703, 0x220216b9, 0x5505262f,
     0xc5ba3bbe, 0xb2bd0b28, 0x2bb45a92, 0x5cb36a04, 0xc2d7ffa7, 0xb5d0cf31, 0x2cd99e8b, 0x5bdeae1d,
     0x9b64c2b0, 0xec63f226, 0x756aa39c, 0x026d930a, 0x9c0906a9, 0xeb0e363f, 0x72076785, 0x05005713,
     0x95bf4a82, 0xe2b87a14, 0x7bb12bae, 0x0cb61b38, 0x92d28e9b, 0xe5d5be0d, 0x7cdcefb7, 0x0bdbdf21,
     0x86d3d2d4, 0xf1d4e242, 0x68ddb3f8, 0x1fda836e, 0x81be16cd, 0xf6b9265b, 0x6fb077e1, 0x18b74777,
     0x88085ae6, 0xff0f6a70, 0x66063bca, 0x11010b5c, 0x8f659eff, 0xf862ae69, 0x616bffd3, 0x166ccf45,
     0xa00ae278, 0xd70dd2ee, 0x4e048354, 0x3903b3c2, 0xa7672661, 0xd06016f7, 0x4969474d, 0x3e6e77db,
     0xaed16a4a, 0xd9d65adc, 0x40df0b66, 0x37d83bf0, 0xa9bcae53, 0xdebb9ec5, 0x47b2cf7f, 0x30b5ffe9,
     0xbdbdf21c, 0xcabac28a, 0x53b39330, 0x24b4a3a6, 0xbad03605, 0xcdd70693, 0x54de5729, 0x23d967bf,
     0xb3667a2e, 0xc4614ab8, 0x5d681b02, 0x2a6f2b94, 0xb40bbe37, 0xc30c8ea1, 0x5a05df1b, 0x2d02ef8d]"

definition hash_crc32 :: "bytes \<Rightarrow> u32" where
  "hash_crc32 key =
     (let crc = foldl (\<lambda>crc c. drop_bit 8 crc XOR
                 crc32tab ! unat ((ucast crc XOR schar64 c) AND 0xff)) 0xffffffff key
      in drop_bit 16 (NOT crc) AND 0x7fff)"

definition hash_crc32a :: "bytes \<Rightarrow> u32" where
  "hash_crc32a key =
     foldl (\<lambda>crc c. crc32tab ! unat ((crc XOR uchar32 c) AND 0xff) XOR drop_bit 8 crc)
       (NOT 0) key XOR NOT 0"

subsection \<open>One-at-a-time\<close>

definition oaat_step :: "u32 \<Rightarrow> char \<Rightarrow> u32" where
  "oaat_step value0 c =
     (let value1 = value0 + schar32 c;
          value2 = value1 + push_bit 10 value1
      in value2 XOR drop_bit 6 value2)"

definition hash_one_at_a_time :: "bytes \<Rightarrow> u32" where
  "hash_one_at_a_time key =
     (let value0 = foldl oaat_step 0 key;
          value1 = value0 + push_bit 3 value0;
          value2 = value1 XOR drop_bit 11 value1
      in value2 + push_bit 15 value2)"

subsection \<open>Hsieh\<close>

text \<open>The target is not \<open>__i386__\<close>, so \<open>get16bits\<close> is the byte-wise macro.\<close>

definition get16bits :: "char \<Rightarrow> char \<Rightarrow> u32" where
  "get16bits d0 d1 = push_bit 8 (uchar32 d1) + uchar32 d0"

fun hsieh_main :: "u32 \<Rightarrow> bytes \<Rightarrow> u32 \<times> bytes" where
  "hsieh_main hash (k0 # k1 # k2 # k3 # key) =
     (let hash1 = hash + get16bits k0 k1;
          tmp = push_bit 11 (get16bits k2 k3) XOR hash1;
          hash2 = push_bit 16 hash1 XOR tmp;
          hash3 = hash2 + drop_bit 11 hash2
      in hsieh_main hash3 key)"
| "hsieh_main hash key = (hash, key)"

fun hsieh_tail :: "u32 \<Rightarrow> bytes \<Rightarrow> u32" where
  "hsieh_tail hash [k0, k1, k2] =
     (let hash1 = hash + get16bits k0 k1;
          hash2 = hash1 XOR push_bit 16 hash1;
          hash3 = hash2 XOR push_bit 18 (schar32 k2)
      in hash3 + drop_bit 11 hash3)"
| "hsieh_tail hash [k0, k1] =
     (let hash1 = hash + get16bits k0 k1;
          hash2 = hash1 XOR push_bit 11 hash1
      in hash2 + drop_bit 17 hash2)"
| "hsieh_tail hash [k0] =
     (let hash1 = hash + uchar32 k0;
          hash2 = hash1 XOR push_bit 10 hash1
      in hash2 + drop_bit 1 hash2)"
| "hsieh_tail hash _ = hash"

definition hsieh_avalanche :: "u32 \<Rightarrow> u32" where
  "hsieh_avalanche h0 =
     (let h1 = h0 XOR push_bit 3 h0;
          h2 = h1 + drop_bit 5 h1;
          h3 = h2 XOR push_bit 4 h2;
          h4 = h3 + drop_bit 17 h3;
          h5 = h4 XOR push_bit 25 h4
      in h5 + drop_bit 6 h5)"

definition hash_hsieh :: "bytes \<Rightarrow> u32" where
  "hash_hsieh key =
     (if key = [] then 0
      else case hsieh_main 0 key of (hash, rem) \<Rightarrow> hsieh_avalanche (hsieh_tail hash rem))"

subsection \<open>Murmur\<close>

definition murmur_m :: u32 where "murmur_m = 0x5bd1e995"

fun murmur_main :: "u32 \<Rightarrow> bytes \<Rightarrow> u32 \<times> bytes" where
  "murmur_main h (d0 # d1 # d2 # d3 # data) =
     (let k0 = le32 d0 d1 d2 d3 * murmur_m;
          k1 = k0 XOR drop_bit 24 k0;
          k2 = k1 * murmur_m
      in murmur_main ((h * murmur_m) XOR k2) data)"
| "murmur_main h data = (h, data)"

fun murmur_tail :: "u32 \<Rightarrow> bytes \<Rightarrow> u32" where
  "murmur_tail h [d0, d1, d2] =
     (h XOR push_bit 16 (uchar32 d2) XOR push_bit 8 (uchar32 d1) XOR uchar32 d0) * murmur_m"
| "murmur_tail h [d0, d1] = (h XOR push_bit 8 (uchar32 d1) XOR uchar32 d0) * murmur_m"
| "murmur_tail h [d0] = (h XOR uchar32 d0) * murmur_m"
| "murmur_tail h _ = h"

definition hash_murmur :: "bytes \<Rightarrow> u32" where
  "hash_murmur key =
     (let len = of_nat (length key);
          seed = 0xdeadbeef * len;
          h1 = (case murmur_main (seed XOR len) key of (h, data) \<Rightarrow> murmur_tail h data);
          h2 = h1 XOR drop_bit 13 h1;
          h3 = h2 * murmur_m
      in h3 XOR drop_bit 15 h3)"

subsection \<open>Bit-serial references for the checksums\<close>

text \<open>One step of polynomial division; a checksum byte is eight of them.\<close>

definition crc32_bit :: "u32 \<Rightarrow> u32" where
  "crc32_bit c = (if odd c then drop_bit 1 c XOR 0xedb88320 else drop_bit 1 c)"

definition crc32_ref :: "bytes \<Rightarrow> u32" where
  "crc32_ref key = NOT (foldl (\<lambda>crc c. (crc32_bit ^^ 8) (crc XOR uchar32 c)) (NOT 0) key)"

definition crc16_bit :: "u16 \<Rightarrow> u16" where
  "crc16_bit c = (if bit c 15 then push_bit 1 c XOR 0x1021 else push_bit 1 c)"

definition crc16_ref :: "bytes \<Rightarrow> u16" where
  "crc16_ref key = foldl (\<lambda>crc c. (crc16_bit ^^ 8) (crc XOR push_bit 8 (ucast (u8_of c)))) 0 key"

definition xor_table :: "'a::len word list \<Rightarrow> 'a word list" where
  "xor_table basis = foldl (\<lambda>t b. t @ map (\<lambda>x. x XOR b) t) [0] basis"

lemma xor_table_snoc: "xor_table (bs @ [b]) = xor_table bs @ map (\<lambda>x. x XOR b) (xor_table bs)"
  by (simp add: xor_table_def)

lemma length_xor_table [simp]: "length (xor_table bs) = 2 ^ length bs"
  by (induction bs rule: rev_induct) (simp_all add: xor_table_snoc, simp add: xor_table_def)

lemma of_nat_pow2_add_xor:
  assumes "j < 2 ^ n"
  shows "(2 ^ n + of_nat j :: 'a::len word) = of_nat j XOR 2 ^ n"
proof -
  have "\<not> bit j n" using assms by (simp add: bit_iff_odd)
  then have "(2 ^ n :: 'a word) AND of_nat j = 0"
    by (intro bit_word_eqI) (auto simp: bit_simps)
  then show ?thesis by (simp add: disjunctive_add_eq_xor xor.commute)
qed

text \<open>A table of a linear map is generated by its values on the powers of two.\<close>

lemma xor_table_nth:
  fixes F :: "'b::len word \<Rightarrow> 'a::len word"
  assumes lin: "\<And>x y. F (x XOR y) = F x XOR F y"
    and basis: "\<And>k. k < length bs \<Longrightarrow> bs ! k = F (2 ^ k)"
    and "i < 2 ^ length bs"
  shows "xor_table bs ! i = F (of_nat i)"
  using basis assms(3)
proof (induction bs arbitrary: i rule: rev_induct)
  case Nil
  have "F 0 = 0" using lin [of 0 0] by simp
  with Nil show ?case by (simp add: xor_table_def)
next
  case (snoc b bs)
  note snoc_prems = snoc.prems
  have IH: "xor_table bs ! j = F (of_nat j)" if "j < 2 ^ length bs" for j
    using that snoc_prems(1) by (intro snoc.IH) (metis less_SucI length_append_singleton nth_append)
  have b: "b = F (2 ^ length bs)"
    using snoc_prems(1) [of "length bs"] by simp
  show ?case
  proof (cases "i < 2 ^ length bs")
    case True
    then show ?thesis by (simp add: xor_table_snoc nth_append IH)
  next
    case False
    define j where "j = i - 2 ^ length bs"
    have j: "j < 2 ^ length bs" "i = 2 ^ length bs + j"
      using False snoc_prems(2) by (auto simp: j_def)
    then show ?thesis
      by (simp add: xor_table_snoc nth_append IH b of_nat_pow2_add_xor flip: lin)
  qed
qed

text \<open>Division by a polynomial over GF(2) is linear, which is what makes a table possible.\<close>

locale gf2_linear =
  fixes step :: "'a::len word \<Rightarrow> 'a word"
  assumes step_xor: "step (x XOR y) = step x XOR step y"
begin

lemma funpow_xor: "(step ^^ n) (x XOR y) = (step ^^ n) x XOR (step ^^ n) y"
  by (induction n) (simp_all add: step_xor)

lemma funpow_split: "(step ^^ n) x = (step ^^ n) (x AND m) XOR (step ^^ n) (x AND NOT m)"
proof -
  have "x = (x AND m) XOR (x AND NOT m)"
    by (rule bit_word_eqI) (auto simp: bit_simps)
  then show ?thesis by (metis funpow_xor)
qed

end

lemma xor_cond_dist:
  fixes a b k :: "'a::len word"
  shows "(a XOR b) XOR (if p \<noteq> q then k else 0)
    = (a XOR (if p then k else 0)) XOR (b XOR (if q then k else 0))"
  by (rule bit_word_eqI) (simp add: bit_xor_iff, blast)

lemma crc32_bit_alt: "crc32_bit c = drop_bit 1 c XOR (if odd c then 0xedb88320 else 0)"
  by (simp add: crc32_bit_def)

lemma crc16_bit_alt: "crc16_bit c = push_bit 1 c XOR (if bit c 15 then 0x1021 else 0)"
  by (simp add: crc16_bit_def)

lemma crc32_bit_xor: "crc32_bit (x XOR y) = crc32_bit x XOR crc32_bit y"
  unfolding crc32_bit_alt even_xor_iff drop_bit_xor
  by (subst xor_cond_dist [symmetric]) (rule arg_cong2 [where f = "(XOR)"]; simp)

lemma crc16_bit_xor: "crc16_bit (x XOR y) = crc16_bit x XOR crc16_bit y"
  unfolding crc16_bit_alt bit_xor_iff push_bit_xor by (rule xor_cond_dist)

interpretation crc32_lin: gf2_linear crc32_bit
  by unfold_locales (rule crc32_bit_xor)

interpretation crc16_lin: gf2_linear crc16_bit
  by unfold_locales (rule crc16_bit_xor)


lemma crc32tab_xor_table: "crc32tab = xor_table
   [0x77073096, 0xee0e612c, 0x076dc419, 0x0edb8832, 0x1db71064, 0x3b6e20c8, 0x76dc4190, 0xedb88320]"
  by (simp add: crc32tab_def xor_table_def)

lemma crc16tab_xor_table: "crc16tab = xor_table
   [0x1021, 0x2042, 0x4084, 0x8108, 0x1231, 0x2462, 0x48c4, 0x9188]"
  by (simp add: crc16tab_def xor_table_def)

lemma less_8_cases: "k < (8::nat) \<Longrightarrow> k = 0 \<or> k = 1 \<or> k = 2 \<or> k = 3 \<or> k = 4 \<or> k = 5 \<or> k = 6 \<or> k = 7"
  by arith

lemma crc32_bit_8: "(crc32_bit ^^ 8) x =
    crc32_bit (crc32_bit (crc32_bit (crc32_bit (crc32_bit (crc32_bit (crc32_bit (crc32_bit x)))))))"
  by (simp add: numeral_eq_Suc)

lemma crc16_bit_8: "(crc16_bit ^^ 8) x =
    crc16_bit (crc16_bit (crc16_bit (crc16_bit (crc16_bit (crc16_bit (crc16_bit (crc16_bit x)))))))"
  by (simp add: numeral_eq_Suc)

lemma crc32tab_nth:
  assumes "i < 256"
  shows "crc32tab ! i = (crc32_bit ^^ 8) (of_nat i)"
  unfolding crc32tab_xor_table
proof (rule xor_table_nth)
  fix k assume "k < length [0x77073096, 0xee0e612c, 0x076dc419, 0x0edb8832, 0x1db71064,
    0x3b6e20c8, 0x76dc4190, 0xedb88320 :: u32]"
  then have "k < 8" by simp
  from less_8_cases [OF this]
  show "[0x77073096, 0xee0e612c, 0x076dc419, 0x0edb8832, 0x1db71064, 0x3b6e20c8, 0x76dc4190,
    0xedb88320] ! k = (crc32_bit ^^ 8) (2 ^ k)"
    by (elim disjE) (simp_all add: crc32_bit_8 crc32_bit_def)
qed (use assms in \<open>simp_all add: crc32_lin.funpow_xor\<close>)

lemma crc16tab_nth:
  assumes "i < 256"
  shows "crc16tab ! i = ucast ((crc16_bit ^^ 8) (push_bit 8 (of_nat i)))"
proof -
  let ?F = "\<lambda>i :: u16. ucast ((crc16_bit ^^ 8) (push_bit 8 i)) :: u32"
  have lin: "?F (x XOR y) = ?F x XOR ?F y" for x y
    by (simp add: push_bit_xor crc16_lin.funpow_xor unsigned_xor_eq)
  have basis: "[0x1021, 0x2042, 0x4084, 0x8108, 0x1231, 0x2462, 0x48c4, 0x9188] ! k = ?F (2 ^ k)"
    if "k < 8" for k
    using less_8_cases [OF that]
    by (elim disjE) (simp_all add: crc16_bit_8 crc16_bit_def)
  show ?thesis
    unfolding crc16tab_xor_table
    by (rule xor_table_nth [where F = ?F, OF lin]) (use basis assms in simp_all)
qed

subsection \<open>The tables compute the division\<close>

lemma mask_8_word: "(0xff :: 'a::len word) = mask 8"
  by (simp add: mask_eq_exp_minus_1)

lemma unat_and_mask_8_less [simp]: "unat (x AND mask 8 :: 'a::len word) < 256"
  by (simp add: unsigned_take_bit_eq take_bit_nat_def flip: take_bit_eq_mask)

lemma unat_ucast_mask_8: "unat (ucast (x AND mask 8 :: u32) :: u16) = unat (x AND mask 8)"
proof -
  have "unat (x AND mask 8) < 2 ^ 16"
    by (rule order.strict_trans [OF unat_and_mask_8_less]) simp
  then show ?thesis by (simp add: unsigned_ucast_eq take_bit_nat_eq_self)
qed

lemma unat_ucast_u32_u64: "unat (ucast (x :: u32) :: u64) = unat x"
  by (rule unat_ucast_up) simp

lemma ucast_xor_u16: "(ucast (x XOR y :: u32) :: u16) = ucast x XOR ucast y"
  by (rule bit_word_eqI) (auto simp: bit_simps)

lemma crc32_bits_high:
  assumes "k \<le> 8"
  shows "(crc32_bit ^^ k) (x AND NOT (mask 8)) = drop_bit k (x AND NOT (mask 8))"
  using assms
proof (induction k)
  case (Suc k)
  have "\<not> bit (drop_bit k (x AND NOT (mask 8))) 0"
    using Suc.prems by (simp add: bit_simps)
  then have "even (drop_bit k (x AND NOT (mask 8)))" by (simp add: bit_0)
  with Suc show ?case by (simp add: crc32_bit_def)
qed simp

lemma crc32_byte_table: "(crc32_bit ^^ 8) x = crc32tab ! unat (x AND mask 8) XOR drop_bit 8 x"
proof -
  have "drop_bit 8 (x AND NOT (mask 8)) = drop_bit 8 x"
    by (rule bit_word_eqI) (auto simp: bit_simps dest: bit_imp_le_length)
  then show ?thesis
    by (subst crc32_lin.funpow_split [where m = "mask 8"])
      (simp add: crc32tab_nth crc32_bits_high)
qed

lemma crc16_bits_low:
  assumes "k \<le> 8"
  shows "(crc16_bit ^^ k) (x AND mask 8) = push_bit k (x AND mask 8)"
  using assms
proof (induction k)
  case (Suc k)
  have "\<not> bit (push_bit k (x AND mask 8)) 15"
    using Suc.prems by (auto simp: bit_simps)
  with Suc show ?case by (simp add: crc16_bit_def)
qed simp

lemma crc16_byte_table:
  "(crc16_bit ^^ 8) x = ucast (crc16tab ! unat (drop_bit 8 x)) XOR push_bit 8 x"
proof -
  have idx: "unat (drop_bit 8 x) < 256"
  proof -
    have "unat x < 2 ^ 16" using unat_less_pow [of x] by simp
    then show ?thesis by (simp add: unsigned_drop_bit_eq drop_bit_nat_def take_bit_nat_def) 
  qed
  have hi: "push_bit 8 (of_nat (unat (drop_bit 8 x))) = x AND NOT (mask 8)"
    by (rule bit_word_eqI) (auto simp: bit_simps)
  have lo: "push_bit 8 (x AND mask 8) = push_bit 8 x"
    by (rule bit_word_eqI) (auto simp: bit_simps)
  show ?thesis
    by (subst crc16_lin.funpow_split [where m = "mask 8"])
      (simp only: crc16tab_nth [OF idx] hi crc16_bits_low order.refl lo xor.commute ucast_ucast_u16)
qed

lemma crc32a_step:
  "crc32tab ! unat ((crc XOR uchar32 c) AND 0xff) XOR drop_bit 8 crc
    = (crc32_bit ^^ 8) (crc XOR uchar32 c)"
  by (simp only: crc32_byte_table mask_8_word) simp

text \<open>
  C31: \<^const>\<open>hash_crc32a\<close>, the table-driven loop of \<open>nc_crc32.c\<close>, is the standard
  reflected CRC-32 (generator 0xedb88320, initial value and final complement
  all ones) computed bit by bit, for every key.
\<close>
theorem hash_crc32a_is_crc32: "hash_crc32a key = crc32_ref key"
proof -
  have "x XOR NOT 0 = NOT x" for x :: u32
    by (rule bit_word_eqI) (simp add: bit_simps)
  then show ?thesis
    by (simp only: hash_crc32a_def crc32_ref_def crc32a_step)
qed

text \<open>
  C32: \<^const>\<open>hash_crc32\<close> (the libmemcached variant) reads the key through a signed
  \<open>char\<close>, which makes no difference under the index mask; it returns bits 16 to
  30 of the standard CRC-32 of the key, hence a value below 2 to the 15.
\<close>
theorem hash_crc32_is_crc32_slice:
  "hash_crc32 key = drop_bit 16 (crc32_ref key) AND 0x7fff \<and> hash_crc32 key < 0x8000"
proof -
  have idx: "unat ((ucast crc XOR schar64 c) AND 0xff) = unat ((crc XOR uchar32 c) AND 0xff)"
    for crc c
  proof -
    have "(ucast crc XOR schar64 c) AND 0xff = ucast ((crc XOR uchar32 c) AND 0xff)"
      unfolding mask_8_word by (rule bit_word_eqI) (auto simp: bit_simps)
    then show ?thesis by (metis unat_ucast_u32_u64)
  qed
  have ones: "(0xffffffff :: u32) = NOT 0" by simp
  have "hash_crc32 key = drop_bit 16 (crc32_ref key) AND 0x7fff"
    unfolding hash_crc32_def crc32_ref_def idx crc32a_step [symmetric] ones Let_def
    by (simp only: xor.commute)
  moreover have "drop_bit 16 (crc32_ref key) AND 0x7fff < 0x8000"
    by (rule le_less_trans [OF word_and_le1]) simp
  ultimately show ?thesis by simp
qed

lemma crc16_step:
  "ucast (push_bit 8 crc XOR crc16tab ! unat ((drop_bit 8 crc XOR schar32 c) AND 0xff))
    = (crc16_bit ^^ 8) (ucast crc XOR push_bit 8 (ucast (u8_of c)))" for crc :: u32
proof -
  let ?x = "ucast crc XOR push_bit 8 (ucast (u8_of c)) :: u16"
  have idx: "drop_bit 8 ?x = ucast ((drop_bit 8 crc XOR schar32 c) AND mask 8)"
    by (rule bit_word_eqI) (auto simp: bit_simps dest: bit_imp_le_length)
  have sh: "push_bit 8 ?x = ucast (push_bit 8 crc)"
    by (rule bit_word_eqI) (auto simp: bit_simps dest: bit_imp_le_length)
  show ?thesis
    unfolding crc16_byte_table idx sh mask_8_word
    unfolding unat_ucast_mask_8 ucast_xor_u16 by (rule xor.commute)
qed

text \<open>
  C33: the low 16 bits of \<^const>\<open>hash_crc16\<close> are the CRC-16 with generator 0x1021,
  initial value 0 and no reflection (the XMODEM checksum), although the accumulator
  \<open>crc\<close> of \<open>nc_crc16.c\<close> is 32 bits wide and is never masked.
\<close>
theorem hash_crc16_low_bits: "ucast (hash_crc16 key) = crc16_ref key"
proof -
  have "ucast (foldl (\<lambda>crc c. push_bit 8 crc XOR
            crc16tab ! unat ((drop_bit 8 crc XOR schar32 c) AND 0xff)) a key)
      = foldl (\<lambda>crc c. (crc16_bit ^^ 8) (crc XOR push_bit 8 (ucast (u8_of c)))) (ucast a) key" for a
    by (induction key arbitrary: a) (simp_all add: crc16_step)
  then show ?thesis by (simp add: hash_crc16_def crc16_ref_def)
qed

subsection \<open>FNV as published\<close>

text \<open>
  Fowler, Noll and Vo's definition, on natural numbers: \<open>n\<close> bits, octets read unsigned.  The
  parameters are the published decimal offset bases and the primes in their published form.
\<close>

definition fnv1_ref :: "nat \<Rightarrow> nat \<Rightarrow> nat \<Rightarrow> bytes \<Rightarrow> nat" where
  "fnv1_ref n prime basis key = foldl (\<lambda>h c. ((h * prime) mod 2 ^ n) XOR of_char c) basis key"

definition fnv1a_ref :: "nat \<Rightarrow> nat \<Rightarrow> nat \<Rightarrow> bytes \<Rightarrow> nat" where
  "fnv1a_ref n prime basis key = foldl (\<lambda>h c. ((h XOR of_char c) * prime) mod 2 ^ n) basis key"

abbreviation fnv_prime_32 :: nat where "fnv_prime_32 \<equiv> 2 ^ 24 + 2 ^ 8 + 0x93"
abbreviation fnv_prime_64 :: nat where "fnv_prime_64 \<equiv> 2 ^ 40 + 2 ^ 8 + 0xb3"

definition ascii :: "char \<Rightarrow> bool" where
  "ascii c \<longleftrightarrow> (of_char c :: nat) < 128"

lemma bit_ascii: "ascii c \<Longrightarrow> 7 \<le> n \<Longrightarrow> \<not> bit (u8_of c) n"
proof -
  assume "ascii c" and n: "7 \<le> n"
  moreover have "(of_char c :: nat) = of_bool (digit0 c) + of_bool (digit1 c) * 2 + of_bool (digit2 c) * 4 + of_bool (digit3 c) * 8
     + of_bool (digit4 c) * 16 + of_bool (digit5 c) * 32 + of_bool (digit6 c) * 64 + of_bool (digit7 c) * 128"
    by (cases c) (simp add: of_char_def horner_sum_simps)
  ultimately have "\<not> digit7 c" by (auto simp: ascii_def)
  then have "\<not> bit (u8_of c) 7" by (cases c) (simp add: u8_of_def of_char_def bit_horner_sum_bit_iff)
  then show ?thesis using n bit_imp_le_length [of "u8_of c" n] by (cases "n = 7") auto
qed

lemma schar32_ascii: "ascii c \<Longrightarrow> unat (schar32 c) = of_char c"
proof -
  assume "ascii c"
  then have "schar32 c = uchar32 c"
    by (intro bit_word_eqI) (auto simp: bit_simps min_def bit_ascii)
  then show ?thesis by simp
qed

lemma schar64_ascii: "ascii c \<Longrightarrow> unat (schar64 c) = of_char c"
proof -
  assume a: "ascii c"
  have "schar64 c = ucast (uchar32 c)"
    using a by (intro bit_word_eqI) (auto simp: bit_simps min_def bit_ascii)
  then show ?thesis by (simp add: unat_ucast_u32_u64)
qed

lemma unat_xor: "unat (x XOR y) = unat x XOR unat y" for x y :: "'a :: len word"
  by (fact unsigned_xor_eq)

lemma fnv1_fold:
  fixes prime basis :: "'a :: len word"
  assumes "list_all ascii key" "\<And>c. ascii c \<Longrightarrow> unat (ext c) = of_char c"
  shows "unat (foldl (\<lambda>hash c. (hash * prime) XOR ext c) basis key) = fnv1_ref LENGTH('a) (unat prime) (unat basis) key"
  using assms(1) unfolding fnv1_ref_def
  by (induction key arbitrary: basis) (simp_all add: unat_xor unat_word_ariths assms(2))

lemma fnv1a_fold:
  fixes prime basis :: "'a :: len word"
  assumes "list_all ascii key" "\<And>c. ascii c \<Longrightarrow> unat (ext c) = of_char c"
  shows "unat (foldl (\<lambda>hash c. (hash XOR ext c) * prime) basis key) = fnv1a_ref LENGTH('a) (unat prime) (unat basis) key"
  using assms(1) unfolding fnv1a_ref_def
  by (induction key arbitrary: basis) (simp_all add: unat_xor unat_word_ariths assms(2))

text \<open>Truncation to 32 bits commutes with the steps, so the loop of \<open>hash_fnv1a_64\<close> may run in 32 bits.\<close>

lemma ucast_mult_u32: "(ucast (x * y :: u64) :: u32) = ucast x * ucast y"
proof (transfer, goal_cases)
  case (1 x y)
  have "take_bit 32 (x * y) = take_bit 32 (take_bit 32 x * take_bit 32 y)"
    by (simp add: take_bit_mult)
  also have "\<dots> = take_bit 32 (take_bit 32 (take_bit 64 x) * take_bit 32 (take_bit 64 y))"
    by simp
  also have "\<dots> = take_bit 32 (take_bit 64 x * take_bit 64 y)"
    by (rule take_bit_mult)
  finally show ?case by simp
qed

lemma ucast_xor_u32: "(ucast (x XOR y :: u64) :: u32) = ucast x XOR ucast y"
  by (rule bit_word_eqI) (auto simp: bit_simps)

lemma ucast_schar64: "ucast (schar64 c) = schar32 c"
  by (rule bit_word_eqI) (auto simp: bit_simps)

lemma hash_fnv1a_64_wide:
  "hash_fnv1a_64 key = ucast (foldl (\<lambda>hash c. (hash XOR schar64 c) * FNV_64_PRIME) FNV_64_INIT key)"
proof -
  have "ucast (foldl (\<lambda>hash c. (hash XOR schar64 c) * FNV_64_PRIME) a key)
      = foldl (\<lambda>hash c. (hash XOR schar32 c) * ucast FNV_64_PRIME) (ucast a :: u32) key" for a
    by (induction key arbitrary: a) (simp_all add: ucast_mult_u32 ucast_xor_u32 ucast_schar64)
  then show ?thesis by (simp add: hash_fnv1a_64_def)
qed

lemma unat_ucast_u32: "unat (ucast (x :: u64) :: u32) = unat x mod 2 ^ 32"
  by (simp add: unsigned_ucast_eq take_bit_eq_mod)

text \<open>
  C34: on ASCII keys the four FNV functions compute the published hashes: the two 32-bit
  variants all of it, the two 64-bit variants its low 32 bits, although \<^const>\<open>hash_fnv1a_64\<close>
  truncates the offset basis and the prime and multiplies in 32 bits.  The restriction to
  ASCII is needed: the code reads plain \<open>char\<close>s, which sign-extend from 0x80 on.
\<close>
theorem hash_fnv_published:
  assumes "list_all ascii key"
  shows "unat (hash_fnv1_32 key) = fnv1_ref 32 fnv_prime_32 2166136261 key \<and>
     unat (hash_fnv1a_32 key) = fnv1a_ref 32 fnv_prime_32 2166136261 key \<and>
     unat (hash_fnv1_64 key) = fnv1_ref 64 fnv_prime_64 14695981039346656037 key mod 2 ^ 32 \<and>
     unat (hash_fnv1a_64 key) = fnv1a_ref 64 fnv_prime_64 14695981039346656037 key mod 2 ^ 32"
proof -
  have par: "unat FNV_32_PRIME = fnv_prime_32" "unat FNV_32_INIT = 2166136261" "unat FNV_64_PRIME = fnv_prime_64"
    "unat FNV_64_INIT = 14695981039346656037"
    by (simp_all add: FNV_32_PRIME_def FNV_32_INIT_def FNV_64_PRIME_def FNV_64_INIT_def)
  have "unat (hash_fnv1_32 key) = fnv1_ref 32 fnv_prime_32 2166136261 key"
    using fnv1_fold [OF assms schar32_ascii, of FNV_32_PRIME FNV_32_INIT] by (simp only: hash_fnv1_32_def par len_num1 len_bit0 mult_1_right) simp
  moreover have "unat (hash_fnv1a_32 key) = fnv1a_ref 32 fnv_prime_32 2166136261 key"
    using fnv1a_fold [OF assms schar32_ascii, of FNV_32_PRIME FNV_32_INIT] by (simp only: hash_fnv1a_32_def par len_num1 len_bit0 mult_1_right) simp
  moreover have "unat (hash_fnv1_64 key) = fnv1_ref 64 fnv_prime_64 14695981039346656037 key mod 2 ^ 32"
    using fnv1_fold [OF assms schar64_ascii, of FNV_64_PRIME FNV_64_INIT]
    by (simp only: hash_fnv1_64_def unat_ucast_u32 par len_num1 len_bit0 mult_1_right) simp
  moreover have "unat (hash_fnv1a_64 key) = fnv1a_ref 64 fnv_prime_64 14695981039346656037 key mod 2 ^ 32"
    using fnv1a_fold [OF assms schar64_ascii, of FNV_64_PRIME FNV_64_INIT]
    by (simp only: hash_fnv1a_64_wide unat_ucast_u32 par len_num1 len_bit0 mult_1_right) simp
  ultimately show ?thesis by blast
qed

theorem hash_fnv_published_witness:
  "unat (hash_fnv1_32 ''key:17'') = fnv1_ref 32 fnv_prime_32 2166136261 ''key:17'' \<and>
   unat (hash_fnv1a_32 ''key:17'') = fnv1a_ref 32 fnv_prime_32 2166136261 ''key:17'' \<and>
   unat (hash_fnv1_64 ''key:17'') = fnv1_ref 64 fnv_prime_64 14695981039346656037 ''key:17'' mod 2 ^ 32 \<and>
   unat (hash_fnv1a_64 ''key:17'') = fnv1a_ref 64 fnv_prime_64 14695981039346656037 ''key:17'' mod 2 ^ 32"
  by (rule hash_fnv_published) (simp add: ascii_def)

end
