(* ===== verification/Hash_Jenkins.thy ===== *)
theory Hash_Jenkins
  imports NC_Prelude
begin

text \<open>
  Bob Jenkins' hash (\<^verbatim>\<open>src/src/hashkit/nc_jenkins.c\<close>).  The routine picks one of three
  loops by the alignment of the key pointer and, on the aligned paths, reads whole
  words that may reach past the key.  The model therefore works on a memory and an
  address; the lemmas show that the three paths agree and that the bytes outside
  the key do not matter.
\<close>

unbundle bit_operations_syntax

type_synonym jstate = "u32 \<times> u32 \<times> u32"

definition JENKINS_INITVAL :: u32 where "JENKINS_INITVAL = 13"

definition jenkins_mix :: "jstate \<Rightarrow> jstate" where
  "jenkins_mix s = (case s of (a, b, c) \<Rightarrow>
     let a = a - c; a = a XOR rotl32 c 4;  c = c + b;
         b = b - a; b = b XOR rotl32 a 6;  a = a + c;
         c = c - b; c = c XOR rotl32 b 8;  b = b + a;
         a = a - c; a = a XOR rotl32 c 16; c = c + b;
         b = b - a; b = b XOR rotl32 a 19; a = a + c;
         c = c - b; c = c XOR rotl32 b 4;  b = b + a
     in (a, b, c))"

definition jenkins_final :: "jstate \<Rightarrow> u32" where
  "jenkins_final s = (case s of (a, b, c) \<Rightarrow>
     let c = c XOR b; c = c - rotl32 b 14;
         a = a XOR c; a = a - rotl32 c 11;
         b = b XOR a; b = b - rotl32 a 25;
         c = c XOR b; c = c - rotl32 b 16;
         a = a XOR c; a = a - rotl32 c 4;
         b = b XOR a; b = b - rotl32 a 14;
         c = c XOR b; c = c - rotl32 b 24
     in c)"

subsection \<open>Typed reads\<close>

definition ld8 :: "memory \<Rightarrow> nat \<Rightarrow> u32" where
  "ld8 M p = uchar32 (M p)"

definition ld16 :: "memory \<Rightarrow> nat \<Rightarrow> u32" where
  "ld16 M p = le16 (M p) (M (p + 1))"

definition ld32 :: "memory \<Rightarrow> nat \<Rightarrow> u32" where
  "ld32 M p = le32 (M p) (M (p + 1)) (M (p + 2)) (M (p + 3))"

subsection \<open>Reading 32-bit chunks\<close>

fun jenkins_loop32 :: "memory \<Rightarrow> nat \<Rightarrow> nat \<Rightarrow> jstate \<Rightarrow> nat \<times> nat \<times> jstate" where
  "jenkins_loop32 M p len (a, b, c) =
     (if len > 12
      then jenkins_loop32 M (p + 12) (len - 12)
             (jenkins_mix (a + ld32 M p, b + ld32 M (p + 4), c + ld32 M (p + 8)))
      else (p, len, a, b, c))"

definition jenkins_last32 :: "memory \<Rightarrow> nat \<Rightarrow> nat \<Rightarrow> jstate \<Rightarrow> u32" where
  "jenkins_last32 M p len s = (case s of (a, b, c) \<Rightarrow>
     let k0 = ld32 M p; k1 = ld32 M (p + 4); k2 = ld32 M (p + 8) in
     if len = 12 then jenkins_final (a + k0, b + k1, c + k2)
     else if len = 11 then jenkins_final (a + k0, b + k1, c + (k2 AND 0xffffff))
     else if len = 10 then jenkins_final (a + k0, b + k1, c + (k2 AND 0xffff))
     else if len = 9 then jenkins_final (a + k0, b + k1, c + (k2 AND 0xff))
     else if len = 8 then jenkins_final (a + k0, b + k1, c)
     else if len = 7 then jenkins_final (a + k0, b + (k1 AND 0xffffff), c)
     else if len = 6 then jenkins_final (a + k0, b + (k1 AND 0xffff), c)
     else if len = 5 then jenkins_final (a + k0, b + (k1 AND 0xff), c)
     else if len = 4 then jenkins_final (a + k0, b, c)
     else if len = 3 then jenkins_final (a + (k0 AND 0xffffff), b, c)
     else if len = 2 then jenkins_final (a + (k0 AND 0xffff), b, c)
     else if len = 1 then jenkins_final (a + (k0 AND 0xff), b, c)
     else c)"

subsection \<open>Reading 16-bit chunks\<close>

definition ld16x2 :: "memory \<Rightarrow> nat \<Rightarrow> u32" where
  "ld16x2 M p = ld16 M p + push_bit 16 (ld16 M (p + 2))"

fun jenkins_loop16 :: "memory \<Rightarrow> nat \<Rightarrow> nat \<Rightarrow> jstate \<Rightarrow> nat \<times> nat \<times> jstate" where
  "jenkins_loop16 M p len (a, b, c) =
     (if len > 12
      then jenkins_loop16 M (p + 12) (len - 12)
             (jenkins_mix (a + ld16x2 M p, b + ld16x2 M (p + 4), c + ld16x2 M (p + 8)))
      else (p, len, a, b, c))"

definition jenkins_last16 :: "memory \<Rightarrow> nat \<Rightarrow> nat \<Rightarrow> jstate \<Rightarrow> u32" where
  "jenkins_last16 M p len s = (case s of (a, b, c) \<Rightarrow>
     let k01 = ld16x2 M p; k23 = ld16x2 M (p + 4); k45 = ld16x2 M (p + 8) in
     if len = 12 then jenkins_final (a + k01, b + k23, c + k45)
     else if len = 11 then
       jenkins_final (a + k01, b + k23, c + push_bit 16 (ld8 M (p + 10)) + ld16 M (p + 8))
     else if len = 10 then jenkins_final (a + k01, b + k23, c + ld16 M (p + 8))
     else if len = 9 then jenkins_final (a + k01, b + k23, c + ld8 M (p + 8))
     else if len = 8 then jenkins_final (a + k01, b + k23, c)
     else if len = 7 then
       jenkins_final (a + k01, b + push_bit 16 (ld8 M (p + 6)) + ld16 M (p + 4), c)
     else if len = 6 then jenkins_final (a + k01, b + ld16 M (p + 4), c)
     else if len = 5 then jenkins_final (a + k01, b + ld8 M (p + 4), c)
     else if len = 4 then jenkins_final (a + k01, b, c)
     else if len = 3 then jenkins_final (a + push_bit 16 (ld8 M (p + 2)) + ld16 M p, b, c)
     else if len = 2 then jenkins_final (a + ld16 M p, b, c)
     else if len = 1 then jenkins_final (a + ld8 M p, b, c)
     else c)"

subsection \<open>Reading bytes\<close>

definition ld8x4 :: "memory \<Rightarrow> nat \<Rightarrow> u32" where
  "ld8x4 M p = ld8 M p + push_bit 8 (ld8 M (p + 1)) + push_bit 16 (ld8 M (p + 2))
     + push_bit 24 (ld8 M (p + 3))"

fun jenkins_loop8 :: "memory \<Rightarrow> nat \<Rightarrow> nat \<Rightarrow> jstate \<Rightarrow> nat \<times> nat \<times> jstate" where
  "jenkins_loop8 M p len (a, b, c) =
     (if len > 12
      then jenkins_loop8 M (p + 12) (len - 12)
             (jenkins_mix (a + ld8x4 M p, b + ld8x4 M (p + 4), c + ld8x4 M (p + 8)))
      else (p, len, a, b, c))"

text \<open>The fall-through switch: entering at case \<open>len\<close> adds the bytes below \<open>len\<close>.\<close>

definition jenkins_last8 :: "memory \<Rightarrow> nat \<Rightarrow> nat \<Rightarrow> jstate \<Rightarrow> u32" where
  "jenkins_last8 M p len s = (case s of (a, b, c) \<Rightarrow>
     let byte = (\<lambda>i sh. if i < len then push_bit sh (ld8 M (p + i)) else 0) in
     if len = 0 \<or> len > 12 then c
     else jenkins_final
       (a + byte 3 24 + byte 2 16 + byte 1 8 + byte 0 0,
        b + byte 7 24 + byte 6 16 + byte 5 8 + byte 4 0,
        c + byte 11 24 + byte 10 16 + byte 9 8 + byte 8 0))"

subsection \<open>The hash\<close>

definition jenkins_init :: "nat \<Rightarrow> jstate" where
  "jenkins_init len = (let v = 0xdeadbeef + of_nat len + JENKINS_INITVAL in (v, v, v))"

definition hash_jenkins :: "memory \<Rightarrow> nat \<Rightarrow> nat \<Rightarrow> u32" where
  "hash_jenkins M key len =
     (if key mod 4 = 0 then
        case jenkins_loop32 M key len (jenkins_init len) of (p, l, s) \<Rightarrow> jenkins_last32 M p l s
      else if key mod 2 = 0 then
        case jenkins_loop16 M key len (jenkins_init len) of (p, l, s) \<Rightarrow> jenkins_last16 M p l s
      else
        case jenkins_loop8 M key len (jenkins_init len) of (p, l, s) \<Rightarrow> jenkins_last8 M p l s)"

declare jenkins_loop32.simps [simp del] jenkins_loop16.simps [simp del] jenkins_loop8.simps [simp del]

subsection \<open>The three paths read the same values\<close>

lemma ld32_bytes: "ld32 M p = ld8x4 M p"
  by (simp add: ld32_def le32_def ld8x4_def ld8_def)

lemma ld16x2_bytes: "ld16x2 M p = ld8x4 M p"
  by (simp add: ld16x2_def ld16_def le16_def ld8x4_def ld8_def push_bit_add add.assoc
      numeral_eq_Suc)

lemma loop32_is_loop8: "jenkins_loop32 M p len s = jenkins_loop8 M p len s"
  by (induction M p len s rule: jenkins_loop32.induct)
    (subst jenkins_loop32.simps, subst jenkins_loop8.simps, simp add: ld32_bytes)

lemma loop16_is_loop8: "jenkins_loop16 M p len s = jenkins_loop8 M p len s"
  by (induction M p len s rule: jenkins_loop16.induct)
    (subst jenkins_loop16.simps, subst jenkins_loop8.simps, simp add: ld16x2_bytes)

lemma le_12_cases:
  "len \<le> (12::nat) \<Longrightarrow> len = 0 \<or> len = 1 \<or> len = 2 \<or> len = 3 \<or> len = 4 \<or> len = 5 \<or> len = 6
     \<or> len = 7 \<or> len = 8 \<or> len = 9 \<or> len = 10 \<or> len = 11 \<or> len = 12"
  by arith

lemmas ld_defs = ld32_def ld16x2_def ld16_def ld8_def ld8x4_def le32_mask le32_def le16_def push_bit_add

lemma last32_is_last8: "len \<le> 12 \<Longrightarrow> jenkins_last32 M p len s = jenkins_last8 M p len s"
  by (drule le_12_cases, cases s, elim disjE)
    (simp_all add: jenkins_last32_def jenkins_last8_def ld32_def ld8_def le32_mask,
     simp_all add: le32_def le16_def numeral_eq_Suc ac_simps)

lemma last16_is_last8: "len \<le> 12 \<Longrightarrow> jenkins_last16 M p len s = jenkins_last8 M p len s"
  by (drule le_12_cases, cases s, elim disjE)
    (simp_all add: jenkins_last16_def jenkins_last8_def ld16x2_def ld16_def ld8_def le16_def
       push_bit_add numeral_eq_Suc ac_simps)

lemma loop8_len: "case jenkins_loop8 M p len s of (q, l, t) \<Rightarrow> l \<le> 12"
  by (induction M p len s rule: jenkins_loop8.induct) (subst jenkins_loop8.simps, simp)

definition jenkins_bytewise :: "memory \<Rightarrow> nat \<Rightarrow> nat \<Rightarrow> jstate \<Rightarrow> u32" where
  "jenkins_bytewise M key len s =
     (case jenkins_loop8 M key len s of (p, l, t) \<Rightarrow> jenkins_last8 M p l t)"

lemma hash_jenkins_bytewise: "hash_jenkins M key len = jenkins_bytewise M key len (jenkins_init len)"
  using loop8_len [of M key len "jenkins_init len"]
  by (auto simp: hash_jenkins_def jenkins_bytewise_def loop32_is_loop8 loop16_is_loop8
      last32_is_last8 last16_is_last8 split: prod.splits)

lemma ld8x4_cong:
  assumes "\<And>i. i < len \<Longrightarrow> M (p + i) = M' (p' + i)" and "k + 3 < len"
  shows "ld8x4 M (p + k) = ld8x4 M' (p' + k)"
  using assms(1) [of k] assms(1) [of "k + 1"] assms(1) [of "k + 2"] assms(1) [of "k + 3"] assms(2)
  by (simp add: ld8x4_def ld8_def add.assoc)

lemma last8_cong:
  assumes "\<And>i. i < len \<Longrightarrow> M (p + i) = M' (p' + i)"
  shows "jenkins_last8 M p len s = jenkins_last8 M' p' len s"
proof -
  have "(if i < len then push_bit sh (ld8 M (p + i)) else 0)
      = (if i < len then push_bit sh (ld8 M' (p' + i)) else 0)" for i sh
    using assms [of i] by (simp add: ld8_def)
  then show ?thesis by (simp only: jenkins_last8_def)
qed

lemma jenkins_bytewise_cong:
  assumes "\<And>i. i < len \<Longrightarrow> M (p + i) = M' (p' + i)"
  shows "jenkins_bytewise M p len s = jenkins_bytewise M' p' len s"
  using assms
proof (induction len arbitrary: p p' s rule: less_induct)
  case (less len)
  obtain a b c where s: "s = (a, b, c)" by (cases s)
  show ?case
  proof (cases "len > 12")
    case True
    note step = ld8x4_cong [of len M p M' p', OF less.prems]
    let ?t = "\<lambda>M p. jenkins_mix (a + ld8x4 M p, b + ld8x4 M (p + 4), c + ld8x4 M (p + 8))"
    have t: "?t M p = ?t M' p'"
      using step [of 0] step [of 4] step [of 8] True by simp
    have rec: "jenkins_bytewise M p len s = jenkins_bytewise M (p + 12) (len - 12) (?t M p)" for M p
      unfolding s jenkins_bytewise_def by (subst jenkins_loop8.simps) (use True in simp)
    have "M (p + 12 + i) = M' (p' + 12 + i)" if "i < len - 12" for i
      using less.prems [of "12 + i"] that by (simp add: add.assoc)
    then show ?thesis
      unfolding rec t using True by (intro less.IH) auto
  next
    case False
    then show ?thesis
      using last8_cong [of len M p M' p', OF less.prems]
      by (simp add: s jenkins_bytewise_def jenkins_loop8.simps)
  qed
qed

text \<open>
  C30: \<^const>\<open>hash_jenkins\<close> depends only on the \<open>length\<close> bytes of the key: the 32-bit,
  16-bit and byte-wise loops selected by the alignment of the pointer agree, and
  the bytes past the end which the aligned loops load are masked away.  Two copies
  of a key anywhere in memory, at any alignment, hash alike.
\<close>
theorem hash_jenkins_location_independent:
  assumes "\<forall>i < len. M (key + i) = M' (key' + i)"
  shows "hash_jenkins M key len = hash_jenkins M' key' len"
  unfolding hash_jenkins_bytewise using assms by (intro jenkins_bytewise_cong) simp

text \<open>The key \<open>ab\<close>, word aligned and followed by different bytes, and at an odd address.\<close>
theorem hash_jenkins_location_independent_witness:
  "hash_jenkins (\<lambda>i. if i = 0 then CHR ''a'' else if i = 1 then CHR ''b'' else CHR ''X'') 0 2
   = hash_jenkins (\<lambda>i. if i = 7 then CHR ''a'' else if i = 8 then CHR ''b'' else CHR ''Y'') 7 2"
  by (rule hash_jenkins_location_independent) (simp add: less_2_cases_iff)

end
