(* ===== verification/Hash_MD5.thy ===== *)
theory Hash_MD5
  imports NC_Prelude
begin

text \<open>
  The MD5 implementation of \<^verbatim>\<open>src/src/hashkit/nc_md5.c\<close> behind the \<open>md5\<close> hash and the
  ketama continuum.  \<open>MD5_CTX\<close> is a record and \<open>body\<close>, \<open>MD5_Init\<close>, \<open>MD5_Update\<close> and
  \<open>MD5_Final\<close> are state transformers on it; \<open>None\<close> stands for an access outside the
  data or the 64-byte buffer.  The reference is RFC 1321: padding, little-endian
  bit count, 64 steps driven by the tables.  The main lemma is that a context
  always represents the bytes fed to it, however they are split.
\<close>

unbundle bit_operations_syntax

type_synonym md5_state = "u32 \<times> u32 \<times> u32 \<times> u32"

record MD5_CTX =
  lo :: u32
  hi :: u32
  abcd :: md5_state
  buffer :: bytes

subsection \<open>The compression function\<close>

definition md5_F :: "u32 \<Rightarrow> u32 \<Rightarrow> u32 \<Rightarrow> u32" where
  "md5_F x y z = z XOR (x AND (y XOR z))"

definition md5_G :: "u32 \<Rightarrow> u32 \<Rightarrow> u32 \<Rightarrow> u32" where
  "md5_G x y z = y XOR (z AND (x XOR y))"

definition md5_H :: "u32 \<Rightarrow> u32 \<Rightarrow> u32 \<Rightarrow> u32" where
  "md5_H x y z = x XOR y XOR z"

definition md5_I :: "u32 \<Rightarrow> u32 \<Rightarrow> u32 \<Rightarrow> u32" where
  "md5_I x y z = y XOR (x OR NOT z)"

definition md5_STEP ::
  "(u32 \<Rightarrow> u32 \<Rightarrow> u32 \<Rightarrow> u32) \<Rightarrow> u32 \<Rightarrow> u32 \<Rightarrow> u32 \<Rightarrow> u32 \<Rightarrow> u32 \<Rightarrow> u32 \<Rightarrow> nat \<Rightarrow> u32" where
  "md5_STEP f a b c d x t s =
     (let a = a + (f b c d + x + t);
          a = push_bit s a OR drop_bit (32 - s) (a AND 0xffffffff)
      in a + b)"

text \<open>Four consecutive \<open>STEP\<close> lines, which assign \<open>a\<close>, \<open>d\<close>, \<open>c\<close> and \<open>b\<close> in turn.\<close>

definition md5_step4 ::
  "(u32 \<Rightarrow> u32 \<Rightarrow> u32 \<Rightarrow> u32) \<Rightarrow> u32 \<times> u32 \<times> nat \<Rightarrow> u32 \<times> u32 \<times> nat \<Rightarrow> u32 \<times> u32 \<times> nat
    \<Rightarrow> u32 \<times> u32 \<times> nat \<Rightarrow> md5_state \<Rightarrow> md5_state" where
  "md5_step4 f p0 p1 p2 p3 st =
     (case (p0, p1, p2, p3, st) of
        ((x0, t0, s0), (x1, t1, s1), (x2, t2, s2), (x3, t3, s3), (a, b, c, d)) \<Rightarrow>
        let a = md5_STEP f a b c d x0 t0 s0;
            d = md5_STEP f d a b c x1 t1 s1;
            c = md5_STEP f c d a b x2 t2 s2;
            b = md5_STEP f b c d a x3 t3 s3
        in (a, b, c, d))"

definition md5_round1 :: "(nat \<Rightarrow> u32) \<Rightarrow> md5_state \<Rightarrow> md5_state" where
  "md5_round1 X s =
     (let s = md5_step4 md5_F (X 0, 0xd76aa478, 7) (X 1, 0xe8c7b756, 12)
                     (X 2, 0x242070db, 17) (X 3, 0xc1bdceee, 22) s;
          s = md5_step4 md5_F (X 4, 0xf57c0faf, 7) (X 5, 0x4787c62a, 12)
                     (X 6, 0xa8304613, 17) (X 7, 0xfd469501, 22) s;
          s = md5_step4 md5_F (X 8, 0x698098d8, 7) (X 9, 0x8b44f7af, 12)
                     (X 10, 0xffff5bb1, 17) (X 11, 0x895cd7be, 22) s;
          s = md5_step4 md5_F (X 12, 0x6b901122, 7) (X 13, 0xfd987193, 12)
                     (X 14, 0xa679438e, 17) (X 15, 0x49b40821, 22) s
      in s)"

definition md5_round2 :: "(nat \<Rightarrow> u32) \<Rightarrow> md5_state \<Rightarrow> md5_state" where
  "md5_round2 X s =
     (let s = md5_step4 md5_G (X 1, 0xf61e2562, 5) (X 6, 0xc040b340, 9)
                     (X 11, 0x265e5a51, 14) (X 0, 0xe9b6c7aa, 20) s;
          s = md5_step4 md5_G (X 5, 0xd62f105d, 5) (X 10, 0x02441453, 9)
                     (X 15, 0xd8a1e681, 14) (X 4, 0xe7d3fbc8, 20) s;
          s = md5_step4 md5_G (X 9, 0x21e1cde6, 5) (X 14, 0xc33707d6, 9)
                     (X 3, 0xf4d50d87, 14) (X 8, 0x455a14ed, 20) s;
          s = md5_step4 md5_G (X 13, 0xa9e3e905, 5) (X 2, 0xfcefa3f8, 9)
                     (X 7, 0x676f02d9, 14) (X 12, 0x8d2a4c8a, 20) s
      in s)"

definition md5_round3 :: "(nat \<Rightarrow> u32) \<Rightarrow> md5_state \<Rightarrow> md5_state" where
  "md5_round3 X s =
     (let s = md5_step4 md5_H (X 5, 0xfffa3942, 4) (X 8, 0x8771f681, 11)
                     (X 11, 0x6d9d6122, 16) (X 14, 0xfde5380c, 23) s;
          s = md5_step4 md5_H (X 1, 0xa4beea44, 4) (X 4, 0x4bdecfa9, 11)
                     (X 7, 0xf6bb4b60, 16) (X 10, 0xbebfbc70, 23) s;
          s = md5_step4 md5_H (X 13, 0x289b7ec6, 4) (X 0, 0xeaa127fa, 11)
                     (X 3, 0xd4ef3085, 16) (X 6, 0x04881d05, 23) s;
          s = md5_step4 md5_H (X 9, 0xd9d4d039, 4) (X 12, 0xe6db99e5, 11)
                     (X 15, 0x1fa27cf8, 16) (X 2, 0xc4ac5665, 23) s
      in s)"

definition md5_round4 :: "(nat \<Rightarrow> u32) \<Rightarrow> md5_state \<Rightarrow> md5_state" where
  "md5_round4 X s =
     (let s = md5_step4 md5_I (X 0, 0xf4292244, 6) (X 7, 0x432aff97, 10)
                     (X 14, 0xab9423a7, 15) (X 5, 0xfc93a039, 21) s;
          s = md5_step4 md5_I (X 12, 0x655b59c3, 6) (X 3, 0x8f0ccc92, 10)
                     (X 10, 0xffeff47d, 15) (X 1, 0x85845dd1, 21) s;
          s = md5_step4 md5_I (X 8, 0x6fa87e4f, 6) (X 15, 0xfe2ce6e0, 10)
                     (X 6, 0xa3014314, 15) (X 13, 0x4e0811a1, 21) s;
          s = md5_step4 md5_I (X 4, 0xf7537e82, 6) (X 11, 0xbd3af235, 10)
                     (X 2, 0x2ad7d2bb, 15) (X 9, 0xeb86d391, 21) s
      in s)"

definition md5_SET :: "bytes \<Rightarrow> nat \<Rightarrow> u32" where
  "md5_SET ptr n = le32 (ptr ! (n * 4)) (ptr ! (n * 4 + 1)) (ptr ! (n * 4 + 2)) (ptr ! (n * 4 + 3))"

definition md5_block :: "md5_state \<Rightarrow> bytes \<Rightarrow> md5_state" where
  "md5_block saved ptr =
     (let X = md5_SET ptr in
      case (saved, md5_round4 X (md5_round3 X (md5_round2 X (md5_round1 X saved)))) of
        ((saved_a, saved_b, saved_c, saved_d), (a, b, c, d)) \<Rightarrow>
          (a + saved_a, b + saved_b, c + saved_c, d + saved_d))"

text \<open>\<open>do { ... } while (size -= 64)\<close>: \<open>data\<close> is the memory readable at the pointer.\<close>

function body :: "md5_state \<Rightarrow> bytes \<Rightarrow> u64 \<Rightarrow> (md5_state \<times> bytes) option" where
  "body st data sz =
     (if length data < 64 then None
      else let st' = md5_block st (take 64 data); ptr = drop 64 data; sz' = sz - 64 in
           if sz' = 0 then Some (st', ptr) else body st' ptr sz')"
  by pat_completeness auto
termination by (relation "measure (\<lambda>(st, data, sz). length data)") auto

declare body.simps [simp del]

subsection \<open>Contexts\<close>

definition MD5_Init :: MD5_CTX where
  "MD5_Init = \<lparr>lo = 0, hi = 0, abcd = (0x67452301, 0xefcdab89, 0x98badcfe, 0x10325476),
               buffer = replicate 64 (CHR 0x00)\<rparr>"

definition memcpy :: "bytes \<Rightarrow> nat \<Rightarrow> bytes \<Rightarrow> bytes option" where
  "memcpy buf off src =
     (if off + length src \<le> length buf
      then Some (take off buf @ src @ drop (off + length src) buf) else None)"

definition MD5_count :: "MD5_CTX \<Rightarrow> nat \<Rightarrow> MD5_CTX" where
  "MD5_count ctx sz =
     (let saved_lo = lo ctx;
          lo' = ucast ((ucast saved_lo + of_nat sz :: u64) AND 0x1fffffff) :: u32;
          hi' = (if lo' < saved_lo then hi ctx + 1 else hi ctx)
      in ctx\<lparr>lo := lo', hi := hi' + ucast (drop_bit 29 (of_nat sz :: u64))\<rparr>)"

definition MD5_rest :: "MD5_CTX \<Rightarrow> bytes \<Rightarrow> MD5_CTX option" where
  "MD5_rest ctx data =
     (let sz = length data in
      if sz \<ge> 64 then
        case body (abcd ctx) data (of_nat sz AND NOT 0x3f) of
          None \<Rightarrow> None
        | Some (st, data') \<Rightarrow>
            (case memcpy (buffer ctx) 0 (take (sz mod 64) data') of
               None \<Rightarrow> None
             | Some buf \<Rightarrow> Some (ctx\<lparr>abcd := st, buffer := buf\<rparr>))
      else
        (case memcpy (buffer ctx) 0 data of
           None \<Rightarrow> None | Some buf \<Rightarrow> Some (ctx\<lparr>buffer := buf\<rparr>)))"

definition MD5_Update :: "MD5_CTX \<Rightarrow> bytes \<Rightarrow> MD5_CTX option" where
  "MD5_Update ctx data =
     (let used = unat (lo ctx AND 0x3f);
          ctx1 = MD5_count ctx (length data);
          free = 64 - used
      in if used \<noteq> 0 then
           if length data < free then
             (case memcpy (buffer ctx1) used data of
                None \<Rightarrow> None | Some buf \<Rightarrow> Some (ctx1\<lparr>buffer := buf\<rparr>))
           else
             (case memcpy (buffer ctx1) used (take free data) of
                None \<Rightarrow> None
              | Some buf \<Rightarrow>
                  (case body (abcd ctx1) buf 64 of
                     None \<Rightarrow> None
                   | Some (st, _) \<Rightarrow> MD5_rest (ctx1\<lparr>buffer := buf, abcd := st\<rparr>) (drop free data)))
         else MD5_rest ctx1 data)"

definition u32_bytes :: "u32 \<Rightarrow> bytes" where
  "u32_bytes w = [char_of_u32 w, char_of_u32 (drop_bit 8 w), char_of_u32 (drop_bit 16 w),
                  char_of_u32 (drop_bit 24 w)]"

definition MD5_tail :: "MD5_CTX \<Rightarrow> nat \<Rightarrow> bytes option" where
  "MD5_tail ctx used =
     (case memcpy (buffer ctx) used (replicate (64 - used - 8) (CHR 0x00)) of
        None \<Rightarrow> None
      | Some buf1 \<Rightarrow>
          (case memcpy buf1 56 (u32_bytes (push_bit 3 (lo ctx)) @ u32_bytes (hi ctx)) of
             None \<Rightarrow> None
           | Some buf2 \<Rightarrow>
               (case body (abcd ctx) buf2 64 of
                  None \<Rightarrow> None
                | Some ((a, b, c, d), _) \<Rightarrow>
                    Some (u32_bytes a @ u32_bytes b @ u32_bytes c @ u32_bytes d))))"

definition MD5_Final :: "MD5_CTX \<Rightarrow> bytes option" where
  "MD5_Final ctx =
     (let used = unat (lo ctx AND 0x3f) in
      case memcpy (buffer ctx) used [CHR 0x80] of
        None \<Rightarrow> None
      | Some buf1 \<Rightarrow>
          (let used = used + 1; free = 64 - used in
           if free < 8 then
             (case memcpy buf1 used (replicate free (CHR 0x00)) of
                None \<Rightarrow> None
              | Some buf2 \<Rightarrow>
                  (case body (abcd ctx) buf2 64 of
                     None \<Rightarrow> None
                   | Some (st, _) \<Rightarrow> MD5_tail (ctx\<lparr>buffer := buf2, abcd := st\<rparr>) 0))
           else MD5_tail (ctx\<lparr>buffer := buf1\<rparr>) used))"

definition md5_signature :: "bytes \<Rightarrow> bytes option" where
  "md5_signature key =
     (case MD5_Update MD5_Init key of None \<Rightarrow> None | Some ctx \<Rightarrow> MD5_Final ctx)"

definition hash_md5 :: "bytes \<Rightarrow> u32 option" where
  "hash_md5 key =
     (case md5_signature key of
        None \<Rightarrow> None
      | Some results \<Rightarrow>
          Some (push_bit 24 (uchar32 (results ! 3) AND 0xff) OR push_bit 16 (uchar32 (results ! 2) AND 0xff)
                OR push_bit 8 (uchar32 (results ! 1) AND 0xff) OR (uchar32 (results ! 0) AND 0xff)))"

subsection \<open>RFC 1321\<close>

definition md5_T :: "u32 list" where
  "md5_T = [
     0xd76aa478, 0xe8c7b756, 0x242070db, 0xc1bdceee, 0xf57c0faf, 0x4787c62a, 0xa8304613, 0xfd469501,
     0x698098d8, 0x8b44f7af, 0xffff5bb1, 0x895cd7be, 0x6b901122, 0xfd987193, 0xa679438e, 0x49b40821,
     0xf61e2562, 0xc040b340, 0x265e5a51, 0xe9b6c7aa, 0xd62f105d, 0x02441453, 0xd8a1e681, 0xe7d3fbc8,
     0x21e1cde6, 0xc33707d6, 0xf4d50d87, 0x455a14ed, 0xa9e3e905, 0xfcefa3f8, 0x676f02d9, 0x8d2a4c8a,
     0xfffa3942, 0x8771f681, 0x6d9d6122, 0xfde5380c, 0xa4beea44, 0x4bdecfa9, 0xf6bb4b60, 0xbebfbc70,
     0x289b7ec6, 0xeaa127fa, 0xd4ef3085, 0x04881d05, 0xd9d4d039, 0xe6db99e5, 0x1fa27cf8, 0xc4ac5665,
     0xf4292244, 0x432aff97, 0xab9423a7, 0xfc93a039, 0x655b59c3, 0x8f0ccc92, 0xffeff47d, 0x85845dd1,
     0x6fa87e4f, 0xfe2ce6e0, 0xa3014314, 0x4e0811a1, 0xf7537e82, 0xbd3af235, 0x2ad7d2bb, 0xeb86d391]"

definition rfc_f :: "nat \<Rightarrow> u32 \<Rightarrow> u32 \<Rightarrow> u32 \<Rightarrow> u32" where
  "rfc_f i x y z =
     (if i < 16 then (x AND y) OR (NOT x AND z)
      else if i < 32 then (x AND z) OR (y AND NOT z)
      else if i < 48 then x XOR y XOR z
      else y XOR (x OR NOT z))"

definition rfc_k :: "nat \<Rightarrow> nat" where
  "rfc_k i = (if i < 16 then i else if i < 32 then (5 * i + 1) mod 16
              else if i < 48 then (3 * i + 5) mod 16 else (7 * i) mod 16)"

definition rfc_s :: "nat \<Rightarrow> nat" where
  "rfc_s i = [7, 12, 17, 22, 5, 9, 14, 20, 4, 11, 16, 23, 6, 10, 15, 21] ! (i div 16 * 4 + i mod 4)"

definition rfc_step :: "(nat \<Rightarrow> u32) \<Rightarrow> nat \<Rightarrow> md5_state \<Rightarrow> md5_state" where
  "rfc_step X i s = (case s of (a, b, c, d) \<Rightarrow>
     (d, b + rotl32 (a + rfc_f i b c d + X (rfc_k i) + md5_T ! i) (rfc_s i), b, c))"

definition rfc_block :: "md5_state \<Rightarrow> bytes \<Rightarrow> md5_state" where
  "rfc_block s blk =
     (case (s, fold (rfc_step (md5_SET blk)) [0..<64] s) of
        ((a, b, c, d), (a', b', c', d')) \<Rightarrow> (a + a', b + b', c + c', d + d'))"

function rfc_blocks :: "md5_state \<Rightarrow> bytes \<Rightarrow> md5_state" where
  "rfc_blocks s bs = (if length bs < 64 then s else rfc_blocks (rfc_block s (take 64 bs)) (drop 64 bs))"
  by pat_completeness auto
termination by (relation "measure (\<lambda>(s, bs). length bs)") auto

declare rfc_blocks.simps [simp del]

definition le_bytes :: "nat \<Rightarrow> nat \<Rightarrow> bytes" where
  "le_bytes n v = map (\<lambda>i. char_of (v div 256 ^ i)) [0..<n]"

definition rfc_pad :: "nat \<Rightarrow> bytes" where
  "rfc_pad len = CHR 0x80 # replicate ((119 - len mod 64) mod 64) (CHR 0x00) @ le_bytes 8 (8 * len)"

definition md5_ref :: "bytes \<Rightarrow> bytes" where
  "md5_ref msg =
     (case rfc_blocks (0x67452301, 0xefcdab89, 0x98badcfe, 0x10325476) (msg @ rfc_pad (length msg)) of
        (a, b, c, d) \<Rightarrow> le_bytes 4 (unat a) @ le_bytes 4 (unat b) @ le_bytes 4 (unat c) @ le_bytes 4 (unat d))"

subsection \<open>The rounds are the RFC steps\<close>

lemma md5_F_rfc: "md5_F x y z = (x AND y) OR (NOT x AND z)"
  by (rule bit_word_eqI) (auto simp: md5_F_def bit_simps)

lemma md5_G_rfc: "md5_G x y z = (x AND z) OR (y AND NOT z)"
  by (rule bit_word_eqI) (auto simp: md5_G_def bit_simps)

lemma md5_STEP_rfc: "md5_STEP f a b c d x t s = b + rotl32 (a + f b c d + x + t) s"
proof -
  have "w AND 0xffffffff = w" for w :: u32
  proof -
    have ones: "(0xffffffff :: u32) = - 1" by simp
    show ?thesis unfolding ones by simp
  qed
  then show ?thesis by (simp add: md5_STEP_def rotl32_def Let_def ac_simps)
qed

lemma step4_rfc:
  assumes "\<And>j x y z. j < 4 \<Longrightarrow> f x y z = rfc_f (i + j) x y z"
  shows "md5_step4 f (X (rfc_k i), md5_T ! i, rfc_s i) (X (rfc_k (i + 1)), md5_T ! (i + 1), rfc_s (i + 1))
     (X (rfc_k (i + 2)), md5_T ! (i + 2), rfc_s (i + 2)) (X (rfc_k (i + 3)), md5_T ! (i + 3), rfc_s (i + 3)) st
    = fold (rfc_step X) [i, i + 1, i + 2, i + 3] st"
  using assms [of 0] assms [of 1] assms [of 2] assms [of 3]
  by (cases st) (simp add: md5_step4_def rfc_step_def md5_STEP_rfc Let_def)

lemma rfc_f_rounds:
  "i < 16 \<Longrightarrow> md5_F x y z = rfc_f i x y z"
  "16 \<le> i \<Longrightarrow> i < 32 \<Longrightarrow> md5_G x y z = rfc_f i x y z"
  "32 \<le> i \<Longrightarrow> i < 48 \<Longrightarrow> md5_H x y z = rfc_f i x y z"
  "48 \<le> i \<Longrightarrow> md5_I x y z = rfc_f i x y z"
  by (simp_all add: rfc_f_def md5_F_rfc md5_G_rfc md5_H_def md5_I_def)

lemma round1_rfc: "md5_round1 X st = fold (rfc_step X) [0..<16] st"
proof -
  have u: "[0..<16] = [0, 1, 2, 3, 4, 5, 6, 7, 8, 9, 10, 11, 12, 13, 14, 15]" by (simp add: upt_rec)
  note q = step4_rfc [where f = md5_F and X = X, OF rfc_f_rounds(1)]
  show ?thesis
    unfolding md5_round1_def u
    using q [of 0] q [of 4] q [of 8] q [of 12]
    by (simp add: rfc_k_def rfc_s_def md5_T_def numeral_2_eq_2)
qed

lemma round2_rfc: "md5_round2 X st = fold (rfc_step X) [16..<32] st"
proof -
  have u: "[16..<32] = [16, 17, 18, 19, 20, 21, 22, 23, 24, 25, 26, 27, 28, 29, 30, 31]" by (simp add: upt_rec)
  note q = step4_rfc [where f = md5_G and X = X, OF rfc_f_rounds(2)]
  show ?thesis
    unfolding md5_round2_def u
    using q [of 16] q [of 20] q [of 24] q [of 28]
    by (simp add: rfc_k_def rfc_s_def md5_T_def)
qed

lemma round3_rfc: "md5_round3 X st = fold (rfc_step X) [32..<48] st"
proof -
  have u: "[32..<48] = [32, 33, 34, 35, 36, 37, 38, 39, 40, 41, 42, 43, 44, 45, 46, 47]" by (simp add: upt_rec)
  note q = step4_rfc [where f = md5_H and X = X, OF rfc_f_rounds(3)]
  show ?thesis
    unfolding md5_round3_def u
    using q [of 32] q [of 36] q [of 40] q [of 44]
    by (simp add: rfc_k_def rfc_s_def md5_T_def)
qed

lemma round4_rfc: "md5_round4 X st = fold (rfc_step X) [48..<64] st"
proof -
  have u: "[48..<64] = [48, 49, 50, 51, 52, 53, 54, 55, 56, 57, 58, 59, 60, 61, 62, 63]" by (simp add: upt_rec)
  note q = step4_rfc [where f = md5_I and X = X, OF rfc_f_rounds(4)]
  show ?thesis
    unfolding md5_round4_def u
    using q [of 48] q [of 52] q [of 56] q [of 60]
    by (simp add: rfc_k_def rfc_s_def md5_T_def)
qed

lemma md5_block_rfc: "md5_block st blk = rfc_block st blk"
proof -
  have u: "[0..<64] = [0..<16] @ [16..<32] @ [32..<48] @ [48..<64]"
    by (simp add: upt_rec)
  show ?thesis
    by (simp add: md5_block_def rfc_block_def u round1_rfc round2_rfc round3_rfc round4_rfc
        Let_def add.commute del: upt_rec_numeral split: prod.split)
qed

subsection \<open>Blocks\<close>

lemma rfc_blocks_short [simp]: "length bs < 64 \<Longrightarrow> rfc_blocks s bs = s"
  by (simp add: rfc_blocks.simps)

lemma rfc_blocks_Cons:
  "length b = 64 \<Longrightarrow> rfc_blocks s (b @ bs) = rfc_blocks (rfc_block s b) bs"
  by (subst rfc_blocks.simps) simp

lemma rfc_blocks_append:
  assumes "64 dvd length xs"
  shows "rfc_blocks s (xs @ ys) = rfc_blocks (rfc_blocks s xs) ys"
  using assms
proof (induction s xs rule: rfc_blocks.induct)
  case (1 s xs)
  show ?case
  proof (cases "length xs < 64")
    case True
    with 1 have "xs = []" using dvd_imp_le [of 64 "length xs"] by auto
    then show ?thesis by simp
  next
    case False
    with 1 have "64 dvd length (drop 64 xs)" by (simp add: dvd_minus_self)
    with 1 False show ?thesis
      by (subst (1 2) rfc_blocks.simps) simp
  qed
qed

lemma body_blocks:
  assumes "64 * n \<le> length data" "0 < n" "64 * n < 2 ^ 64"
  shows "body st data (of_nat (64 * n)) = Some (rfc_blocks st (take (64 * n) data), drop (64 * n) data)"
  using assms
proof (induction n arbitrary: st data)
  case (Suc n)
  have sz: "of_nat (64 * Suc n) - 64 = (of_nat (64 * n) :: u64)" by simp
  have split: "take (64 * Suc n) data = take 64 data @ take (64 * n) (drop 64 data)"
    by (simp add: take_add [symmetric])
  have step: "rfc_blocks st (take (64 * Suc n) data)
      = rfc_blocks (md5_block st (take 64 data)) (take (64 * n) (drop 64 data))"
    unfolding split using Suc.prems by (simp add: rfc_blocks_Cons md5_block_rfc)
  show ?case
  proof (cases "n = 0")
    case True
    then show ?thesis using Suc.prems step by (simp add: body.simps)
  next
    case False
    then have nz: "(of_nat (64 * n) :: u64) \<noteq> 0"
      using Suc.prems by (simp add: word_of_nat_eq_0_iff nat_dvd_not_less del: of_nat_mult)
    have dr: "drop (64 * n) (drop 64 data) = drop (64 * Suc n) data" by (simp add: add.commute)
    have IH: "body (md5_block st (take 64 data)) (drop 64 data) (of_nat (64 * n))
      = Some (rfc_blocks (md5_block st (take 64 data)) (take (64 * n) (drop 64 data)), drop (64 * n) (drop 64 data))"
      using Suc.prems False by (intro Suc.IH) auto
    show ?thesis
      unfolding step by (subst body.simps) (use Suc.prems nz IH in \<open>simp only: sz Let_def dr, simp\<close>)
  qed
qed simp

subsection \<open>A context represents the bytes fed to it\<close>

definition md5_iv :: md5_state where
  "md5_iv = (0x67452301, 0xefcdab89, 0x98badcfe, 0x10325476)"

definition md5_data :: "MD5_CTX \<Rightarrow> bytes \<Rightarrow> bool" where
  "md5_data ctx msg \<longleftrightarrow>
     length (buffer ctx) = 64 \<and>
     abcd ctx = rfc_blocks md5_iv (take (length msg div 64 * 64) msg) \<and>
     take (length msg mod 64) (buffer ctx) = drop (length msg div 64 * 64) msg"

definition md5_repr :: "MD5_CTX \<Rightarrow> bytes \<Rightarrow> bool" where
  "md5_repr ctx msg \<longleftrightarrow>
     lo ctx = of_nat (length msg mod 2 ^ 29) \<and> hi ctx = of_nat (length msg div 2 ^ 29) \<and>
     md5_data ctx msg"

lemma carry_div:
  fixes a b c :: nat
  assumes "0 < c"
  shows "(a + b) div c = a div c + b div c + (if (a + b) mod c < a mod c then 1 else 0)"
proof -
  define r where "r = a mod c"
  define s where "s = b mod c"
  have bounds: "r < c" "s < c" using assms by (simp_all add: r_def s_def)
  have m: "(a + b) mod c = (r + s) mod c" unfolding r_def s_def by (rule mod_add_eq [symmetric])
  have d: "(a + b) div c = a div c + b div c + (r + s) div c"
    unfolding r_def s_def by (rule div_add1_eq)
  show ?thesis
  proof (cases "r + s < c")
    case True
    then have "(r + s) mod c = r + s" "(r + s) div c = 0" by simp_all
    then show ?thesis unfolding d m by (simp flip: r_def)
  next
    case False
    with bounds have "(r + s) mod c = r + s - c" "(r + s) div c = 1"
      by (simp_all add: le_mod_geq le_div_geq)
    with bounds False show ?thesis unfolding d m by (simp flip: r_def)
  qed
qed

lemma take_bit_word_of_nat: "take_bit k (of_nat n :: 'a::len word) = of_nat (take_bit k n)"
  by transfer (simp add: of_nat_take_bit)

lemma drop_bit_word_of_nat:
  assumes "n < 2 ^ LENGTH('a::len)"
  shows "drop_bit k (of_nat n :: 'a word) = of_nat (drop_bit k n)"
proof -
  have "take_bit LENGTH('a) (int n) = int n"
    using assms by (simp add: take_bit_int_eq_self)
  then show ?thesis by transfer (simp add: of_nat_drop_bit)
qed

lemma ucast_of_nat_less:
  assumes "n < 2 ^ LENGTH('a::len)"
  shows "(ucast (of_nat n :: 'a word) :: 'b::len word) = of_nat n"
  using assms by (simp add: unsigned_of_nat take_bit_nat_eq_self)

lemma md5_lo_count:
  fixes L n :: nat
  assumes "n < 2 ^ 64"
  shows "(ucast ((ucast (of_nat (L mod 2 ^ 29) :: u32) + of_nat n :: u64) AND 0x1fffffff) :: u32)
    = of_nat ((L + n) mod 2 ^ 29)"
proof -
  have m: "(0x1fffffff :: u64) = mask 29" by (simp add: mask_eq_exp_minus_1)
  have small: "x mod 2 ^ 29 < 2 ^ k" if "29 \<le> k" for x k :: nat
    using that by (meson less_le_trans mod_less_divisor one_le_numeral power_increasing zero_less_numeral zero_less_power)
  have "(ucast (of_nat (L mod 2 ^ 29) :: u32) :: u64) = of_nat (L mod 2 ^ 29)"
    by (rule ucast_of_nat_less) (simp add: small)
  then have "(ucast (of_nat (L mod 2 ^ 29) :: u32) + of_nat n :: u64) AND mask 29
      = of_nat ((L mod 2 ^ 29 + n) mod 2 ^ 29)"
    by (simp only: of_nat_add [symmetric] take_bit_eq_mask [symmetric] take_bit_word_of_nat take_bit_nat_def)
  also have "(L mod 2 ^ 29 + n) mod 2 ^ 29 = (L + n) mod 2 ^ 29" by (rule mod_add_left_eq)
  finally show ?thesis
    unfolding m by (simp only: ucast_of_nat_less small len_bit0 len_num1)
qed

lemma md5_count_repr:
  fixes ctx msg
  assumes "lo ctx = of_nat (length msg mod 2 ^ 29)" "hi ctx = of_nat (length msg div 2 ^ 29)"
    and "n < 2 ^ 64"
  shows "lo (MD5_count ctx n) = of_nat ((length msg + n) mod 2 ^ 29)"
    and "hi (MD5_count ctx n) = of_nat ((length msg + n) div 2 ^ 29)"
proof -
  show lo: "lo (MD5_count ctx n) = of_nat ((length msg + n) mod 2 ^ 29)"
    using md5_lo_count [OF assms(3), of "length msg"] assms(1) by (simp add: MD5_count_def Let_def)
  have less: "(of_nat (a mod 2 ^ 29) :: u32) < of_nat (b mod 2 ^ 29) \<longleftrightarrow> a mod 2 ^ 29 < b mod 2 ^ 29" for a b :: nat
  proof -
    have "x mod 2 ^ 29 < 2 ^ 32" for x :: nat
      using mod_less_divisor [of "2 ^ 29" x] by (simp del: mod_less_divisor)
    then show ?thesis by (simp add: word_less_nat_alt unsigned_of_nat take_bit_nat_eq_self)
  qed
  have "(ucast (drop_bit 29 (of_nat n :: u64)) :: u32) = of_nat (n div 2 ^ 29)"
    using assms(3) drop_bit_word_of_nat [where 'a = 64, of n 29]
    by (simp add: drop_bit_nat_def ucast_of_nat_less div_less_mono)
  then show "hi (MD5_count ctx n) = of_nat ((length msg + n) div 2 ^ 29)"
    using md5_lo_count [OF assms(3), of "length msg"] assms(1,2)
    by (simp add: MD5_count_def Let_def less [simplified]
        carry_div [of "2 ^ 29" "length msg" n, simplified])
qed

lemma md5_used: "unat ((of_nat (L mod 2 ^ 29) :: u32) AND 0x3f) = L mod 64"
proof -
  have m: "(0x3f :: u32) = mask 6" by (simp add: mask_eq_exp_minus_1)
  have "(of_nat (L mod 2 ^ 29) :: u32) AND mask 6 = of_nat (L mod 2 ^ 29 mod 2 ^ 6)"
    by (simp only: take_bit_eq_mask [symmetric] take_bit_word_of_nat take_bit_nat_def)
  also have "L mod 2 ^ 29 mod 2 ^ 6 = L mod 64"
    by (simp add: mod_mod_cancel)
  finally show ?thesis
    unfolding m by (simp add: unsigned_of_nat take_bit_nat_eq_self)
qed

lemma MD5_count_sel [simp]:
  "buffer (MD5_count ctx n) = buffer ctx" "abcd (MD5_count ctx n) = abcd ctx"
  by (simp_all add: MD5_count_def Let_def)

lemma u64_round_down:
  assumes "n < 2 ^ 64"
  shows "(of_nat n AND NOT 0x3f :: u64) = of_nat (64 * (n div 64))"
proof -
  have m: "(0x3f :: u64) = mask 6" by (simp add: mask_eq_exp_minus_1)
  have "of_nat n AND NOT (mask 6) = (push_bit 6 (drop_bit 6 (of_nat n)) :: u64)"
    by (rule bit_word_eqI) (auto simp: bit_simps)
  also have "\<dots> = push_bit 6 (of_nat (n div 64))"
    using drop_bit_word_of_nat [where 'a = 64, of n 6] assms by (simp add: drop_bit_nat_def)
  also have "\<dots> = of_nat (64 * (n div 64))"
    by (simp add: push_bit_eq_mult mult.commute)
  finally show ?thesis unfolding m .
qed

text \<open>The tail of \<open>MD5_Update\<close>, entered with an empty buffer.\<close>

lemma MD5_rest_correct:
  assumes "length (buffer ctx) = 64" "length data < 2 ^ 64"
  shows "\<exists>ctx'. MD5_rest ctx data = Some ctx' \<and> lo ctx' = lo ctx \<and> hi ctx' = hi ctx \<and>
     length (buffer ctx') = 64 \<and>
     abcd ctx' = rfc_blocks (abcd ctx) (take (length data div 64 * 64) data) \<and>
     take (length data mod 64) (buffer ctx') = drop (length data div 64 * 64) data"
proof (cases "length data \<ge> 64")
  case True
  define q where "q = length data div 64"
  have q: "64 * q \<le> length data" "0 < q" "64 * q < 2 ^ 64"
    using True assms(2) by (auto simp: q_def div_greater_zero_iff mult.commute
        intro: le_less_trans [OF div_times_less_eq_dividend])
  have rem: "length data - 64 * q = length data mod 64"
    by (simp add: q_def minus_mult_div_eq_mod)
  have b: "body (abcd ctx) data (of_nat (length data) AND NOT 0x3f)
      = Some (rfc_blocks (abcd ctx) (take (64 * q) data), drop (64 * q) data)"
    unfolding u64_round_down [OF assms(2)] q_def [symmetric] by (rule body_blocks [OF q])
  have "length data mod 64 \<le> 64" by (rule less_imp_le) simp
  then show ?thesis
    using True assms(1) rem unfolding MD5_rest_def Let_def b
    by (simp add: memcpy_def mult.commute [of _ 64] min_def flip: q_def)
next
  case False
  then show ?thesis using assms by (simp add: MD5_rest_def memcpy_def Let_def)
qed

lemma MD5_rest_aligned:
  assumes "length (buffer ctx) = 64" "length data < 2 ^ 64"
    and "64 dvd length msg" "abcd ctx = rfc_blocks md5_iv msg"
  shows "\<exists>ctx'. MD5_rest ctx data = Some ctx' \<and> lo ctx' = lo ctx \<and> hi ctx' = hi ctx \<and>
     md5_data ctx' (msg @ data)"
proof -
  obtain k where k: "length msg = 64 * k" using assms(3) by blast
  have d: "(length msg + length data) div 64 * 64 = length msg + length data div 64 * 64"
    by (simp add: k)
  have m: "(length msg + length data) mod 64 = length data mod 64"
    by (simp add: k)
  show ?thesis
    using MD5_rest_correct [OF assms(1,2)] assms(3,4)
    by (auto simp: md5_data_def d m rfc_blocks_append)
qed

lemma MD5_Update_data:
  assumes "md5_data ctx msg" "used = length msg mod 64" "unat (lo ctx AND 0x3f) = used"
    and "length data < 2 ^ 64"
  shows "\<exists>ctx'. MD5_Update ctx data = Some ctx' \<and> lo ctx' = lo (MD5_count ctx (length data)) \<and>
     hi ctx' = hi (MD5_count ctx (length data)) \<and> md5_data ctx' (msg @ data)"
proof -
  define L where "L = length msg"
  define free where "free = 64 - used"
  have u: "used < 64" "L = L div 64 * 64 + used" using assms(2) by (simp_all add: L_def)
  note ctx = assms(1) [unfolded md5_data_def]
  have dropL: "length (drop (L div 64 * 64) msg) = used"
    by (simp add: L_def assms(2) minus_div_mult_eq_mod)
  consider "used = 0" | "used \<noteq> 0" "length data < free" | "used \<noteq> 0" "free \<le> length data" by fastforce
  then show ?thesis
  proof cases
    case 1
    then have "64 dvd length msg" using assms(2) by auto
    moreover from this have "take (length msg div 64 * 64) msg = msg" by simp
    ultimately show ?thesis
      using MD5_rest_aligned [of "MD5_count ctx (length data)" data msg] ctx 1 assms(3,4)
      by (simp add: MD5_Update_def Let_def)
  next
    case 2
    have n: "used + length data < 64" using 2 by (simp add: free_def)
    have e: "L + length data = L div 64 * 64 + (used + length data)" using u(2) by simp
    have d: "(L + length data) div 64 = L div 64" "(L + length data) mod 64 = used + length data"
      using n by (subst e, simp)+
    have "L div 64 * 64 \<le> length msg" using L_def by simp
    with 2 d n ctx assms(2,3) dropL show ?thesis
      by (auto simp: MD5_Update_def Let_def memcpy_def md5_data_def free_def L_def)
  next
    case 3
    let ?ctx = "MD5_count ctx (length data)" and ?msg = "msg @ take free data"
    define buf where "buf = take used (buffer ctx) @ take free data"
    have cp: "memcpy (buffer ?ctx) used (take free data) = Some buf" "length buf = 64"
      using 3 ctx u by (auto simp: memcpy_def buf_def free_def)
    have "length ?msg = L + free" using 3 by (simp add: L_def)
    also have "\<dots> = (L div 64 + 1) * 64" using u by (simp add: free_def)
    finally have al: "64 dvd length ?msg" by simp
    have "abcd ctx = rfc_blocks md5_iv (take (L div 64 * 64) msg)" "64 dvd length (take (L div 64 * 64) msg)"
      using ctx by (simp_all add: L_def)
    moreover have "buf = drop (L div 64 * 64) msg @ take free data"
      using ctx assms(2) by (simp add: buf_def L_def)
    ultimately have "rfc_blocks (abcd ctx) buf = rfc_blocks md5_iv ?msg"
      by (simp only: rfc_blocks_append [symmetric] append_assoc [symmetric] append_take_drop_id)
    then have blk: "body (abcd ctx) buf 64 = Some (rfc_blocks md5_iv ?msg, [])"
      using body_blocks [of 1 buf "abcd ctx"] cp(2) by simp
    have "\<exists>ctx'. MD5_rest (?ctx\<lparr>buffer := buf, abcd := rfc_blocks md5_iv ?msg\<rparr>) (drop free data) = Some ctx' \<and>
       lo ctx' = lo ?ctx \<and> hi ctx' = hi ?ctx \<and> md5_data ctx' (?msg @ drop free data)"
      using MD5_rest_aligned [of "?ctx\<lparr>buffer := buf, abcd := rfc_blocks md5_iv ?msg\<rparr>" "drop free data" ?msg]
        al cp(2) assms(4) by simp
    then show ?thesis
      using 3 cp(1) blk assms(3) by (simp add: MD5_Update_def Let_def free_def)
  qed
qed

lemma MD5_Init_repr: "md5_repr MD5_Init []"
  by (simp add: md5_repr_def md5_data_def MD5_Init_def md5_iv_def)

lemma MD5_Update_repr_aux:
  assumes "md5_repr ctx msg" "length data < 2 ^ 64"
  shows "\<exists>ctx'. MD5_Update ctx data = Some ctx' \<and> md5_repr ctx' (msg @ data)"
proof -
  have lo: "lo ctx = of_nat (length msg mod 2 ^ 29)" and hi: "hi ctx = of_nat (length msg div 2 ^ 29)"
    and md: "md5_data ctx msg"
    using assms(1) by (simp_all add: md5_repr_def)
  have "unat (lo ctx AND 0x3f) = length msg mod 64" unfolding lo by (rule md5_used)
  from MD5_Update_data [OF md refl this assms(2)] md5_count_repr [OF lo hi assms(2)]
  show ?thesis by (auto simp: md5_repr_def)
qed

subsection \<open>Finalisation\<close>

lemma body_one: "length buf = 64 \<Longrightarrow> body st buf 64 = Some (rfc_block st buf, [])"
  using body_blocks [of 1 buf st] rfc_blocks_Cons [of buf st "[]"] by simp

lemma char_of_u32_drop: "char_of_u32 (drop_bit k w) = char_of (unat w div 2 ^ k)"
proof -
  have "take_bit 32 (unat w) = unat w" using unat_less_pow [of w] by (simp add: take_bit_nat_eq_self)
  then show ?thesis by (simp add: char_of_u32_def unsigned_drop_bit_eq drop_bit_nat_def)
qed

lemma upt_4: "[0..<4] = [0, 1, 2, 3]" and upt_8: "[0..<8] = [0, 1, 2, 3, 4, 5, 6, 7]"
  by (simp_all add: upt_rec)

lemma u32_bytes_le: "u32_bytes w = le_bytes 4 (unat w)"
proof -
  have "char_of_u32 w = char_of (unat w)" by (simp only: char_of_u32_def)
  moreover have "2 ^ 8 = (256 :: nat) ^ 1" "2 ^ 16 = (256 :: nat) ^ 2" "2 ^ 24 = (256 :: nat) ^ 3" by simp_all
  ultimately show ?thesis
    by (simp only: u32_bytes_def le_bytes_def upt_4 list.map char_of_u32_drop power_0 div_by_1)
qed

lemma length_le_bytes [simp]: "length (le_bytes n v) = n"
  by (simp add: le_bytes_def)

lemma mod_mult_div_nat: "0 < a \<Longrightarrow> m mod (a * b) div a = m div a mod (b :: nat)"
  by (simp add: mod_mult2_eq)

lemma char_of_cong: "x mod 256 = y mod 256 \<Longrightarrow> (char_of x :: char) = char_of (y :: nat)"
  by (metis char_of_char of_char_of)

lemma le_bytes_mod: "le_bytes 4 (v mod 2 ^ 32) = le_bytes 4 v"
proof -
  have "(char_of (v mod 2 ^ 32 div 256 ^ i) :: char) = char_of (v div 256 ^ i)" if "i < 4" for i
  proof (rule char_of_cong)
    have e: "(2 :: nat) ^ 32 = 256 ^ i * 256 ^ (4 - i)"
      using that by (simp only: power_add [symmetric]) simp
    have "v mod 2 ^ 32 div 256 ^ i = v div 256 ^ i mod 256 ^ (4 - i)"
      unfolding e by (rule mod_mult_div_nat) simp
    moreover have "(256 :: nat) dvd 256 ^ (4 - i)" using that by (simp add: dvd_power)
    ultimately show "v mod 2 ^ 32 div 256 ^ i mod 256 = v div 256 ^ i mod 256"
      by (simp only: mod_mod_cancel)
  qed
  then show ?thesis by (simp add: le_bytes_def del: upt_rec_numeral)
qed

lemma le_bytes_8: "le_bytes 8 v = le_bytes 4 v @ le_bytes 4 (v div 2 ^ 32)"
  by (simp add: le_bytes_def upt_4 upt_8 div_mult2_eq [symmetric] del: upt_rec_numeral)

lemma md5_length_bytes:
  "u32_bytes (push_bit 3 (of_nat (L mod 2 ^ 29))) @ u32_bytes (of_nat (L div 2 ^ 29)) = le_bytes 8 (8 * L)"
proof -
  have "(8 * L) mod 2 ^ 32 = 8 * (L mod 2 ^ 29)" by (simp add: mult_mod_right)
  moreover have "unat (push_bit 3 (of_nat (L mod 2 ^ 29)) :: u32) = 8 * (L mod 2 ^ 29)"
  proof -
    have "8 * (L mod 2 ^ 29) < 2 ^ 32" using mod_less_divisor [of "2 ^ 29" L] by simp
    moreover have "push_bit 3 (of_nat (L mod 2 ^ 29)) = (of_nat (8 * (L mod 2 ^ 29)) :: u32)"
      by (simp add: push_bit_eq_mult mult.commute)
    ultimately show ?thesis by (simp add: unsigned_of_nat take_bit_nat_eq_self del: of_nat_mult)
  qed
  ultimately have lo: "u32_bytes (push_bit 3 (of_nat (L mod 2 ^ 29))) = le_bytes 4 (8 * L)"
    by (metis u32_bytes_le le_bytes_mod)
  have "unat (of_nat (L div 2 ^ 29) :: u32) = L div 2 ^ 29 mod 2 ^ 32"
    by (simp add: unsigned_of_nat take_bit_nat_def)
  then have hi: "u32_bytes (of_nat (L div 2 ^ 29)) = le_bytes 4 (8 * L div 2 ^ 32)"
    by (simp add: u32_bytes_le le_bytes_mod [simplified])
  show ?thesis unfolding lo hi le_bytes_8 ..
qed

definition md5_digest :: "md5_state \<Rightarrow> bytes" where
  "md5_digest s = (case s of (a, b, c, d) \<Rightarrow>
     le_bytes 4 (unat a) @ le_bytes 4 (unat b) @ le_bytes 4 (unat c) @ le_bytes 4 (unat d))"

lemma MD5_tail_correct:
  assumes "length (buffer ctx) = 64" "used \<le> 56"
    and "lo ctx = of_nat (L mod 2 ^ 29)" "hi ctx = of_nat (L div 2 ^ 29)"
  shows "MD5_tail ctx used = Some (md5_digest (rfc_block (abcd ctx)
     (take used (buffer ctx) @ replicate (56 - used) (CHR 0x00) @ le_bytes 8 (8 * L))))"
proof -
  let ?buf = "take used (buffer ctx) @ replicate (56 - used) (CHR 0x00) @ drop 56 (buffer ctx)"
  have cp1: "memcpy (buffer ctx) used (replicate (64 - used - 8) (CHR 0x00)) = Some ?buf"
    using assms(1,2) by (simp add: memcpy_def)
  have cp2: "memcpy ?buf 56 (u32_bytes (push_bit 3 (lo ctx)) @ u32_bytes (hi ctx))
      = Some (take used (buffer ctx) @ replicate (56 - used) (CHR 0x00) @ le_bytes 8 (8 * L))"
    unfolding assms(3,4) md5_length_bytes using assms(1,2) by (simp add: memcpy_def)
  show ?thesis
    unfolding MD5_tail_def cp1 option.case cp2
    using assms(1,2) by (simp add: body_one md5_digest_def u32_bytes_le split: prod.split)
qed

lemma MD5_Final_correct:
  assumes "md5_repr ctx msg"
  shows "MD5_Final ctx = Some (md5_ref msg)"
proof -
  define L u where "L = length msg" and "u = L mod 64"
  define full rest where "full = take (L div 64 * 64) msg" and "rest = drop (L div 64 * 64) msg"
  have lo: "lo ctx = of_nat (L mod 2 ^ 29)" and hi: "hi ctx = of_nat (L div 2 ^ 29)"
    and len: "length (buffer ctx) = 64" and st: "abcd ctx = rfc_blocks md5_iv full"
    and buf: "take u (buffer ctx) = rest" and u: "u < 64" "length rest = u"
    using assms by (auto simp: md5_repr_def md5_data_def L_def u_def full_def rest_def minus_div_mult_eq_mod)
  have used: "unat (lo ctx AND 0x3f) = u" unfolding lo u_def by (rule md5_used)
  have cp: "memcpy (buffer ctx) u [CHR 0x80] = Some (rest @ CHR 0x80 # drop (u + 1) (buffer ctx))"
    using len u buf by (simp add: memcpy_def)
  have al: "64 dvd length full" by (simp add: full_def L_def)
  have "msg = full @ rest" by (simp add: full_def rest_def)
  then have ref: "md5_ref msg = md5_digest (rfc_blocks (abcd ctx) (rest @ rfc_pad L))"
    by (simp add: md5_ref_def md5_digest_def st rfc_blocks_append [OF al] L_def md5_iv_def)
  show ?thesis
  proof (cases "u < 56")
    case True
    have e: "119 - L mod 64 = 64 + (55 - u)" using True unfolding u_def by simp
    have "(119 - L mod 64) mod 64 = 55 - u" unfolding e by simp
    then have pad: "rfc_pad L = CHR 0x80 # replicate (55 - u) (CHR 0x00) @ le_bytes 8 (8 * L)"
      by (simp add: rfc_pad_def)
    have "rfc_blocks (abcd ctx) (rest @ rfc_pad L) = rfc_block (abcd ctx) (rest @ rfc_pad L)"
      using rfc_blocks_Cons [of "rest @ rfc_pad L" "abcd ctx" "[]"] True u by (simp add: pad)
    moreover have "MD5_tail (ctx\<lparr>buffer := rest @ CHR 0x80 # drop (u + 1) (buffer ctx)\<rparr>) (u + 1)
        = Some (md5_digest (rfc_block (abcd ctx) (rest @ rfc_pad L)))"
      using MD5_tail_correct [of "ctx\<lparr>buffer := rest @ CHR 0x80 # drop (u + 1) (buffer ctx)\<rparr>" "u + 1" L]
        True u len lo hi by (simp add: pad)
    moreover have "\<not> 64 - (u + 1) < 8" using True by arith
    ultimately show ?thesis
      unfolding MD5_Final_def used cp option.case Let_def ref by simp
  next
    case False
    have pad: "rfc_pad L = (CHR 0x80 # replicate (63 - u) (CHR 0x00)) @ replicate 56 (CHR 0x00) @ le_bytes 8 (8 * L)"
    proof -
      have "(119 - L mod 64) mod 64 = (63 - u) + 56" using False u(1) unfolding u_def by simp
      then show ?thesis by (simp add: rfc_pad_def replicate_add)
    qed
    let ?b1 = "rest @ CHR 0x80 # replicate (63 - u) (CHR 0x00)"
      and ?b2 = "replicate 56 (CHR 0x00) @ le_bytes 8 (8 * L)"
    have cp2: "memcpy (rest @ CHR 0x80 # drop (u + 1) (buffer ctx)) (u + 1) (replicate (63 - u) (CHR 0x00))
        = Some ?b1"
      using u len by (simp add: memcpy_def)
    have "rfc_blocks (abcd ctx) (rest @ rfc_pad L) = rfc_block (rfc_block (abcd ctx) ?b1) ?b2"
      using rfc_blocks_Cons [of ?b1 "abcd ctx" ?b2] rfc_blocks_Cons [of ?b2 "rfc_block (abcd ctx) ?b1" "[]"]
        False u by (simp add: pad)
    moreover have "MD5_tail (ctx\<lparr>buffer := ?b1, abcd := rfc_block (abcd ctx) ?b1\<rparr>) 0
        = Some (md5_digest (rfc_block (rfc_block (abcd ctx) ?b1) ?b2))"
      using MD5_tail_correct [of "ctx\<lparr>buffer := ?b1, abcd := rfc_block (abcd ctx) ?b1\<rparr>" 0 L]
        False u len lo hi by simp
    moreover have "64 - (u + 1) < 8" using False by arith
    ultimately show ?thesis
      unfolding MD5_Final_def used cp option.case Let_def ref using u cp2 by (simp add: body_one)
  qed
qed

lemma md5_signature_ref: "length key < 2 ^ 64 \<Longrightarrow> md5_signature key = Some (md5_ref key)"
  using MD5_Update_repr_aux [OF MD5_Init_repr, of key]
  by (auto simp: md5_signature_def MD5_Final_correct)

text \<open>
  C28: feeding a context is incremental.  Whatever the chunking so far, a context that
  represents \<open>msg\<close> represents \<open>msg @ data\<close> after \<^const>\<open>MD5_Update\<close>: the call never reads
  or writes outside its buffers, the 61-bit byte count carries correctly from \<open>lo\<close> to
  \<open>hi\<close>, and the bytes kept in the buffer are the unprocessed tail.
\<close>
theorem MD5_Update_extends:
  assumes "md5_repr ctx msg" "length data < 2 ^ 64"
  shows "\<exists>ctx'. MD5_Update ctx data = Some ctx' \<and> md5_repr ctx' (msg @ data)"
  by (rule MD5_Update_repr_aux [OF assms])

theorem MD5_Update_extends_witness:
  "\<exists>ctx'. MD5_Update MD5_Init ''foobar'' = Some ctx' \<and> md5_repr ctx' ([] @ ''foobar'')"
  by (rule MD5_Update_extends [OF MD5_Init_repr]) simp

text \<open>
  C27: \<^const>\<open>md5_signature\<close> returns the RFC 1321 digest of the key: the unrolled rounds with
  the optimised \<open>F\<close> and \<open>G\<close> are the 64 table-driven steps, and the two-branch padding of
  \<open>MD5_Final\<close> is the padding of the RFC for every key length.
\<close>
theorem md5_signature_is_rfc1321:
  assumes "length key < 2 ^ 64"
  shows "md5_signature key = Some (md5_ref key)"
  by (rule md5_signature_ref [OF assms])

theorem md5_signature_is_rfc1321_witness: "md5_signature ''abc'' = Some (md5_ref ''abc'')"
  by (rule md5_signature_is_rfc1321) simp

subsection \<open>Words of the digest\<close>

lemma length_md5_ref [simp]: "length (md5_ref key) = 16"
  by (simp add: md5_ref_def split: prod.split)

lemma uchar32_char_of_u32: "uchar32 (char_of_u32 w) = take_bit 8 w"
proof -
  have "unat (uchar32 (char_of_u32 w)) = unat (take_bit 8 w)"
    by (simp add: char_of_u32_def unsigned_take_bit_eq take_bit_nat_def)
  then show ?thesis by (simp only: unsigned_word_eqI)
qed

definition digest_word :: "bytes \<Rightarrow> nat \<Rightarrow> u32" where
  "digest_word results alignment =
     push_bit 24 (uchar32 (results ! (3 + alignment * 4)) AND 0xff)
     OR push_bit 16 (uchar32 (results ! (2 + alignment * 4)) AND 0xff)
     OR push_bit 8 (uchar32 (results ! (1 + alignment * 4)) AND 0xff)
     OR (uchar32 (results ! (0 + alignment * 4)) AND 0xff)"

lemma u32_bytes_word:
  "push_bit 24 (uchar32 (u32_bytes w ! 3) AND 0xff) OR push_bit 16 (uchar32 (u32_bytes w ! 2) AND 0xff)
   OR push_bit 8 (uchar32 (u32_bytes w ! 1) AND 0xff) OR (uchar32 (u32_bytes w ! 0) AND 0xff) = w"
proof -
  have m: "(0xff :: u32) = mask 8" by (simp add: mask_eq_exp_minus_1)
  show ?thesis
    unfolding m u32_bytes_def
  proof (rule bit_word_eqI)
    fix n assume "n < LENGTH(32)"
    then consider "n < 8" | "8 \<le> n" "n < 16" | "16 \<le> n" "n < 24" | "24 \<le> n" "n < 32" by fastforce
    then show "bit (push_bit 24 (uchar32 ([char_of_u32 w, char_of_u32 (drop_bit 8 w), char_of_u32 (drop_bit 16 w),
          char_of_u32 (drop_bit 24 w)] ! 3) AND mask 8) OR
        push_bit 16 (uchar32 ([char_of_u32 w, char_of_u32 (drop_bit 8 w), char_of_u32 (drop_bit 16 w),
          char_of_u32 (drop_bit 24 w)] ! 2) AND mask 8) OR
        push_bit 8 (uchar32 ([char_of_u32 w, char_of_u32 (drop_bit 8 w), char_of_u32 (drop_bit 16 w),
          char_of_u32 (drop_bit 24 w)] ! 1) AND mask 8) OR
        uchar32 ([char_of_u32 w, char_of_u32 (drop_bit 8 w), char_of_u32 (drop_bit 16 w),
          char_of_u32 (drop_bit 24 w)] ! 0) AND mask 8) n = bit w n"
      by cases (simp_all add: uchar32_char_of_u32 bit_simps, auto)
  qed
qed

lemma length_u32_bytes [simp]: "length (u32_bytes w) = 4"
  by (simp add: u32_bytes_def)

lemma digest_word_registers:
  assumes "k < 4"
  shows "digest_word (u32_bytes a @ u32_bytes b @ u32_bytes c @ u32_bytes d) k = [a, b, c, d] ! k"
proof -
  have k: "k = 0 \<or> k = 1 \<or> k = 2 \<or> k = 3" using assms by arith
  have nth: "(u32_bytes a @ u32_bytes b @ u32_bytes c @ u32_bytes d) ! (j + k * 4)
      = u32_bytes ([a, b, c, d] ! k) ! j" if "j < 4" for j
    using k that by (elim disjE) (simp_all add: nth_append)
  have l: "3 < (4::nat)" "2 < (4::nat)" "1 < (4::nat)" "0 < (4::nat)" by simp_all
  show ?thesis
    by (simp only: digest_word_def nth [OF l(1)] nth [OF l(2)] nth [OF l(3)] nth [OF l(4)] u32_bytes_word)
qed

text \<open>
  C29: the 32-bit values which ketama assembles from the digest bytes are the four registers
  of the final RFC 1321 state, in order, and \<^const>\<open>hash_md5\<close> is the first of them.
\<close>
theorem digest_words_are_registers:
  assumes "length key < 2 ^ 64" "k < 4"
    and "rfc_blocks md5_iv (key @ rfc_pad (length key)) = (a, b, c, d)"
  shows "(\<exists>sig. md5_signature key = Some sig \<and> digest_word sig k = [a, b, c, d] ! k) \<and> hash_md5 key = Some a"
proof -
  have "md5_signature key = Some (u32_bytes a @ u32_bytes b @ u32_bytes c @ u32_bytes d)"
    using assms(3) by (simp add: md5_signature_ref [OF assms(1)] md5_ref_def md5_iv_def u32_bytes_le)
  moreover from this have "hash_md5 key = Some (digest_word (u32_bytes a @ u32_bytes b @ u32_bytes c @ u32_bytes d) 0)"
    by (simp only: hash_md5_def digest_word_def option.case mult_0 add_0_right)
  ultimately show ?thesis using digest_word_registers [OF assms(2)] digest_word_registers [of 0] by simp
qed

theorem digest_words_are_registers_witness:
  "\<exists>a b c d. (\<exists>sig. md5_signature ''k'' = Some sig \<and> digest_word sig 2 = [a, b, c, d] ! 2) \<and> hash_md5 ''k'' = Some a"
proof -
  obtain a b c d where "rfc_blocks md5_iv (''k'' @ rfc_pad (length ''k'')) = (a, b, c, d)"
    by (metis prod.collapse)
  from digest_words_are_registers [OF _ _ this, of 2] show ?thesis by fastforce
qed

end
