(* ===== verification/Float_Round.thy ===== *)
theory Float_Round
  imports Complex_Main "HOL-Library.Log_Nat"
begin

text \<open>
  Binary floating point as the code uses it.  \<open>nc_ketama.c\<close> computes the share of a
  server with single-precision operations and one double-precision addition, all on
  non-negative values inside the normal range.  A machine number is its rational value;
  each operation is the exact one followed by rounding to the nearest representable
  value, ties to even (the IEEE 754 default mode).  The lemmas give the relative error
  of a rounding and its exactness on small integers.
\<close>

subsection \<open>Rounding\<close>

definition rne :: "rat \<Rightarrow> int" where
  "rne x = (let f = \<lfloor>x\<rfloor>; d = x - of_int f in
     if d < 1 / 2 then f else if d > 1 / 2 then f + 1 else if even f then f else f + 1)"

text \<open>The binary exponent: \<open>2 powi rlog2 x \<le> x < 2 powi (rlog2 x + 1)\<close>.\<close>

definition rlog2 :: "rat \<Rightarrow> int" where
  "rlog2 x = (case quotient_of x of (n, d) \<Rightarrow>
     let a = bitlen n - bitlen d in if 2 powi a \<le> x then a else a - 1)"

definition fl_round :: "nat \<Rightarrow> rat \<Rightarrow> rat" where
  "fl_round p x = (if x = 0 then 0
     else let k = int p - 1 - rlog2 x in of_int (rne (x * 2 powi k)) / 2 powi k)"

definition fl32 :: "rat \<Rightarrow> rat" where "fl32 = fl_round 24"

definition fl64 :: "rat \<Rightarrow> rat" where "fl64 = fl_round 53"

subsection \<open>Error bounds\<close>

lemma rne_bounds: "of_int (rne x) \<le> x + 1 / 2" "x - 1 / 2 \<le> of_int (rne x)"
proof -
  have f: "of_int \<lfloor>x\<rfloor> \<le> x" "x < of_int \<lfloor>x\<rfloor> + 1" by linarith+
  show "of_int (rne x) \<le> x + 1 / 2" "x - 1 / 2 \<le> of_int (rne x)"
    unfolding rne_def Let_def using f by (simp_all split: if_split) linarith+
qed

lemma rne_of_int [simp]: "rne (of_int i) = i"
  by (simp add: rne_def)

lemma bitlen_powi:
  assumes "0 < m"
  shows "(2 :: rat) powi (bitlen m - 1) \<le> of_int m" "of_int m < (2 :: rat) powi bitlen m"
proof -
  have b: "1 \<le> bitlen m" using assms by (auto simp: bitlen_alt_def)
  have "2 ^ nat (bitlen m - 1) \<le> m" "m < 2 ^ nat (bitlen m)"
    using bitlen_bounds [OF assms] by simp_all
  then have "(of_int (2 ^ nat (bitlen m - 1)) :: rat) \<le> of_int m"
    "(of_int m :: rat) < of_int (2 ^ nat (bitlen m))"
    by (simp_all only: of_int_le_iff of_int_less_iff)
  with b show "(2 :: rat) powi (bitlen m - 1) \<le> of_int m" "of_int m < (2 :: rat) powi bitlen m"
    by (simp_all add: power_int_def)
qed

lemma powi_pos [simp]: "0 < (2 :: rat) powi k"
  by (simp add: power_int_def)

lemma rlog2_bounds:
  assumes "0 < x"
  shows "2 powi rlog2 x \<le> x" "x < 2 powi (rlog2 x + 1)"
proof -
  obtain n d where q: "quotient_of x = (n, d)" by (cases "quotient_of x")
  have d: "0 < d" and x: "x = of_int n / of_int d"
    using q by (simp_all add: quotient_of_denom_pos quotient_of_div)
  have n: "0 < n" using assms d x by (simp add: zero_less_divide_iff)
  let ?a = "bitlen n - bitlen d"
  have "2 powi (?a - 1) * (of_int d :: rat) \<le> 2 powi (?a - 1) * 2 powi bitlen d"
    using bitlen_powi(2) [OF d] by (intro mult_left_mono) auto
  also have "\<dots> = (2 :: rat) powi (bitlen n - 1)" by (simp flip: power_int_add)
  also have "\<dots> \<le> of_int n" by (rule bitlen_powi(1) [OF n])
  finally have lo: "2 powi (?a - 1) \<le> x" using d by (simp add: x pos_le_divide_eq)
  have "(of_int n :: rat) < 2 powi bitlen n" by (rule bitlen_powi(2) [OF n])
  also have "\<dots> = 2 powi (?a + 1) * 2 powi (bitlen d - 1)" by (simp flip: power_int_add)
  also have "\<dots> \<le> 2 powi (?a + 1) * of_int d"
    using bitlen_powi(1) [OF d] by (intro mult_left_mono) auto
  finally have hi: "x < 2 powi (?a + 1)" using d by (simp add: x pos_divide_less_eq)
  show "2 powi rlog2 x \<le> x" "x < 2 powi (rlog2 x + 1)"
    using lo hi by (auto simp: rlog2_def q Let_def)
qed

lemma fl_round_err:
  assumes "0 \<le> x"
  shows "fl_round p x \<le> x * (1 + 1 / 2 ^ p)" "x * (1 - 1 / 2 ^ p) \<le> fl_round p x"
proof -
  have "fl_round p x \<le> x * (1 + 1 / 2 ^ p) \<and> x * (1 - 1 / 2 ^ p) \<le> fl_round p x"
  proof (cases "x = 0")
    case False
    define k where "k = int p - 1 - rlog2 x"
    define y where "y = x * 2 powi k"
    have "2 powi (int p - 1) = 2 powi rlog2 x * (2 :: rat) powi k"
      by (simp add: k_def flip: power_int_add)
    also have "\<dots> \<le> y" unfolding y_def
      using rlog2_bounds(1) [of x] False assms by (intro mult_right_mono) auto
    finally have "(2 :: rat) ^ p / 2 \<le> y" by (simp add: power_int_diff)
    then have half: "1 / 2 \<le> y / 2 ^ p" by (simp add: field_simps)
    have r: "of_int (rne y) \<le> y + y / 2 ^ p" "y - y / 2 ^ p \<le> of_int (rne y)"
      using rne_bounds [of y] half by linarith+
    have fl: "fl_round p x = of_int (rne y) / 2 powi k" and x: "x = y / 2 powi k"
      using False by (simp_all add: fl_round_def k_def y_def Let_def)
    have "x * (1 + 1 / 2 ^ p) = (y + y / 2 ^ p) / 2 powi k" "x * (1 - 1 / 2 ^ p) = (y - y / 2 ^ p) / 2 powi k"
      by (simp_all add: x field_simps)
    with r show ?thesis unfolding fl by (simp add: divide_right_mono less_imp_le)
  qed (simp add: fl_round_def)
  then show "fl_round p x \<le> x * (1 + 1 / 2 ^ p)" "x * (1 - 1 / 2 ^ p) \<le> fl_round p x"
    by simp_all
qed

lemma fl_round_int:
  assumes "0 \<le> i" "i < 2 ^ p"
  shows "fl_round p (of_int i) = of_int i"
proof (cases "i = 0")
  case False
  have "(2 :: rat) powi rlog2 (of_int i) \<le> of_int i" using False assms by (intro rlog2_bounds) simp
  also have "\<dots> < of_int (2 ^ p)" using assms by (simp only: of_int_less_iff)
  finally have "(2 :: rat) powi rlog2 (of_int i) < 2 powi int p" by simp
  then have "rlog2 (of_int i) < int p"
    by (meson not_less one_le_numeral power_int_increasing zero_le_numeral)
  then obtain k where k: "int p - 1 - rlog2 (of_int i) = int k"
    by (metis diff_ge_0_iff_ge zle_diff1_eq zero_le_imp_eq_int le_diff_eq add_0)
  have e: "of_int i * (2 :: rat) powi int k = of_int (i * 2 ^ k)" by simp
  show ?thesis using False unfolding fl_round_def k Let_def e rne_of_int by simp
qed (simp add: fl_round_def)

lemma fl_round_nonneg: "0 \<le> x \<Longrightarrow> 0 \<le> fl_round p x"
proof -
  assume x: "0 \<le> x"
  have "0 \<le> x * (1 - 1 / 2 ^ p)" using x by (intro mult_nonneg_nonneg) (simp_all add: field_simps)
  also have "\<dots> \<le> fl_round p x" by (rule fl_round_err(2) [OF x])
  finally show ?thesis .
qed

end
