(* ===== verification/Distribution.thy ===== *)
theory Distribution
  imports Hash_MD5 Float_Round
begin

text \<open>
  Servers, pools and the three distribution strategies: \<^verbatim>\<open>nc_server.h\<close> (records),
  \<^verbatim>\<open>hashkit/nc_ketama.c\<close>, \<^verbatim>\<open>hashkit/nc_modula.c\<close> and \<^verbatim>\<open>hashkit/nc_random.c\<close>.  The continuum is
  the list of allocated slots, empty for the null pointer; writing outside it and a failed
  assertion are \<open>None\<close>.  The current time and the outcome of \<open>nc_realloc\<close> are parameters of an update.  The lemmas show what
  a rebuild leaves behind: only live servers, in a sorted prefix that fits the
  allocation, and what a dispatch on it returns.
\<close>

subsection \<open>Records\<close>

record cpoint =
  index :: nat
  cvalue :: u32

record server =
  pname :: bytes
  sname :: bytes
  weight :: u32
  ns_conn_q :: u32
  s_conn_q :: "nat list"
  next_retry :: int
  failure_count :: u32

datatype dist_type = DIST_KETAMA | DIST_MODULA | DIST_RANDOM

record server_pool =
  servers :: "server list"
  ncontinuum :: nat
  nserver_continuum :: nat
  continuum :: "cpoint list"
  nlive_server :: nat
  next_rebuild :: int
  dist_type :: dist_type
  key_hash :: "bytes \<Rightarrow> u32"
  hash_tag :: bytes
  server_connections :: u32
  server_retry_timeout :: int
  server_failure_limit :: u32
  auto_eject_hosts :: bool
  nc_conn_q :: u32
  c_conn_q :: "nat list"
  client_connections :: u32
  pool_timeout :: int
  preconnect :: bool

subsection \<open>Counting live servers\<close>

text \<open>One iteration of the first loop that the three update functions share.\<close>

definition live_step ::
  "bool \<Rightarrow> int \<Rightarrow> server list \<times> nat \<times> u32 \<times> int \<Rightarrow> server \<Rightarrow> server list \<times> nat \<times> u32 \<times> int" where
  "live_step auto now acc s = (case acc of (out, nlive, total_weight, rebuild) \<Rightarrow>
     let (s', nlive', rebuild') =
           (if auto then
              if next_retry s \<le> now then (s\<lparr>next_retry := 0\<rparr>, nlive + 1, rebuild)
              else if rebuild = 0 \<or> next_retry s < rebuild then (s, nlive, next_retry s)
              else (s, nlive, rebuild)
            else (s, nlive + 1, rebuild));
         total_weight' = (if \<not> auto \<or> next_retry s' \<le> now then total_weight + weight s' else total_weight)
     in (out @ [s'], nlive', total_weight', rebuild'))"

definition live_scan :: "bool \<Rightarrow> int \<Rightarrow> server list \<Rightarrow> server list \<times> nat \<times> u32 \<times> int" where
  "live_scan auto now ss = foldl (live_step auto now) ([], 0, 0, 0) ss"

definition skip_server :: "bool \<Rightarrow> int \<Rightarrow> server \<Rightarrow> bool" where
  "skip_server auto now s \<longleftrightarrow> auto \<and> next_retry s > now"

text \<open>Slots obtained by \<open>nc_realloc\<close>; their initial contents are never read.\<close>

definition realloc_slots :: "nat \<Rightarrow> cpoint list \<Rightarrow> cpoint list" where
  "realloc_slots n old = take n old @ replicate (n - length old) \<lparr>index = 0, cvalue = 0\<rparr>"

primrec write_points :: "cpoint list \<Rightarrow> nat \<Rightarrow> cpoint list \<Rightarrow> cpoint list option" where
  "write_points c i [] = Some c"
| "write_points c i (p # ps) = (if i < length c then write_points (c[i := p]) (i + 1) ps else None)"

subsection \<open>Ketama\<close>

definition KETAMA_CONTINUUM_ADDITION :: nat where "KETAMA_CONTINUUM_ADDITION = 10"
definition KETAMA_POINTS_PER_SERVER :: nat where "KETAMA_POINTS_PER_SERVER = 160"
definition KETAMA_MAX_HOSTLEN :: nat where "KETAMA_MAX_HOSTLEN = 86"

definition ketama_hash :: "bytes \<Rightarrow> nat \<Rightarrow> u32 option" where
  "ketama_hash key alignment = map_option (\<lambda>results. digest_word results alignment) (md5_signature key)"

text \<open>
  \<open>pointer_per_server\<close>: \<open>pct * 160 / 4 * nlive\<close> in single precision, the constant added in
  double precision, the sum truncated to single precision before \<open>floorf\<close>.
\<close>

definition pointer_per_server :: "u32 \<Rightarrow> u32 \<Rightarrow> nat \<Rightarrow> nat" where
  "pointer_per_server w total_weight nlive =
     (let pct = fl32 (fl32 (of_nat (unat w)) / fl32 (of_nat (unat total_weight)));
          v = fl32 (fl32 (fl32 (pct * of_nat KETAMA_POINTS_PER_SERVER) / 4) * fl32 (of_nat nlive));
          s = fl32 (fl64 (v + fl64 (1 / 10 ^ 10)))
      in nat \<lfloor>fl32 (of_int \<lfloor>s\<rfloor> * 4)\<rfloor>)"

text \<open>
  \<open>snprintf(host, 86, "%.*s-%u", name, i)\<close> returns the untruncated length and stores at
  most 85 characters and a terminator in the zero-filled array.
\<close>

definition ketama_host :: "bytes \<Rightarrow> nat \<Rightarrow> bytes option" where
  "ketama_host name i =
     (let full = takeWhile (\<lambda>c. c \<noteq> CHR 0x00) name @ CHR ''-'' # show_nat i;
          hostlen = length full;
          stored = take (KETAMA_MAX_HOSTLEN - 1) full;
          host = stored @ replicate (KETAMA_MAX_HOSTLEN - length stored) (CHR 0x00)
      in if hostlen \<le> KETAMA_MAX_HOSTLEN then Some (take hostlen host) else None)"

definition ketama_host_points :: "nat \<Rightarrow> bytes \<Rightarrow> nat \<Rightarrow> cpoint list option" where
  "ketama_host_points server_index name i =
     (case ketama_host name i of
        None \<Rightarrow> None
      | Some host \<Rightarrow>
          (case (ketama_hash host 0, ketama_hash host 1, ketama_hash host 2, ketama_hash host 3) of
             (Some v0, Some v1, Some v2, Some v3) \<Rightarrow>
               Some (map (\<lambda>v. \<lparr>index = server_index, cvalue = v\<rparr>) [v0, v1, v2, v3])
           | _ \<Rightarrow> None))"

primrec ketama_server_points :: "nat \<Rightarrow> bytes \<Rightarrow> nat \<Rightarrow> cpoint list option" where
  "ketama_server_points server_index name 0 = Some []"
| "ketama_server_points server_index name (Suc n) =
     (case (ketama_server_points server_index name n, ketama_host_points server_index name n) of
        (Some ps, Some qs) \<Rightarrow> Some (ps @ qs) | _ \<Rightarrow> None)"

text \<open>The second loop: points of the live servers and the pointer counter.\<close>

fun ketama_build ::
  "bool \<Rightarrow> int \<Rightarrow> u32 \<Rightarrow> nat \<Rightarrow> nat \<Rightarrow> server list \<Rightarrow> cpoint list \<Rightarrow> nat \<Rightarrow> nat
    \<Rightarrow> (cpoint list \<times> nat \<times> nat) option" where
  "ketama_build auto now total_weight nlive si [] c ci counter = Some (c, ci, counter)"
| "ketama_build auto now total_weight nlive si (s # ss) c ci counter =
     (if skip_server auto now s then ketama_build auto now total_weight nlive (si + 1) ss c ci counter
      else let pps = pointer_per_server (weight s) total_weight nlive in
           case ketama_server_points si (sname s) (pps div 4) of
             None \<Rightarrow> None
           | Some ps \<Rightarrow>
               (case write_points c ci ps of
                  None \<Rightarrow> None
                | Some c' \<Rightarrow>
                    ketama_build auto now total_weight nlive (si + 1) ss c' (ci + length ps) (counter + pps)))"

definition ketama_item_cmp :: "cpoint \<Rightarrow> cpoint \<Rightarrow> int" where
  "ketama_item_cmp t1 t2 =
     (if cvalue t1 = cvalue t2 then 0 else if cvalue t1 > cvalue t2 then 1 else -1)"

text \<open>\<open>qsort\<close> on the first \<open>n\<close> slots under \<open>ketama_item_cmp\<close>.\<close>

primrec cmp_insort :: "('a \<Rightarrow> 'a \<Rightarrow> int) \<Rightarrow> 'a \<Rightarrow> 'a list \<Rightarrow> 'a list" where
  "cmp_insort cmp x [] = [x]"
| "cmp_insort cmp x (y # ys) = (if cmp x y \<le> 0 then x # y # ys else y # cmp_insort cmp x ys)"

definition qsort :: "('a \<Rightarrow> 'a \<Rightarrow> int) \<Rightarrow> nat \<Rightarrow> 'a list \<Rightarrow> 'a list" where
  "qsort cmp n xs = foldr (cmp_insort cmp) (take n xs) [] @ drop n xs"

text \<open>The loop of assertions behind the sort.\<close>

definition ketama_sorted :: "nat \<Rightarrow> nat \<Rightarrow> cpoint list \<Rightarrow> bool" where
  "ketama_sorted nlive counter c \<longleftrightarrow>
     list_all (\<lambda>i. cvalue (c ! i) \<le> cvalue (c ! (i + 1)))
       [0..<min (nlive * KETAMA_POINTS_PER_SERVER - 1) (counter - 1)]"

text \<open>The assertion of the first loop of ketama and modula, \<open>server->weight > 0\<close>.\<close>

definition weights_ok :: "server list \<Rightarrow> bool" where
  "weights_ok ss \<longleftrightarrow> list_all (\<lambda>s. 0 < weight s) ss"

definition ketama_update :: "bool \<Rightarrow> int \<Rightarrow> server_pool \<Rightarrow> (rstatus \<times> server_pool) option" where
  "ketama_update mem now pool =
     (if servers pool = [] then None
      else if now < 0 then Some (NC_ERROR, pool)
      else if \<not> weights_ok (servers pool) then None
      else case live_scan (auto_eject_hosts pool) now (servers pool) of
        (ss, nlive, total_weight, rebuild) \<Rightarrow>
          let pool1 = pool\<lparr>servers := ss, next_rebuild := rebuild, nlive_server := nlive\<rparr> in
          if nlive = 0 then Some (NC_OK, pool1)
          else if nlive > nserver_continuum pool1 \<and> \<not> mem then Some (NC_ENOMEM, pool1)
          else
            let pool2 = (if nlive > nserver_continuum pool1
                  then let nsc = nlive + KETAMA_CONTINUUM_ADDITION in
                       pool1\<lparr>continuum := realloc_slots (nsc * KETAMA_POINTS_PER_SERVER) (continuum pool1),
                             nserver_continuum := nsc\<rparr>
                  else pool1) in
            (case ketama_build (auto_eject_hosts pool2) now total_weight nlive 0 ss (continuum pool2) 0 0 of
               None \<Rightarrow> None
             | Some (c, ci, counter) \<Rightarrow>
                 let c' = qsort ketama_item_cmp counter c in
                 if ketama_sorted nlive counter c'
                 then Some (NC_OK, pool2\<lparr>ncontinuum := counter, continuum := c'\<rparr>) else None))"

text \<open>The binary search; pointers into the continuum are indices.\<close>

function ketama_search :: "cpoint list \<Rightarrow> u32 \<Rightarrow> nat \<Rightarrow> nat \<Rightarrow> nat" where
  "ketama_search c hash left right =
     (if left < right then
        let middle = left + (right - left) div 2 in
        if cvalue (c ! middle) < hash then ketama_search c hash (middle + 1) right
        else ketama_search c hash left middle
      else right)"
  by pat_completeness auto
termination by (relation "measure (\<lambda>(c, hash, left, right). right - left)") auto

declare ketama_search.simps [simp del]

definition ketama_dispatch :: "cpoint list \<Rightarrow> nat \<Rightarrow> u32 \<Rightarrow> nat" where
  "ketama_dispatch c n hash =
     (let right = ketama_search c hash 0 n;
          right = (if right = n then 0 else right)
      in index (c ! right))"

subsection \<open>Modula and random\<close>

definition MODULA_CONTINUUM_ADDITION :: nat where "MODULA_CONTINUUM_ADDITION = 10"
definition RANDOM_CONTINUUM_ADDITION :: nat where "RANDOM_CONTINUUM_ADDITION = 10"

text \<open>
  The loop that writes \<open>rep s\<close> slots for every live server: one per unit of weight for
  modula, one for random.
\<close>

fun plain_build ::
  "(server \<Rightarrow> nat) \<Rightarrow> bool \<Rightarrow> int \<Rightarrow> nat \<Rightarrow> server list \<Rightarrow> cpoint list \<Rightarrow> nat \<Rightarrow> (cpoint list \<times> nat) option" where
  "plain_build rep auto now si [] c ci = Some (c, ci)"
| "plain_build rep auto now si (s # ss) c ci =
     (if skip_server auto now s then plain_build rep auto now (si + 1) ss c ci
      else case write_points c ci (replicate (rep s) \<lparr>index = si, cvalue = 0\<rparr>) of
             None \<Rightarrow> None
           | Some c' \<Rightarrow> plain_build rep auto now (si + 1) ss c' (ci + rep s))"

definition modula_update :: "bool \<Rightarrow> int \<Rightarrow> server_pool \<Rightarrow> (rstatus \<times> server_pool) option" where
  "modula_update mem now pool =
     (if now < 0 then Some (NC_ERROR, pool)
      else if \<not> weights_ok (servers pool) then None
      else case live_scan (auto_eject_hosts pool) now (servers pool) of
        (ss, nlive, total_weight, rebuild) \<Rightarrow>
          let pool1 = pool\<lparr>servers := ss, next_rebuild := rebuild, nlive_server := nlive\<rparr> in
          if nlive = 0 then
            if continuum pool1 = [] \<or> ncontinuum pool1 = 0 then None else Some (NC_OK, pool1)
          else if unat total_weight > nserver_continuum pool1 \<and> \<not> mem then Some (NC_ENOMEM, pool1)
          else
            let pool2 = (if unat total_weight > nserver_continuum pool1
                  then let nsc = unat (total_weight + of_nat MODULA_CONTINUUM_ADDITION) in
                       pool1\<lparr>continuum := realloc_slots nsc (continuum pool1), nserver_continuum := nsc\<rparr>
                  else pool1) in
            (case plain_build (\<lambda>s. unat (weight s)) (auto_eject_hosts pool2) now 0 ss (continuum pool2) 0 of
               None \<Rightarrow> None
             | Some (c, counter) \<Rightarrow> Some (NC_OK, pool2\<lparr>ncontinuum := counter, continuum := c\<rparr>)))"

definition modula_dispatch :: "cpoint list \<Rightarrow> nat \<Rightarrow> u32 \<Rightarrow> nat" where
  "modula_dispatch c n hash = index (c ! (unat hash mod n))"

definition random_update :: "bool \<Rightarrow> int \<Rightarrow> server_pool \<Rightarrow> (rstatus \<times> server_pool) option" where
  "random_update mem now pool =
     (if now < 0 then Some (NC_ERROR, pool)
      else case live_scan (auto_eject_hosts pool) now (servers pool) of
        (ss, nlive, total_weight, rebuild) \<Rightarrow>
          let pool1 = pool\<lparr>servers := ss, next_rebuild := rebuild, nlive_server := nlive\<rparr> in
          if nlive = 0 then
            if continuum pool1 = [] \<or> ncontinuum pool1 = 0 then None else Some (NC_OK, pool1)
          else if nlive > nserver_continuum pool1 \<and> \<not> mem then Some (NC_ENOMEM, pool1)
          else
            let pool2 = (if nlive > nserver_continuum pool1
                  then let nsc = nlive + RANDOM_CONTINUUM_ADDITION in
                       pool1\<lparr>continuum := realloc_slots nsc (continuum pool1), nserver_continuum := nsc\<rparr>
                  else pool1) in
            (case plain_build (\<lambda>s. 1) (auto_eject_hosts pool2) now 0 ss (continuum pool2) 0 of
               None \<Rightarrow> None
             | Some (c, counter) \<Rightarrow> Some (NC_OK, pool2\<lparr>ncontinuum := counter, continuum := c\<rparr>)))"

text \<open>\<open>rnd\<close> is the value \<open>random()\<close> returns; the \<open>hash\<close> argument is ignored.\<close>

definition random_dispatch :: "nat \<Rightarrow> cpoint list \<Rightarrow> nat \<Rightarrow> u32 \<Rightarrow> nat" where
  "random_dispatch rnd c n hash = index (c ! (rnd mod n))"



subsection \<open>Dispatch is a lookup on the ring\<close>

definition ring_successor :: "cpoint list \<Rightarrow> u32 \<Rightarrow> cpoint" where
  "ring_successor ps hash = (case find (\<lambda>p. hash \<le> cvalue p) ps of Some p \<Rightarrow> p | None \<Rightarrow> hd ps)"

definition ring_sorted :: "cpoint list \<Rightarrow> bool" where
  "ring_sorted ps \<longleftrightarrow> sorted (map cvalue ps)"

lemma ring_sorted_nth:
  "ring_sorted (take n c) \<Longrightarrow> i \<le> j \<Longrightarrow> j < n \<Longrightarrow> n \<le> length c \<Longrightarrow> cvalue (c ! i) \<le> cvalue (c ! j)"
  unfolding ring_sorted_def using sorted_nth_mono [of "map cvalue (take n c)" i j] by simp

text \<open>What the pointers satisfy at every iteration of the search, and at its end.\<close>

definition search_inv :: "cpoint list \<Rightarrow> nat \<Rightarrow> u32 \<Rightarrow> nat \<Rightarrow> nat \<Rightarrow> bool" where
  "search_inv c n hash left right \<longleftrightarrow> left \<le> right \<and> right \<le> n \<and>
     (\<forall>i < left. cvalue (c ! i) < hash) \<and> (\<forall>i. right \<le> i \<and> i < n \<longrightarrow> hash \<le> cvalue (c ! i))"

lemma ketama_search_inv:
  assumes "ring_sorted (take n c)" "n \<le> length c" "search_inv c n hash left right"
  shows "search_inv c n hash (ketama_search c hash left right) (ketama_search c hash left right)"
  using assms
proof (induction c hash left right rule: ketama_search.induct)
  case (1 c hash left right)
  let ?m = "left + (right - left) div 2"
  show ?case
  proof (cases "left < right")
    case True
    then have m: "left \<le> ?m" "?m < right" by auto
    note mono = ring_sorted_nth [OF "1.prems"(1) _ _ "1.prems"(2)]
    show ?thesis
    proof (cases "cvalue (c ! ?m) < hash")
      case lt: True
      have "\<forall>i < ?m + 1. cvalue (c ! i) < hash"
        using mono [of _ ?m] m "1.prems"(3) lt by (auto simp: search_inv_def less_Suc_eq_le intro: le_less_trans)
      then have "search_inv c n hash (?m + 1) right"
        using "1.prems"(3) m by (simp add: search_inv_def)
      with 1 True lt show ?thesis by (subst (1 2) ketama_search.simps) (simp add: Let_def)
    next
      case ge: False
      have "\<forall>i. ?m \<le> i \<and> i < n \<longrightarrow> hash \<le> cvalue (c ! i)"
        using mono [of ?m] m "1.prems"(3) ge by (auto simp: search_inv_def not_less intro: order_trans)
      then have "search_inv c n hash left ?m"
        using "1.prems"(3) m by (simp add: search_inv_def)
      with 1 True ge show ?thesis by (subst (1 2) ketama_search.simps) (simp add: Let_def)
    qed
  next
    case False
    with 1 show ?thesis by (simp add: ketama_search.simps search_inv_def)
  qed
qed

lemma find_split:
  assumes "i < length xs" "\<not> (\<exists>j < i. P (xs ! j))" "P (xs ! i)"
  shows "find P xs = Some (xs ! i)"
  using assms by (auto simp: find_Some_iff)

lemma ketama_dispatch_ring_aux:
  assumes "ring_sorted (take n c)" "n \<le> length c" "0 < n"
  shows "ketama_dispatch c n hash = index (ring_successor (take n c) hash)"
proof -
  define r where "r = ketama_search c hash 0 n"
  have inv: "search_inv c n hash r r"
    unfolding r_def by (rule ketama_search_inv [OF assms(1,2)]) (auto simp: search_inv_def)
  show ?thesis
  proof (cases "r = n")
    case True
    with inv assms have "find (\<lambda>p. hash \<le> cvalue p) (take n c) = None"
      by (force simp: search_inv_def find_None_iff in_set_conv_nth not_le)
    moreover have "hd (take n c) = c ! 0" using assms by (cases c) auto
    ultimately show ?thesis
      using True by (simp add: ketama_dispatch_def ring_successor_def Let_def flip: r_def)
  next
    case False
    with inv have "r < n" by (simp add: search_inv_def)
    with inv assms have "find (\<lambda>p. hash \<le> cvalue p) (take n c) = Some (c ! r)"
      using find_split [of r "take n c" "\<lambda>p. hash \<le> cvalue p"] by (auto simp: search_inv_def not_le)
    then show ?thesis
      using False by (simp add: ketama_dispatch_def ring_successor_def Let_def flip: r_def)
  qed
qed

text \<open>
  C11: on a sorted continuum the binary search of \<^const>\<open>ketama_dispatch\<close> returns the server of
  the first point whose value is at least the hash, and the server of the first point of
  the ring when there is none: a lookup clockwise on the ring.
\<close>
theorem ketama_dispatch_is_ring_lookup:
  assumes "ring_sorted (take n c)" "n \<le> length c" "0 < n"
  shows "ketama_dispatch c n hash = index (ring_successor (take n c) hash)"
  by (rule ketama_dispatch_ring_aux [OF assms])

theorem ketama_dispatch_is_ring_lookup_witness:
  "ketama_dispatch [\<lparr>index = 4, cvalue = 10\<rparr>, \<lparr>index = 7, cvalue = 20\<rparr>] 2 21 = 4"
  using ketama_dispatch_is_ring_lookup [of 2 "[\<lparr>index = 4, cvalue = 10\<rparr>, \<lparr>index = 7, cvalue = 20\<rparr>]" 21]
  by (simp add: ring_sorted_def ring_successor_def)

subsection \<open>Scanning for live servers\<close>

definition refresh :: "bool \<Rightarrow> int \<Rightarrow> server \<Rightarrow> server" where
  "refresh auto now s = (if auto \<and> next_retry s \<le> now then s\<lparr>next_retry := 0\<rparr> else s)"

definition live :: "bool \<Rightarrow> int \<Rightarrow> server \<Rightarrow> bool" where
  "live auto now s \<longleftrightarrow> \<not> skip_server auto now s"

definition earliest_retry :: "server list \<Rightarrow> int" where
  "earliest_retry ss = (if ss = [] then 0 else Min (next_retry ` set ss))"

lemma skip_refresh [simp]: "0 \<le> now \<Longrightarrow> skip_server auto now (refresh auto now s) = skip_server auto now s"
  by (simp add: skip_server_def refresh_def)

lemma refresh_sel [simp]:
  "sname (refresh auto now s) = sname s" "weight (refresh auto now s) = weight s"
  "failure_count (refresh auto now s) = failure_count s" "pname (refresh auto now s) = pname s"
  by (simp_all add: refresh_def)

lemma earliest_retry_snoc:
  assumes "\<forall>s \<in> set ss. 0 < next_retry s"
  shows "earliest_retry (ss @ [s]) =
     (if earliest_retry ss = 0 \<or> next_retry s < earliest_retry ss then next_retry s else earliest_retry ss)"
proof (cases "ss = []")
  case False
  define m where "m = Min (next_retry ` set ss)"
  have "m \<in> next_retry ` set ss" unfolding m_def using False by (intro Min_in) auto
  then have "0 < m" using assms by auto
  moreover have "Min (next_retry ` set (ss @ [s])) = min (next_retry s) m"
    using False by (simp add: m_def)
  ultimately show ?thesis
    using False by (simp add: earliest_retry_def min_def del: set_append flip: m_def)
qed (simp add: earliest_retry_def)

lemma live_scan_eq:
  assumes "0 \<le> now"
  shows "live_scan auto now ss =
     (map (refresh auto now) ss, length (filter (live auto now) ss),
      sum_list (map weight (filter (live auto now) ss)),
      earliest_retry (filter (\<lambda>s. \<not> live auto now s) ss))"
proof (induction ss rule: rev_induct)
  case (snoc s ss)
  have pos: "\<forall>s \<in> set (filter (\<lambda>s. \<not> live auto now s) ss). 0 < next_retry s"
    using assms by (auto simp: live_def skip_server_def)
  show ?case
    using assms snoc earliest_retry_snoc [OF pos, of s]
    by (auto simp: live_scan_def live_step_def live_def skip_server_def refresh_def)
qed (simp add: live_scan_def earliest_retry_def)

text \<open>The pool after the first loop of an update, and after its slots have been rebuilt.\<close>

definition scanned :: "int \<Rightarrow> server_pool \<Rightarrow> server_pool" where
  "scanned now pool = (let auto = auto_eject_hosts pool in
     pool\<lparr>servers := map (refresh auto now) (servers pool),
          next_rebuild := earliest_retry (filter (\<lambda>s. \<not> live auto now s) (servers pool)),
          nlive_server := length (filter (live auto now) (servers pool))\<rparr>)"

definition with_slots :: "cpoint list \<Rightarrow> nat \<Rightarrow> nat \<Rightarrow> server_pool \<Rightarrow> server_pool" where
  "with_slots c k nsc pool = pool\<lparr>continuum := c, ncontinuum := k, nserver_continuum := nsc\<rparr>"

lemma scanned_sel [simp]:
  "servers (scanned now pool) = map (refresh (auto_eject_hosts pool) now) (servers pool)"
  "nlive_server (scanned now pool) = length (filter (live (auto_eject_hosts pool) now) (servers pool))"
  "continuum (scanned now pool) = continuum pool" "ncontinuum (scanned now pool) = ncontinuum pool"
  "nserver_continuum (scanned now pool) = nserver_continuum pool"
  "auto_eject_hosts (scanned now pool) = auto_eject_hosts pool"
  "dist_type (scanned now pool) = dist_type pool" "key_hash (scanned now pool) = key_hash pool"
  "hash_tag (scanned now pool) = hash_tag pool"
  "next_rebuild (scanned now pool)
    = earliest_retry (filter (\<lambda>s. \<not> live (auto_eject_hosts pool) now s) (servers pool))"
  by (simp_all add: scanned_def Let_def)

lemma with_slots_sel [simp]:
  "continuum (with_slots c k nsc pool) = c" "ncontinuum (with_slots c k nsc pool) = k"
  "nserver_continuum (with_slots c k nsc pool) = nsc" "servers (with_slots c k nsc pool) = servers pool"
  "nlive_server (with_slots c k nsc pool) = nlive_server pool"
  "next_rebuild (with_slots c k nsc pool) = next_rebuild pool"
  "auto_eject_hosts (with_slots c k nsc pool) = auto_eject_hosts pool"
  "dist_type (with_slots c k nsc pool) = dist_type pool"
  by (simp_all add: with_slots_def)

lemma live_scan_scanned:
  "0 \<le> now \<Longrightarrow> live_scan (auto_eject_hosts pool) now (servers pool) =
     (servers (scanned now pool), length (filter (live (auto_eject_hosts pool) now) (servers pool)),
      sum_list (map weight (filter (live (auto_eject_hosts pool) now) (servers pool))),
      next_rebuild (scanned now pool))"
  by (simp add: live_scan_eq)

lemma scanned_fold:
  "pool\<lparr>servers := servers (scanned now pool), next_rebuild := next_rebuild (scanned now pool),
        nlive_server := length (filter (live (auto_eject_hosts pool) now) (servers pool))\<rparr> = scanned now pool"
  by (simp add: scanned_def Let_def)

subsection \<open>The shares of the servers\<close>

text \<open>
  The single-precision share before \<open>floorf\<close>, and its bound: the eight roundings inflate
  the exact share by less than one part in a million.
\<close>

definition ketama_share :: "u32 \<Rightarrow> u32 \<Rightarrow> nat \<Rightarrow> rat" where
  "ketama_share w total_weight nlive =
     (let pct = fl32 (fl32 (of_nat (unat w)) / fl32 (of_nat (unat total_weight)));
          v = fl32 (fl32 (fl32 (pct * of_nat KETAMA_POINTS_PER_SERVER) / 4) * fl32 (of_nat nlive))
      in fl32 (fl64 (v + fl64 (1 / 10 ^ 10))))"

lemma pointer_per_server_share:
  "pointer_per_server w total_weight nlive = nat \<lfloor>fl32 (of_int \<lfloor>ketama_share w total_weight nlive\<rfloor> * 4)\<rfloor>"
  by (simp add: pointer_per_server_def ketama_share_def Let_def)

definition ulp1 :: rat where "ulp1 = 1 + 1 / 2 ^ 24"

lemma fl32_le: "0 \<le> x \<Longrightarrow> x \<le> y \<Longrightarrow> fl32 x \<le> y * ulp1"
  using fl_round_err(1) [of x 24] mult_right_mono [of x y ulp1]
  by (simp add: fl32_def ulp1_def)

lemma fl64_le: "0 \<le> x \<Longrightarrow> x \<le> y \<Longrightarrow> fl64 x \<le> y * ulp1"
proof -
  assume x: "0 \<le> x" "x \<le> y"
  have "fl64 x \<le> x * (1 + 1 / 2 ^ 53)" unfolding fl64_def by (rule fl_round_err(1) [OF x(1)])
  also have "\<dots> \<le> y * ulp1" using x by (intro mult_mono) (simp_all add: ulp1_def)
  finally show ?thesis .
qed

lemma fl_nonneg [simp]: "0 \<le> x \<Longrightarrow> 0 \<le> fl32 x" "0 \<le> x \<Longrightarrow> 0 \<le> fl64 x"
  by (simp_all add: fl32_def fl64_def fl_round_nonneg)

lemma unsigned_rat_nonneg [simp]: "(0 :: rat) \<le> unsigned (w :: u32)"
  using of_nat_0_le_iff [of "unat w", where 'a = rat] by simp

lemma ketama_share_nonneg: "0 \<le> ketama_share w total_weight nlive"
  by (simp add: ketama_share_def Let_def)

lemma ketama_share_le:
  assumes "0 < total_weight"
  shows "ketama_share w total_weight nlive
     \<le> 40 * of_nat nlive * (of_nat (unat w) / of_nat (unat total_weight)) * (1 + 1 / 10 ^ 6) + 1 / 10 ^ 9"
proof -
  define r :: rat where "r = of_nat (unat w) / of_nat (unat total_weight)"
  define D :: rat where "D = 1 - 1 / 2 ^ 24"
  define pct where "pct = fl32 (fl32 (of_nat (unat w)) / fl32 (of_nat (unat total_weight)))"
  define a where "a = fl32 (pct * of_nat KETAMA_POINTS_PER_SERVER)"
  define b where "b = fl32 (a / 4)"
  define v where "v = fl32 (b * fl32 (of_nat nlive))"
  have W: "(0 :: rat) < of_nat (unat total_weight)" using assms by (simp only: of_nat_0_less_iff unat_gt_0)
  have r: "0 \<le> r" by (simp add: r_def)
  have nn: "0 \<le> pct" "0 \<le> a" "0 \<le> b" "0 \<le> v" "0 \<le> ulp1" "0 < D"
    by (simp_all add: pct_def a_def b_def v_def ulp1_def D_def)
  have "fl32 (of_nat (unat w)) / fl32 (of_nat (unat total_weight))
      \<le> (of_nat (unat w) * ulp1) / (of_nat (unat total_weight) * D)"
  proof (rule frac_le)
    show "fl32 (of_nat (unat w)) \<le> of_nat (unat w) * ulp1" by (rule fl32_le) simp_all
    show "of_nat (unat total_weight) * D \<le> fl32 (of_nat (unat total_weight))"
      using fl_round_err(2) [of "of_nat (unat total_weight)" 24] by (simp add: D_def fl32_def)
  qed (use W nn in simp_all)
  also have "\<dots> = r * (ulp1 / D)" by (simp add: r_def)
  finally have "pct \<le> r * (ulp1 / D) * ulp1" unfolding pct_def by (intro fl32_le) simp_all
  then have "a \<le> r * (ulp1 / D) * ulp1 * 160 * ulp1"
    unfolding a_def KETAMA_POINTS_PER_SERVER_def of_nat_numeral using nn
    by (intro fl32_le mult_right_mono) simp_all
  then have "b \<le> r * (ulp1 / D) * ulp1 * 160 * ulp1 / 4 * ulp1"
    unfolding b_def using nn by (intro fl32_le divide_right_mono) simp_all
  moreover have "fl32 (of_nat nlive) \<le> of_nat nlive * ulp1" by (rule fl32_le) simp_all
  ultimately have "v \<le> (r * (ulp1 / D) * ulp1 * 160 * ulp1 / 4 * ulp1) * (of_nat nlive * ulp1) * ulp1"
    unfolding v_def using nn r by (intro fl32_le mult_mono mult_nonneg_nonneg) simp_all
  moreover have "fl64 (1 / 10 ^ 10) \<le> 1 / 10 ^ 10 * ulp1" by (rule fl64_le) simp_all
  ultimately have "ketama_share w total_weight nlive
      \<le> ((r * (ulp1 / D) * ulp1 * 160 * ulp1 / 4 * ulp1) * (of_nat nlive * ulp1) * ulp1
          + 1 / 10 ^ 10 * ulp1) * ulp1 * ulp1"
    unfolding ketama_share_def Let_def pct_def [symmetric] a_def [symmetric] b_def [symmetric] v_def [symmetric]
    using nn by (intro fl32_le fl64_le add_mono) simp_all
  also have "\<dots> = 40 * of_nat nlive * r * (ulp1 ^ 8 / D) + ulp1 ^ 3 / 10 ^ 10"
    by (simp add: algebra_simps power_numeral_reduce)
  also have "\<dots> \<le> 40 * of_nat nlive * r * (1 + 1 / 10 ^ 6) + 1 / 10 ^ 9"
  proof (intro add_mono mult_left_mono)
    show "ulp1 ^ 8 / D \<le> 1 + 1 / 10 ^ 6" by (simp add: ulp1_def D_def power_divide)
    show "ulp1 ^ 3 / 10 ^ 10 \<le> 1 / 10 ^ 9" by (simp add: ulp1_def power_divide)
  qed (use r in simp)
  finally show ?thesis unfolding r_def .
qed

lemma unat_sum_list:
  assumes "sum_list (map unat ws) < 2 ^ 32"
  shows "unat (sum_list ws :: u32) = sum_list (map unat ws)"
proof -
  have "sum_list ws = (of_nat (sum_list (map unat ws)) :: u32)"
    by (induction ws) simp_all
  then show ?thesis using assms by (simp add: unsigned_of_nat take_bit_nat_eq_self)
qed

definition MAX_LIVE :: nat where "MAX_LIVE = 20000"

lemma pointer_per_server_floor:
  assumes "0 < total_weight" "w \<le> total_weight" "nlive \<le> MAX_LIVE"
  shows "pointer_per_server w total_weight nlive = 4 * nat \<lfloor>ketama_share w total_weight nlive\<rfloor>"
proof -
  let ?s = "ketama_share w total_weight nlive"
  have W: "(0 :: rat) < of_nat (unat total_weight)"
    using assms(1) by (simp only: of_nat_0_less_iff unat_gt_0)
  have "(of_nat (unat w) / of_nat (unat total_weight) :: rat) \<le> 1"
    using W assms(2) by (simp only: divide_le_eq_1_pos of_nat_le_iff word_le_nat_alt)
  moreover have "(of_nat nlive :: rat) \<le> 20000" using assms(3) by (simp add: MAX_LIVE_def)
  ultimately have "of_nat nlive * (of_nat (unat w) / of_nat (unat total_weight)) \<le> (20000 * 1 :: rat)"
    by (intro mult_mono) simp_all
  moreover define q :: rat where "q = of_nat nlive * (of_nat (unat w) / of_nat (unat total_weight))"
  ultimately have "q \<le> 20000" by (simp only: mult_1_right)
  moreover have "?s \<le> 40 * q * (1 + 1 / 10 ^ 6) + 1 / 10 ^ 9"
    using ketama_share_le [OF assms(1), of w nlive] unfolding q_def by (simp only: mult.assoc)
  ultimately have "?s \<le> 40 * 20000 * (1 + 1 / 10 ^ 6) + 1 / 10 ^ 9" by simp
  then have "?s < of_int 1000000" by simp
  then have "\<lfloor>?s\<rfloor> < 1000000" by (simp only: floor_less_iff)
  then have "\<lfloor>?s\<rfloor> * 4 < 2 ^ 24" by simp
  moreover have "0 \<le> \<lfloor>?s\<rfloor>" using ketama_share_nonneg [of w total_weight nlive] by simp
  ultimately have fl: "fl32 (of_int (\<lfloor>?s\<rfloor> * 4)) = of_int (\<lfloor>?s\<rfloor> * 4)"
    unfolding fl32_def by (intro fl_round_int) simp_all
  have e: "(of_int \<lfloor>?s\<rfloor> * 4 :: rat) = of_int (\<lfloor>?s\<rfloor> * 4)" by simp
  show ?thesis
    unfolding pointer_per_server_share e fl floor_of_int
    using \<open>0 \<le> \<lfloor>?s\<rfloor>\<close> by (simp add: nat_mult_distrib)
qed

lemma of_int_sum_list_map: "of_int (\<Sum>x \<leftarrow> xs. f x) = (\<Sum>x \<leftarrow> xs. of_int (f x) :: rat)"
  by (induction xs) simp_all

lemma int_sum_list_nat: "(\<And>x. 0 \<le> f x) \<Longrightarrow> int (\<Sum>x \<leftarrow> xs. nat (f x)) = (\<Sum>x \<leftarrow> xs. f x)"
  by (induction xs) simp_all

lemma sum_list_of_nat_div:
  "(\<Sum>w \<leftarrow> ws. c * (of_nat (f w) / d)) = c * (of_nat (sum_list (map f ws)) / (d :: rat))"
  by (induction ws) (simp_all add: add_divide_distrib algebra_simps)

text \<open>The points of all live servers together never exceed 160 per live server.\<close>

lemma sum_pointers_le:
  fixes ws :: "u32 list"
  assumes "0 < sum_list (map unat ws)" "sum_list (map unat ws) < 2 ^ 32" "length ws \<le> MAX_LIVE"
  shows "(\<Sum>w \<leftarrow> ws. pointer_per_server w (sum_list ws) (length ws)) \<le> 160 * length ws"
proof -
  define W where "W = sum_list ws"
  define n where "n = length ws"
  have uW: "unat W = sum_list (map unat ws)" unfolding W_def by (rule unat_sum_list [OF assms(2)])
  have "W \<noteq> 0" using assms(1) unfolding uW [symmetric] by auto
  then have Wpos: "0 < W" by (simp add: word_gt_0)
  have le: "w \<le> W" if "w \<in> set ws" for w
    using that member_le_sum_list [of "unat w" "map unat ws"] by (simp add: word_le_nat_alt uW)
  have n: "(of_nat n :: rat) \<le> 20000" using assms(3) by (simp add: n_def MAX_LIVE_def)
  let ?f = "\<lambda>w. \<lfloor>ketama_share w W n\<rfloor>"
  have f0: "0 \<le> ?f w" for w using ketama_share_nonneg by simp
  have "(of_int (sum_list (map ?f ws)) :: rat) = (\<Sum>w \<leftarrow> ws. of_int (?f w))"
    by (rule of_int_sum_list_map)
  also have "\<dots> \<le> (\<Sum>w \<leftarrow> ws. 40 * of_nat n * (1 + 1 / 10 ^ 6) * (of_nat (unat w) / of_nat (unat W)) + 1 / 10 ^ 9)"
  proof (rule sum_list_mono)
    fix w
    have "of_int (?f w) \<le> ketama_share w W n" by simp
    also note ketama_share_le [OF Wpos, of w n]
    finally show "of_int (?f w) \<le> 40 * of_nat n * (1 + 1 / 10 ^ 6) * (of_nat (unat w) / of_nat (unat W)) + (1 / 10 ^ 9 :: rat)"
      by (simp only: mult_ac)
  qed
  also have "\<dots> = 40 * of_nat n * (1 + 1 / 10 ^ 6) * (of_nat (sum_list (map unat ws)) / of_nat (unat W))
      + of_nat n * (1 / 10 ^ 9)"
    by (simp only: sum_list_addf sum_list_of_nat_div sum_list_triv n_def)
  also have "\<dots> = 40 * of_nat n * (1 + 1 / 10 ^ 6) + of_nat n / 10 ^ 9"
  proof -
    have "(of_nat k / of_nat k :: rat) = 1" if "0 < k" for k :: nat using that by simp
    from this [OF assms(1)] show ?thesis unfolding uW by simp
  qed
  also have "\<dots> < 40 * of_nat n + 1" using n by simp
  also have "\<dots> = of_int (40 * int n + 1)" by simp
  finally have "sum_list (map ?f ws) < 40 * int n + 1" by (simp only: of_int_less_iff)
  moreover have "int (\<Sum>w \<leftarrow> ws. nat (?f w)) = sum_list (map ?f ws)"
    using f0 by (rule int_sum_list_nat)
  ultimately have "(\<Sum>w \<leftarrow> ws. nat (?f w)) \<le> 40 * n" by linarith
  moreover have "(\<Sum>w \<leftarrow> ws. pointer_per_server w W n) = (\<Sum>w \<leftarrow> ws. 4 * nat (?f w))"
    using le assms(3) by (intro arg_cong [where f = sum_list] map_cong refl)
      (simp add: pointer_per_server_floor Wpos n_def)
  ultimately show ?thesis by (simp add: sum_list_const_mult W_def n_def)
qed

lemma fl32_ge: "0 \<le> y \<Longrightarrow> y \<le> x \<Longrightarrow> y * (1 - 1 / 2 ^ 24) \<le> fl32 x"
proof -
  assume y: "0 \<le> y" "y \<le> x"
  have "y * (1 - 1 / 2 ^ 24) \<le> x * (1 - 1 / 2 ^ 24)" using y by (intro mult_right_mono) simp_all
  also have "\<dots> \<le> fl32 x" unfolding fl32_def by (rule fl_round_err(2)) (use y in simp)
  finally show ?thesis .
qed

lemma fl64_ge: "0 \<le> y \<Longrightarrow> y \<le> x \<Longrightarrow> y * (1 - 1 / 2 ^ 24) \<le> fl64 x"
proof -
  assume y: "0 \<le> y" "y \<le> x"
  have "y * (1 - 1 / 2 ^ 24) \<le> x * (1 - 1 / 2 ^ 53)" using y by (intro mult_mono) simp_all
  also have "\<dots> \<le> fl64 x" unfolding fl64_def by (rule fl_round_err(2)) (use y in simp)
  finally show ?thesis .
qed

text \<open>Nor do the roundings lose more than one part in a million of the exact share.\<close>

lemma ketama_share_ge:
  assumes "0 < total_weight"
  shows "40 * of_nat nlive * (of_nat (unat w) / of_nat (unat total_weight)) * (1 - 1 / 10 ^ 6)
     \<le> ketama_share w total_weight nlive"
proof -
  define r :: rat where "r = of_nat (unat w) / of_nat (unat total_weight)"
  define D :: rat where "D = 1 - 1 / 2 ^ 24"
  define pct where "pct = fl32 (fl32 (of_nat (unat w)) / fl32 (of_nat (unat total_weight)))"
  define a where "a = fl32 (pct * of_nat KETAMA_POINTS_PER_SERVER)"
  define b where "b = fl32 (a / 4)"
  define v where "v = fl32 (b * fl32 (of_nat nlive))"
  have W: "(0 :: rat) < of_nat (unat total_weight)"
    using assms by (simp only: of_nat_0_less_iff unat_gt_0)
  have r: "0 \<le> r" by (simp add: r_def)
  have nn: "0 \<le> pct" "0 \<le> a" "0 \<le> b" "0 \<le> v" "0 < ulp1" "0 < D"
    by (simp_all add: pct_def a_def b_def v_def ulp1_def D_def)
  have ge32: "y * D \<le> fl32 x" if "0 \<le> y" "y \<le> x" for x y unfolding D_def by (rule fl32_ge [OF that])
  have ge64: "y * D \<le> fl64 x" if "0 \<le> y" "y \<le> x" for x y unfolding D_def by (rule fl64_ge [OF that])
  have "0 < of_nat (unat total_weight) * D" using W nn by simp
  also have "\<dots> \<le> fl32 (of_nat (unat total_weight))" by (rule ge32) simp_all
  finally have fW: "0 < fl32 (of_nat (unat total_weight))" .
  have "r * (D / ulp1) = (of_nat (unat w) * D) / (of_nat (unat total_weight) * ulp1)" by (simp add: r_def)
  also have "\<dots> \<le> fl32 (of_nat (unat w)) / fl32 (of_nat (unat total_weight))"
  proof (rule frac_le)
    show "of_nat (unat w) * D \<le> fl32 (of_nat (unat w))" by (rule ge32) simp_all
    show "fl32 (of_nat (unat total_weight)) \<le> of_nat (unat total_weight) * ulp1" by (rule fl32_le) simp_all
  qed (use fW in simp_all)
  finally have "r * (D / ulp1) * D \<le> pct" unfolding pct_def using r nn by (intro ge32) simp_all
  then have "r * (D / ulp1) * D * 160 * D \<le> a"
    unfolding a_def KETAMA_POINTS_PER_SERVER_def of_nat_numeral using nn r
    by (intro ge32 mult_right_mono) simp_all
  then have "r * (D / ulp1) * D * 160 * D / 4 * D \<le> b"
    unfolding b_def using nn r by (intro ge32 divide_right_mono) simp_all
  moreover have "of_nat nlive * D \<le> fl32 (of_nat nlive)" by (rule ge32) simp_all
  ultimately have "(r * (D / ulp1) * D * 160 * D / 4 * D) * (of_nat nlive * D) * D \<le> v"
    unfolding v_def using nn r by (intro ge32 mult_mono mult_nonneg_nonneg) simp_all
  moreover have "0 \<le> fl64 (1 / 10 ^ 10)" by simp
  ultimately have "(r * (D / ulp1) * D * 160 * D / 4 * D) * (of_nat nlive * D) * D \<le> v + fl64 (1 / 10 ^ 10)"
    by linarith
  then have lo: "(r * (D / ulp1) * D * 160 * D / 4 * D) * (of_nat nlive * D) * D * D * D \<le> ketama_share w total_weight nlive"
    unfolding ketama_share_def Let_def pct_def [symmetric] a_def [symmetric] b_def [symmetric] v_def [symmetric]
    using nn r by (intro ge32 ge64) simp_all
  have eq: "(r * (D / ulp1) * D * 160 * D / 4 * D) * (of_nat nlive * D) * D * D * D
      = 40 * (of_nat nlive * r) * (D ^ 8 / ulp1)"
    by (simp add: algebra_simps power_numeral_reduce)
  have "1 - 1 / 10 ^ 6 \<le> D ^ 8 / ulp1" by (simp add: D_def ulp1_def power_divide)
  then have "40 * (of_nat nlive * r) * (1 - 1 / 10 ^ 6) \<le> 40 * (of_nat nlive * r) * (D ^ 8 / ulp1)"
    using r by (intro mult_left_mono) simp_all
  also note eq [symmetric]
  also note lo
  finally show ?thesis by (simp only: r_def mult.assoc)
qed

text \<open>A server with one part in 39 of the average weight gets a hash, one with the average weight 39.\<close>

lemma ketama_share_min:
  assumes "0 < total_weight" "k * unat total_weight \<le> 39 * (nlive * unat w)" "k \<le> 39"
  shows "of_nat k \<le> ketama_share w total_weight nlive"
proof -
  define q :: rat where "q = of_nat nlive * (of_nat (unat w) / of_nat (unat total_weight))"
  have W: "(0 :: rat) < of_nat (unat total_weight)"
    using assms(1) by (simp only: of_nat_0_less_iff unat_gt_0)
  have "(of_nat (k * unat total_weight) :: rat) \<le> of_nat (39 * (nlive * unat w))"
    using assms(2) by (simp only: of_nat_le_iff)
  then have "of_nat k \<le> 39 * q" using W by (simp add: q_def field_simps del: of_nat_unat)
  also have "\<dots> \<le> 40 * q * (1 - 1 / 10 ^ 6)"
  proof -
    have "0 \<le> q" by (simp add: q_def)
    then show ?thesis by simp
  qed
  also have "\<dots> \<le> ketama_share w total_weight nlive"
    using ketama_share_ge [OF assms(1), of nlive w] by (simp only: q_def mult.assoc)
  finally show ?thesis .
qed

subsection \<open>Building the ring\<close>

lemma write_points_eq:
  "i + length ps \<le> length c \<Longrightarrow> write_points c i ps = Some (take i c @ ps @ drop (i + length ps) c)"
proof (induction ps arbitrary: c i)
  case (Cons p ps)
  then have "write_points c i (p # ps) = Some (take (i + 1) (c[i := p]) @ ps @ drop (i + 1 + length ps) (c[i := p]))"
    by simp
  also have "take (i + 1) (c[i := p]) = take i c @ [p]"
    using Cons.prems by (simp add: take_Suc_conv_app_nth)
  also have "drop (i + 1 + length ps) (c[i := p]) = drop (i + length (p # ps)) c" by simp
  finally show ?case by simp
qed simp

lemma length_show_nat: "n < 10 ^ k \<Longrightarrow> 0 < k \<Longrightarrow> length (show_nat n) \<le> k"
proof (induction n arbitrary: k rule: show_nat.induct)
  case (1 n)
  show ?case
  proof (cases "n < 10")
    case True
    then show ?thesis using 1 by (simp add: show_nat.simps)
  next
    case False
    with 1 obtain j where j: "k = Suc j" "0 < j" by (cases k; cases "k = 1") auto
    with 1 have "n div 10 < 10 ^ j" by (simp add: less_mult_imp_div_less mult.commute)
    with 1 False j show ?thesis by (subst show_nat.simps) simp
  qed
qed

lemma ketama_host_Some:
  assumes "length name \<le> 75" "i < 10 ^ 10"
  shows "\<exists>host. ketama_host name i = Some host \<and> length host \<le> 86"
proof -
  have "length (takeWhile (\<lambda>c. c \<noteq> CHR 0x00) name) \<le> 75"
    using assms(1) length_takeWhile_le order_trans by blast
  moreover have "length (show_nat i) \<le> 10" using length_show_nat [OF assms(2)] by simp
  ultimately show ?thesis
    by (simp add: ketama_host_def Let_def KETAMA_MAX_HOSTLEN_def)
qed

lemma ketama_host_points_Some:
  assumes "ketama_host name i = Some host" "length host \<le> 86"
  shows "\<exists>ps. ketama_host_points si name i = Some ps \<and> length ps = 4 \<and> (\<forall>p \<in> set ps. index p = si)"
proof -
  have "length host < 2 ^ 64" using assms(2) by simp
  then show ?thesis using assms(1)
    by (simp add: ketama_host_points_def ketama_hash_def md5_signature_ref)
qed

lemma ketama_server_points_Some:
  assumes "length name \<le> 75" "n \<le> 10 ^ 10"
  shows "\<exists>ps. ketama_server_points si name n = Some ps \<and> length ps = 4 * n \<and> (\<forall>p \<in> set ps. index p = si)"
  using assms(2)
proof (induction n)
  case (Suc n)
  then obtain ps where ps: "ketama_server_points si name n = Some ps" "length ps = 4 * n"
    "\<forall>p \<in> set ps. index p = si" by auto
  obtain host where "ketama_host name n = Some host" "length host \<le> 86"
    using ketama_host_Some [OF assms(1), of n] Suc.prems by auto
  from ketama_host_points_Some [OF this, of si] ps show ?case by auto
qed simp

text \<open>The points of the live servers, in server order; \<open>pts\<close> gives the points of one server.\<close>

fun live_points :: "(nat \<Rightarrow> server \<Rightarrow> cpoint list) \<Rightarrow> bool \<Rightarrow> int \<Rightarrow> nat \<Rightarrow> server list \<Rightarrow> cpoint list" where
  "live_points pts auto now si [] = []"
| "live_points pts auto now si (s # ss) =
     (if skip_server auto now s then [] else pts si s) @ live_points pts auto now (si + 1) ss"

lemma live_points_index:
  assumes "\<And>i s p. s \<in> set ss \<Longrightarrow> \<not> skip_server auto now s \<Longrightarrow> p \<in> set (pts i s) \<Longrightarrow> index p = i"
    and "p \<in> set (live_points pts auto now si ss)"
  shows "si \<le> index p \<and> index p < si + length ss \<and> \<not> skip_server auto now (ss ! (index p - si))"
  using assms
proof (induction ss arbitrary: si)
  case (Cons s ss)
  from Cons.prems(2) consider "\<not> skip_server auto now s" "p \<in> set (pts si s)"
    | "p \<in> set (live_points pts auto now (si + 1) ss)" by (auto split: if_splits)
  then show ?case
  proof cases
    case 1
    with Cons.prems(1) [of s p si] show ?thesis by simp
  next
    case 2
    have "si + 1 \<le> index p \<and> index p < si + 1 + length ss \<and> \<not> skip_server auto now (ss ! (index p - (si + 1)))"
      by (rule Cons.IH [OF _ 2]) (use Cons.prems(1) in auto)
    then show ?thesis by (auto simp: nth_Cons split: nat.split) (metis Suc_diff_Suc Suc_le_lessD nat.inject)
  qed
qed simp

lemma length_live_points:
  assumes "\<And>i s. s \<in> set ss \<Longrightarrow> \<not> skip_server auto now s \<Longrightarrow> length (pts i s) = f s"
  shows "length (live_points pts auto now si ss) = (\<Sum>s \<leftarrow> filter (live auto now) ss. f s)"
  using assms by (induction ss arbitrary: si) (auto simp: live_def)

definition ketama_pts :: "u32 \<Rightarrow> nat \<Rightarrow> nat \<Rightarrow> server \<Rightarrow> cpoint list" where
  "ketama_pts total_weight nlive si s =
     the (ketama_server_points si (sname s) (pointer_per_server (weight s) total_weight nlive div 4))"

lemma splice_splice:
  assumes "ci + length ps + length qs \<le> length c"
  shows "take (ci + length ps) (take ci c @ ps @ drop (ci + length ps) c) @ qs
      @ drop (ci + length ps + length qs) (take ci c @ ps @ drop (ci + length ps) c)
    = take ci c @ (ps @ qs) @ drop (ci + length (ps @ qs)) c"
  using assms by (simp add: ac_simps)

lemma ketama_build_eq:
  fixes total_weight nlive
  defines "pps \<equiv> \<lambda>s. pointer_per_server (weight s) total_weight nlive"
  assumes "\<And>s. s \<in> set ss \<Longrightarrow> \<not> skip_server auto now s \<Longrightarrow> length (sname s) \<le> 75 \<and> pps s div 4 \<le> 10 ^ 10"
    and "ci + (\<Sum>s \<leftarrow> filter (live auto now) ss. 4 * (pps s div 4)) \<le> length c"
  shows "ketama_build auto now total_weight nlive si ss c ci counter =
     (let R = live_points (ketama_pts total_weight nlive) auto now si ss in
      Some (take ci c @ R @ drop (ci + length R) c, ci + length R,
            counter + (\<Sum>s \<leftarrow> filter (live auto now) ss. pps s)))"
  using assms(2,3)
proof (induction ss arbitrary: si c ci counter)
  case (Cons s ss)
  show ?case
  proof (cases "skip_server auto now s")
    case True
    then have nl: "\<not> live auto now s" by (simp add: live_def)
    have "ketama_build auto now total_weight nlive (si + 1) ss c ci counter =
       (let R = live_points (ketama_pts total_weight nlive) auto now (si + 1) ss in
        Some (take ci c @ R @ drop (ci + length R) c, ci + length R,
              counter + (\<Sum>s \<leftarrow> filter (live auto now) ss. pps s)))"
      by (rule Cons.IH) (use Cons.prems nl in auto)
    with True nl show ?thesis by simp
  next
    case False
    then have lv: "live auto now s" by (simp add: live_def)
    obtain ps where ps: "ketama_server_points si (sname s) (pps s div 4) = Some ps" "length ps = 4 * (pps s div 4)"
      using Cons.prems(1) [of s] False ketama_server_points_Some [of "sname s" "pps s div 4" si] by auto
    define c' where "c' = take ci c @ ps @ drop (ci + length ps) c"
    have fits: "ci + length ps + (\<Sum>s \<leftarrow> filter (live auto now) ss. 4 * (pps s div 4)) \<le> length c"
      using Cons.prems(2) lv ps(2) by simp
    then have c': "write_points c ci ps = Some c'" "length c' = length c"
      by (simp_all add: write_points_eq c'_def)
    have IH: "ketama_build auto now total_weight nlive (si + 1) ss c' (ci + length ps) (counter + pps s) =
       (let R = live_points (ketama_pts total_weight nlive) auto now (si + 1) ss in
        Some (take (ci + length ps) c' @ R @ drop (ci + length ps + length R) c', ci + length ps + length R,
              counter + pps s + (\<Sum>s \<leftarrow> filter (live auto now) ss. pps s)))"
      by (rule Cons.IH) (use Cons.prems fits c' in auto)
    define R where "R = live_points (ketama_pts total_weight nlive) auto now (si + 1) ss"
    have pts: "ketama_pts total_weight nlive si s = ps"
      using ps(1) by (simp add: ketama_pts_def pps_def)
    have "length R = (\<Sum>s \<leftarrow> filter (live auto now) ss. 4 * (pps s div 4))"
      unfolding R_def
    proof (rule length_live_points)
      fix i t assume t: "t \<in> set ss" "\<not> skip_server auto now t"
      then show "length (ketama_pts total_weight nlive i t) = 4 * (pps t div 4)"
        using Cons.prems(1) [of t] ketama_server_points_Some [of "sname t" "pps t div 4" i]
        by (auto simp: ketama_pts_def pps_def)
    qed
    with fits have "ci + length ps + length R \<le> length c" by simp
    note splice = splice_splice [OF this, folded c'_def]
    have Rs: "live_points (ketama_pts total_weight nlive) auto now si (s # ss) = ps @ R"
      using False pts by (simp add: R_def)
    have "ketama_build auto now total_weight nlive si (s # ss) c ci counter =
        ketama_build auto now total_weight nlive (si + 1) ss c' (ci + length ps) (counter + pps s)"
      using False ps(1) c'(1) by (simp add: pps_def Let_def)
    also note IH
    finally show ?thesis
      unfolding Rs Let_def R_def [symmetric] splice using lv by (simp add: add.assoc)
  qed
qed simp

lemma qsort_ketama: "qsort ketama_item_cmp n xs = sort_key cvalue (take n xs) @ drop n xs"
proof -
  have "cmp_insort ketama_item_cmp x ys = insort_key cvalue x ys" for x ys
    by (induction ys) (auto simp: ketama_item_cmp_def)
  then have "cmp_insort ketama_item_cmp = insort_key cvalue" by (intro ext)
  then show ?thesis by (simp add: qsort_def sort_key_def)
qed

lemma ketama_sorted_sort:
  assumes "length R \<le> length c"
  shows "ketama_sorted nlive (length R) (sort_key cvalue R @ drop (length R) c)"
proof -
  have s: "sorted (map cvalue (sort_key cvalue R))" by simp
  have "cvalue (sort_key cvalue R ! i) \<le> cvalue (sort_key cvalue R ! Suc i)" if "Suc i < length R" for i
    using sorted_nth_mono [OF s, of i "Suc i"] that by simp
  then show ?thesis by (auto simp: ketama_sorted_def list_all_iff nth_append)
qed

subsection \<open>A rebuild keeps the pool sound\<close>

definition ketama_pool_ok :: "server_pool \<Rightarrow> bool" where
  "ketama_pool_ok pool \<longleftrightarrow>
     servers pool \<noteq> [] \<and> length (continuum pool) = nserver_continuum pool * KETAMA_POINTS_PER_SERVER \<and>
     length (servers pool) \<le> MAX_LIVE \<and> (\<Sum>s \<leftarrow> servers pool. unat (weight s)) < 2 ^ 32 \<and>
     (\<forall>s \<in> set (servers pool). 0 < weight s \<and> length (sname s) \<le> 75)"

definition ring_ok :: "int \<Rightarrow> server_pool \<Rightarrow> bool" where
  "ring_ok now pool \<longleftrightarrow>
     0 < ncontinuum pool \<and> ncontinuum pool \<le> length (continuum pool) \<and>
     ring_sorted (take (ncontinuum pool) (continuum pool)) \<and>
     (\<forall>p \<in> set (take (ncontinuum pool) (continuum pool)).
        index p < length (servers pool) \<and> live (auto_eject_hosts pool) now (servers pool ! index p))"

lemma live_refresh [simp]: "0 \<le> now \<Longrightarrow> live auto now (refresh auto now s) = live auto now s"
  by (simp add: live_def)

lemma filter_live_refresh:
  "0 \<le> now \<Longrightarrow> filter (live auto now) (map (refresh auto now) ss) = map (refresh auto now) (filter (live auto now) ss)"
  by (induction ss) auto

lemma sum_list_filter_le: "(\<Sum>s \<leftarrow> filter P ss. f s) \<le> (\<Sum>s \<leftarrow> ss. f s :: nat)"
  by (induction ss) auto

lemma exists_average:
  fixes f :: "'a \<Rightarrow> nat"
  assumes "xs \<noteq> []"
  shows "\<exists>x \<in> set xs. sum_list (map f xs) \<le> length xs * f x"
proof -
  have "Max (f ` set xs) \<in> f ` set xs" using assms by (intro Max_in) auto
  then obtain x where x: "x \<in> set xs" "f x = Max (f ` set xs)" by auto
  have "sum_list (map f xs) \<le> sum_list (map (\<lambda>_. f x) xs)" using x by (intro sum_list_mono) auto
  with x(1) show ?thesis by (intro bexI [of _ x]) (simp_all add: sum_list_triv)
qed

text \<open>The pointers of a non-empty list of live servers.\<close>

lemma live_pointers:
  fixes ls :: "server list"
  defines "W \<equiv> sum_list (map weight ls)" and "n \<equiv> length ls"
  defines "pps \<equiv> \<lambda>s. pointer_per_server (weight s) W n"
  assumes ws: "(\<Sum>s \<leftarrow> ls. unat (weight s)) < 2 ^ 32" and "n \<le> MAX_LIVE" "ls \<noteq> []"
    and pos: "\<forall>s \<in> set ls. 0 < weight s"
  shows "\<forall>s \<in> set ls. 4 * (pps s div 4) = pps s \<and> pps s div 4 \<le> 10 ^ 10"
    and "0 < (\<Sum>s \<leftarrow> ls. pps s)" "(\<Sum>s \<leftarrow> ls. pps s) \<le> 160 * n"
proof -
  have ws': "sum_list (map unat (map weight ls)) < 2 ^ 32" using ws by (simp add: comp_def)
  have uW: "unat W = (\<Sum>s \<leftarrow> ls. unat (weight s))"
    using unat_sum_list [OF ws'] by (simp add: W_def comp_def)
  have wle: "weight s \<le> W" if "s \<in> set ls" for s
    using member_le_sum_list [of "unat (weight s)" "map (\<lambda>s. unat (weight s)) ls"] that
    by (simp add: word_le_nat_alt uW)
  obtain t where t: "t \<in> set ls" "unat W \<le> n * unat (weight t)"
    using exists_average [OF \<open>ls \<noteq> []\<close>, of "\<lambda>s. unat (weight s)"] by (auto simp: uW n_def)
  have W: "0 < W" using pos t(1) wle [OF t(1)] by (meson less_le_trans)
  have uWpos: "0 < (\<Sum>s \<leftarrow> ls. unat (weight s))"
    using W unfolding uW [symmetric] by (simp add: unat_gt_0 word_gt_0)
  have floor: "pps s = 4 * nat \<lfloor>ketama_share (weight s) W n\<rfloor>" if "s \<in> set ls" for s
    unfolding pps_def by (rule pointer_per_server_floor [OF W wle [OF that] \<open>n \<le> MAX_LIVE\<close>])
  show sum: "(\<Sum>s \<leftarrow> ls. pps s) \<le> 160 * n"
    using sum_pointers_le [of "map weight ls"] ws' uWpos \<open>n \<le> MAX_LIVE\<close>
    by (simp add: W_def n_def pps_def comp_def)
  have le: "pps s \<le> (\<Sum>s \<leftarrow> ls. pps s)" if "s \<in> set ls" for s
    using that by (intro member_le_sum_list) auto
  show "\<forall>s \<in> set ls. 4 * (pps s div 4) = pps s \<and> pps s div 4 \<le> 10 ^ 10"
  proof
    fix s assume s: "s \<in> set ls"
    have "pps s \<le> 160 * MAX_LIVE" using le [OF s] sum \<open>n \<le> MAX_LIVE\<close> by linarith
    then show "4 * (pps s div 4) = pps s \<and> pps s div 4 \<le> 10 ^ 10"
      using floor [OF s] by (simp add: MAX_LIVE_def)
  qed
  have "39 \<le> \<lfloor>ketama_share (weight t) W n\<rfloor>" using ketama_share_min [OF W, of 39 n "weight t"] t(2) by (simp add: le_floor_iff)
  then have "0 < nat \<lfloor>ketama_share (weight t) W n\<rfloor>" by linarith
  then show "0 < (\<Sum>s \<leftarrow> ls. pps s)" using floor [OF t(1)] le [OF t(1)] by linarith
qed

lemma ketama_ring:
  fixes pool now
  defines "auto \<equiv> auto_eject_hosts pool"
  defines "ls \<equiv> filter (live auto now) (servers pool)"
  defines "W \<equiv> sum_list (map weight ls)" and "n \<equiv> length ls"
  defines "ss \<equiv> map (refresh auto now) (servers pool)"
  defines "R \<equiv> live_points (ketama_pts W n) auto now 0 ss"
  assumes ok: "ketama_pool_ok pool" and now: "0 \<le> now" and n: "0 < n"
    and cap: "n * KETAMA_POINTS_PER_SERVER \<le> length c"
  shows "ketama_build auto now W n 0 ss c 0 0 = Some (R @ drop (length R) c, length R, length R)"
    and "0 < length R" "length R \<le> 160 * n"
    and "\<forall>p \<in> set R. index p < length ss \<and> live auto now (ss ! index p)"
proof -
  let ?pps = "\<lambda>s. pointer_per_server (weight s) W n"
  have "n \<le> length (servers pool)" by (simp add: n_def ls_def)
  then have "n \<le> MAX_LIVE" using ok by (simp add: ketama_pool_ok_def)
  moreover have "(\<Sum>s \<leftarrow> ls. unat (weight s)) < 2 ^ 32"
    using ok sum_list_filter_le [of "\<lambda>s. unat (weight s)" "live auto now" "servers pool"]
    by (simp add: ketama_pool_ok_def ls_def)
  ultimately have lp: "\<forall>s \<in> set ls. 4 * (?pps s div 4) = ?pps s \<and> ?pps s div 4 \<le> 10 ^ 10"
    "0 < (\<Sum>s \<leftarrow> ls. ?pps s)" "(\<Sum>s \<leftarrow> ls. ?pps s) \<le> 160 * n"
    using live_pointers [of ls] ok n by (auto simp: ketama_pool_ok_def ls_def n_def W_def)
  have each: "length (sname s) \<le> 75 \<and> ?pps s div 4 \<le> 10 ^ 10 \<and> 4 * (?pps s div 4) = ?pps s"
    if "s \<in> set ss" "\<not> skip_server auto now s" for s
    using that now lp(1) ok by (auto simp: ss_def ls_def live_def ketama_pool_ok_def)
  have pts: "length (ketama_pts W n i s) = ?pps s \<and> (\<forall>p \<in> set (ketama_pts W n i s). index p = i)"
    if "s \<in> set ss" "\<not> skip_server auto now s" for i s
    using each [OF that] ketama_server_points_Some [of "sname s" "?pps s div 4" i] by (auto simp: ketama_pts_def)
  have fl: "filter (live auto now) ss = map (refresh auto now) ls"
    by (simp add: ss_def ls_def filter_live_refresh [OF now])
  have lenR: "length R = (\<Sum>s \<leftarrow> ls. ?pps s)"
    using length_live_points [of ss auto now "ketama_pts W n" ?pps 0] pts by (simp add: R_def fl comp_def)
  then show "0 < length R" "length R \<le> 160 * n" using lp by simp_all
  show "\<forall>p \<in> set R. index p < length ss \<and> live auto now (ss ! index p)"
    using live_points_index [of ss auto now "ketama_pts W n" _ 0] pts by (auto simp: R_def live_def)
  have "(\<Sum>s \<leftarrow> filter (live auto now) ss. 4 * (?pps s div 4)) = length R"
    using lp(1) by (simp add: fl lenR comp_def cong: map_cong)
  moreover have "length R \<le> length c"
    using \<open>length R \<le> 160 * n\<close> cap by (simp add: KETAMA_POINTS_PER_SERVER_def)
  ultimately show "ketama_build auto now W n 0 ss c 0 0 = Some (R @ drop (length R) c, length R, length R)"
    using ketama_build_eq [of ss auto now W n 0 c 0 0] each
    by (simp add: R_def [symmetric] fl comp_def lenR)
qed

lemma ketama_update_cases:
  fixes pool now
  defines "n \<equiv> length (filter (live (auto_eject_hosts pool) now) (servers pool))"
  assumes ok: "ketama_pool_ok pool" and now: "0 \<le> now"
  shows "n = 0 \<or> n > nserver_continuum pool \<and> \<not> mem \<Longrightarrow>
      ketama_update mem now pool = Some (if n = 0 then NC_OK else NC_ENOMEM, scanned now pool)"
    and "ketama_pool_ok (scanned now pool)"
    and "0 < n \<Longrightarrow> n \<le> nserver_continuum pool \<or> mem \<Longrightarrow>
      \<exists>c k nsc. ketama_update mem now pool = Some (NC_OK, with_slots c k nsc (scanned now pool)) \<and>
        nserver_continuum pool \<le> nsc \<and> n \<le> nsc \<and> ketama_pool_ok (with_slots c k nsc (scanned now pool)) \<and>
        ring_ok now (with_slots c k nsc (scanned now pool)) \<and> k \<le> KETAMA_POINTS_PER_SERVER * n \<and>
        take k c = sort_key cvalue (live_points (ketama_pts (sum_list (map weight
          (filter (live (auto_eject_hosts pool) now) (servers pool)))) n) (auto_eject_hosts pool) now 0
          (servers (scanned now pool)))"
proof -
  define auto where "auto = auto_eject_hosts pool"
  define ls where "ls = filter (live auto now) (servers pool)"
  define ss where "ss = map (refresh auto now) (servers pool)"
  define W where "W = sum_list (map weight ls)"
  define R where "R = live_points (ketama_pts W n) auto now 0 ss"
  define pool2 where "pool2 = (if n > nserver_continuum pool
     then (scanned now pool)\<lparr>continuum := realloc_slots ((n + KETAMA_CONTINUUM_ADDITION) * KETAMA_POINTS_PER_SERVER) (continuum pool),
                nserver_continuum := n + KETAMA_CONTINUUM_ADDITION\<rparr>
     else scanned now pool)"
  have scan: "live_scan (auto_eject_hosts pool) now (servers pool)
      = (servers (scanned now pool), n, W, next_rebuild (scanned now pool))"
    by (simp add: live_scan_scanned [OF now] n_def W_def ls_def auto_def)
  show ok1: "ketama_pool_ok (scanned now pool)"
    using ok by (auto simp: ketama_pool_ok_def comp_def)
  have asserts: "servers pool \<noteq> []" "weights_ok (servers pool)"
    using ok by (simp_all add: ketama_pool_ok_def weights_ok_def list_all_iff)
  show "ketama_update mem now pool = Some (if n = 0 then NC_OK else NC_ENOMEM, scanned now pool)"
    if "n = 0 \<or> n > nserver_continuum pool \<and> \<not> mem"
    using that now asserts unfolding ketama_update_def scan Let_def prod.case scanned_fold [of pool now, folded n_def] by auto
  assume "0 < n" and alloc: "n \<le> nserver_continuum pool \<or> mem"
  have ok2: "ketama_pool_ok pool2" "n * KETAMA_POINTS_PER_SERVER \<le> length (continuum pool2)"
    using ok1 by (auto simp: ketama_pool_ok_def pool2_def realloc_slots_def KETAMA_POINTS_PER_SERVER_def
        KETAMA_CONTINUUM_ADDITION_def)
  have sel: "servers pool2 = ss" "auto_eject_hosts pool2 = auto" "servers (scanned now pool) = ss"
    "nserver_continuum (scanned now pool) = nserver_continuum pool" "continuum (scanned now pool) = continuum pool"
    by (simp_all add: pool2_def auto_def ss_def)
  have "n = length ls" by (simp add: n_def ls_def auto_def)
  note ring = ketama_ring [OF ok now, folded auto_def, folded ls_def, folded this, OF \<open>0 < n\<close> ok2(2),
      folded W_def ss_def, folded R_def]
  define c where "c = qsort ketama_item_cmp (length R) (R @ drop (length R) (continuum pool2))"
  have len: "length R \<le> length (continuum pool2)"
    using ring(3) ok2(2) by (simp add: KETAMA_POINTS_PER_SERVER_def)
  have p2: "pool2\<lparr>ncontinuum := length R, continuum := c\<rparr>
      = with_slots c (length R) (nserver_continuum pool2) (scanned now pool)"
    by (simp add: with_slots_def pool2_def)
  have "ketama_update mem now pool = Some (NC_OK, pool2\<lparr>ncontinuum := length R, continuum := c\<rparr>)"
    using now alloc asserts \<open>0 < n\<close> ring(1) ketama_sorted_sort [OF len, of n]
    unfolding ketama_update_def scan Let_def prod.case scanned_fold [of pool now, folded n_def]
    unfolding sel(4,5) pool2_def [symmetric]
    unfolding sel(2,3) by (auto simp: c_def qsort_ketama)
  moreover have "nserver_continuum pool \<le> nserver_continuum pool2" "n \<le> nserver_continuum pool2"
    by (simp_all add: pool2_def)
  moreover have "ketama_pool_ok (pool2\<lparr>ncontinuum := length R, continuum := c\<rparr>)"
    using ok2(1) len by (simp add: ketama_pool_ok_def c_def qsort_ketama)
  moreover have "ring_ok now (pool2\<lparr>ncontinuum := length R, continuum := c\<rparr>)"
    using ring(2,4) len by (auto simp: ring_ok_def c_def qsort_ketama sel ring_sorted_def)
  ultimately show "\<exists>c k nsc. ketama_update mem now pool = Some (NC_OK, with_slots c k nsc (scanned now pool)) \<and>
        nserver_continuum pool \<le> nsc \<and> n \<le> nsc \<and> ketama_pool_ok (with_slots c k nsc (scanned now pool)) \<and>
        ring_ok now (with_slots c k nsc (scanned now pool)) \<and> k \<le> KETAMA_POINTS_PER_SERVER * n \<and>
        take k c = sort_key cvalue (live_points (ketama_pts (sum_list (map weight
          (filter (live (auto_eject_hosts pool) now) (servers pool)))) n) (auto_eject_hosts pool) now 0
          (servers (scanned now pool)))"
    using ring(3) len unfolding p2
    by (intro exI [of _ c] exI [of _ "length R"] exI [of _ "nserver_continuum pool2"])
      (simp add: KETAMA_POINTS_PER_SERVER_def c_def qsort_ketama R_def ss_def W_def ls_def auto_def)
qed

text \<open>
  C12: rebuilding a ketama pool is safe and leaves a usable ring.  For up to 20000 servers of
  positive weight with names of at most 75 bytes, \<^const>\<open>ketama_update\<close> never writes past the
  allocated continuum, although the number of points of a server is computed in
  single-precision floating point: the points never exceed 160 per live server.  If it
  returns \<open>NC_OK\<close> with a live server, the ring is sorted and non-empty and every point
  belongs to a server that is live at the time of the rebuild.
\<close>
theorem ketama_update_sound:
  assumes "ketama_pool_ok pool"
  shows "\<exists>st pool'. ketama_update mem now pool = Some (st, pool') \<and> ketama_pool_ok pool' \<and>
     (st = NC_OK \<and> 0 < nlive_server pool' \<longrightarrow>
        ring_ok now pool' \<and> ncontinuum pool' \<le> KETAMA_POINTS_PER_SERVER * nlive_server pool')"
proof (cases "now < 0")
  case True
  then show ?thesis using assms by (simp add: ketama_update_def ketama_pool_ok_def)
next
  case False
  then show ?thesis
    using ketama_update_cases(1,3) [OF assms, of now mem] ketama_update_cases(2) [OF assms, of now]
    by (cases "nlive_server (scanned now pool) = 0 \<or> nlive_server (scanned now pool) > nserver_continuum pool \<and> \<not> mem")
      (auto simp: with_slots_def)
qed

definition example_server :: "bytes \<Rightarrow> int \<Rightarrow> server" where
  "example_server nm retry = \<lparr>pname = nm, sname = nm, weight = 1, ns_conn_q = 0, s_conn_q = [], next_retry = retry,
     failure_count = 0\<rparr>"

definition example_pool :: "dist_type \<Rightarrow> server list \<Rightarrow> server_pool" where
  "example_pool dt ss = \<lparr>servers = ss, ncontinuum = 0, nserver_continuum = 0, continuum = [],
     nlive_server = 0, next_rebuild = 0, dist_type = dt, key_hash = (\<lambda>k. 0), hash_tag = [],
     server_connections = 1, server_retry_timeout = 30000000, server_failure_limit = 2,
     auto_eject_hosts = True, nc_conn_q = 0, c_conn_q = [], client_connections = 1024,
     pool_timeout = -1, preconnect = False\<rparr>"

theorem ketama_update_sound_witness:
  "\<exists>st pool'. ketama_update True 100
      (example_pool DIST_KETAMA [example_server ''a'' 0, example_server ''b'' 500]) = Some (st, pool') \<and>
     ketama_pool_ok pool' \<and>
     (st = NC_OK \<and> 0 < nlive_server pool' \<longrightarrow>
        ring_ok 100 pool' \<and> ncontinuum pool' \<le> KETAMA_POINTS_PER_SERVER * nlive_server pool')"
  by (rule ketama_update_sound)
    (simp add: ketama_pool_ok_def example_pool_def example_server_def MAX_LIVE_def)

subsection \<open>Proportional points\<close>

text \<open>The points of one live server among those of all.\<close>

lemma live_points_of:
  assumes "\<And>i s p. s \<in> set ss \<Longrightarrow> \<not> skip_server auto now s \<Longrightarrow> p \<in> set (pts i s) \<Longrightarrow> index p = i"
    and "j < length ss" "\<not> skip_server auto now (ss ! j)"
  shows "filter (\<lambda>p. index p = si + j) (live_points pts auto now si ss) = pts (si + j) (ss ! j)"
  using assms
proof (induction ss arbitrary: j si)
  case (Cons s ss)
  have rest: "filter (\<lambda>p. index p = k) (live_points pts auto now (si + 1) ss) = []" if "k \<le> si" for k
    using live_points_index [of ss auto now pts _ "si + 1"] Cons.prems(1) that by (fastforce simp: filter_empty_conv)
  have here: "filter (\<lambda>p. index p = k) (pts si s) = (if k = si then pts si s else [])"
    if "\<not> skip_server auto now s" for k
    using Cons.prems(1) [of s _ si] that by (auto simp: filter_id_conv filter_empty_conv)
  show ?case
  proof (cases j)
    case 0
    then show ?thesis using Cons.prems(3) here rest [of si] by simp
  next
    case (Suc m)
    have "filter (\<lambda>p. index p = si + 1 + m) (live_points pts auto now (si + 1) ss) = pts (si + 1 + m) (ss ! m)"
      by (rule Cons.IH) (use Cons.prems Suc in auto)
    then show ?thesis using Suc here by simp
  qed
qed simp

text \<open>What a ketama rebuild leaves for a live server: exactly its points, in the order of the ring.\<close>

lemma ketama_update_points:
  fixes pool now
  defines "ls \<equiv> filter (live (auto_eject_hosts pool) now) (servers pool)"
  assumes ok: "ketama_pool_ok pool" and now: "0 \<le> now" and upd: "ketama_update mem now pool = Some (NC_OK, pool')"
    and i: "i < length (servers pool)" "live (auto_eject_hosts pool) now (servers pool ! i)"
  shows "filter (\<lambda>p. index p = i) (take (ncontinuum pool') (continuum pool'))
      = sort_key cvalue (ketama_pts (sum_list (map weight ls)) (length ls) i (servers pool ! i))"
    and "length (ketama_pts (sum_list (map weight ls)) (length ls) i (servers pool ! i))
      = pointer_per_server (weight (servers pool ! i)) (sum_list (map weight ls)) (length ls)"
    and "servers pool ! i \<in> set ls"
proof -
  let ?auto = "auto_eject_hosts pool" and ?pts = "ketama_pts (sum_list (map weight ls)) (length ls)"
  show s: "servers pool ! i \<in> set ls" using i by (simp add: ls_def)
  then have ls: "ls \<noteq> []" "0 < length ls" by auto
  have lp: "4 * (pointer_per_server (weight s) (sum_list (map weight ls)) (length ls) div 4)
        = pointer_per_server (weight s) (sum_list (map weight ls)) (length ls) \<and>
      pointer_per_server (weight s) (sum_list (map weight ls)) (length ls) div 4 \<le> 10 ^ 10" if "s \<in> set ls" for s
    using live_pointers(1) [of ls] ls(1) ok that le_trans [OF length_filter_le, of "servers pool" MAX_LIVE]
      le_less_trans [OF sum_list_filter_le, of "\<lambda>s. unat (weight s)" "servers pool"]
    by (simp add: ketama_pool_ok_def ls_def)
  have pts: "length (?pts k t) = pointer_per_server (weight s) (sum_list (map weight ls)) (length ls) \<and>
      (\<forall>p \<in> set (?pts k t). index p = k)" if "s \<in> set ls" "weight t = weight s" "sname t = sname s" for k s t
  proof -
    have "length (sname s) \<le> 75" using that(1) ok by (simp add: ketama_pool_ok_def ls_def)
    from ketama_server_points_Some [OF this conjunct2 [OF lp [OF that(1)]], of k] show ?thesis
      using lp [OF that(1)] that(2,3) by (auto simp: ketama_pts_def)
  qed
  show "length (?pts i (servers pool ! i)) = pointer_per_server (weight (servers pool ! i)) (sum_list (map weight ls)) (length ls)"
    using pts [OF s] by simp
  have "\<not> (length ls > nserver_continuum pool \<and> \<not> mem)"
    using ketama_update_cases(1) [OF ok now, of mem] upd ls(2) by (auto simp: ls_def)
  then have "length ls \<le> nserver_continuum pool \<or> mem" by linarith
  from ketama_update_cases(3) [OF ok now, of mem] this ls(2) upd obtain c k nsc where
    p': "pool' = with_slots c k nsc (scanned now pool)" and
    tk: "take k c = sort_key cvalue (live_points ?pts ?auto now 0 (servers (scanned now pool)))"
    unfolding ls_def [symmetric] by auto
  have "filter (\<lambda>p. index p = 0 + i) (live_points ?pts ?auto now 0 (servers (scanned now pool)))
      = ?pts (0 + i) (servers (scanned now pool) ! i)"
  proof (rule live_points_of)
    show "\<not> skip_server ?auto now (servers (scanned now pool) ! i)" using i now by (simp add: live_def)
    fix k t p assume t: "t \<in> set (servers (scanned now pool))" "\<not> skip_server ?auto now t" "p \<in> set (?pts k t)"
    then obtain u where "u \<in> set (servers pool)" "t = refresh ?auto now u" by auto
    then have "u \<in> set ls" "weight t = weight u" "sname t = sname u" using t(2) now by (auto simp: ls_def live_def)
    from pts [OF this] t(3) show "index p = k" by blast
  qed (use i in simp)
  moreover have "?pts i (servers (scanned now pool) ! i) = ?pts i (servers pool ! i)"
    using i(1) by (simp add: ketama_pts_def)
  ultimately show "filter (\<lambda>p. index p = i) (take (ncontinuum pool') (continuum pool'))
      = sort_key cvalue (?pts i (servers pool ! i))"
    unfolding p' with_slots_sel tk by (simp add: filter_sort)
qed

text \<open>160 points per live server, divided in proportion to the weights.\<close>

definition proportional_points :: "int \<Rightarrow> server_pool \<Rightarrow> nat \<Rightarrow> rat" where
  "proportional_points now pool i = (let ls = filter (live (auto_eject_hosts pool) now) (servers pool) in
     160 * of_nat (length ls) * (of_nat (unat (weight (servers pool ! i))) / of_nat (\<Sum>s \<leftarrow> ls. unat (weight s))))"

lemma pointer_per_server_bounds:
  fixes total_weight w :: u32 and nlive :: nat
  defines "q \<equiv> of_nat nlive * (of_nat (unat w) / of_nat (unat total_weight)) :: rat"
  assumes "0 < total_weight" "w \<le> total_weight" "nlive \<le> MAX_LIVE"
  shows "160 * q * (1 - 1 / 10 ^ 6) - 4 < of_nat (pointer_per_server w total_weight nlive)"
    and "of_nat (pointer_per_server w total_weight nlive) \<le> 160 * q * (1 + 1 / 10 ^ 6) + 1 / 10 ^ 8"
proof -
  let ?s = "ketama_share w total_weight nlive"
  have s: "40 * q * (1 - 1 / 10 ^ 6) \<le> ?s" "?s \<le> 40 * q * (1 + 1 / 10 ^ 6) + 1 / 10 ^ 9"
    using ketama_share_ge [OF assms(2), of nlive w] ketama_share_le [OF assms(2), of w nlive]
    unfolding q_def by (simp_all only: mult.assoc)
  have "0 \<le> \<lfloor>?s\<rfloor>" using ketama_share_nonneg [of w total_weight nlive] by simp
  then have p: "(of_nat (pointer_per_server w total_weight nlive) :: rat) = 4 * of_int \<lfloor>?s\<rfloor>"
    unfolding pointer_per_server_floor [OF assms(2-4)] by (simp add: of_nat_nat)
  have f: "of_int \<lfloor>?s\<rfloor> \<le> ?s" "?s < of_int \<lfloor>?s\<rfloor> + 1" by linarith+
  have "160 * q * (1 - 1 / 10 ^ 6) - 4 = 4 * (40 * q * (1 - 1 / 10 ^ 6)) - 4" by simp
  also have "\<dots> < 4 * of_int \<lfloor>?s\<rfloor>" using s(1) f(2) by linarith
  finally show "160 * q * (1 - 1 / 10 ^ 6) - 4 < of_nat (pointer_per_server w total_weight nlive)" unfolding p .
  have "4 * of_int \<lfloor>?s\<rfloor> \<le> 4 * (40 * q * (1 + 1 / 10 ^ 6) + 1 / 10 ^ 9)"
    by (rule mult_left_mono [OF order_trans [OF f(1) s(2)]]) simp
  also have "\<dots> \<le> 160 * q * (1 + 1 / 10 ^ 6) + 1 / 10 ^ 8" by simp
  finally show "of_nat (pointer_per_server w total_weight nlive) \<le> 160 * q * (1 + 1 / 10 ^ 6) + 1 / 10 ^ 8" unfolding p .
qed



text \<open>
  The rounding down is visible.  With 24 servers of equal weight every server gets its 160
  points; with 25 it gets 156, because the share evaluates to slightly less than 40 and the
  added constant is too small to survive the conversion back to single precision.
\<close>

lemma ketama_equal_weights_lose_points:
  "pointer_per_server 1 24 24 = 160 \<and> pointer_per_server 1 25 25 = 156"
  by code_simp

subsection \<open>Consistent hashing\<close>

lemma find_filter_keep:
  assumes "find P xs = Some x" "Q x"
  shows "find P (filter Q xs) = Some x"
  using assms by (induction xs) (auto split: if_splits)

lemma find_filter_None: "find P xs = None \<Longrightarrow> find P (filter Q xs) = None"
  by (induction xs) (auto split: if_splits)

lemma ring_successor_filter:
  assumes "ps \<noteq> []" "Q (ring_successor ps hash)"
  shows "ring_successor (filter Q ps) hash = ring_successor ps hash"
proof (cases "find (\<lambda>p. hash \<le> cvalue p) ps")
  case None
  with assms have "Q (hd ps)" by (simp add: ring_successor_def)
  then have "hd (filter Q ps) = hd ps" using assms(1) by (cases ps) auto
  with None show ?thesis by (simp add: ring_successor_def find_filter_None)
next
  case (Some p)
  with assms show ?thesis by (simp add: ring_successor_def find_filter_keep)
qed

lemma ring_sorted_filter: "ring_sorted ps \<Longrightarrow> ring_sorted (filter Q ps)"
  by (simp add: ring_sorted_def sorted_filter)

text \<open>
  C13: ketama is consistent.  If the ring of a pool loses exactly the points of one server
  \<open>j\<close>, every hash that was not dispatched to \<open>j\<close> keeps its server; only the keys of the
  ejected server move.
\<close>
theorem ketama_dispatch_minimal_disruption:
  assumes "ring_sorted (take n c)" "n \<le> length c" "0 < n"
    and "take m c' = filter (\<lambda>p. index p \<noteq> j) (take n c)" "m \<le> length c'" "0 < m"
    and "ketama_dispatch c n hash \<noteq> j"
  shows "ketama_dispatch c' m hash = ketama_dispatch c n hash"
proof -
  have "ketama_dispatch c n hash = index (ring_successor (take n c) hash)"
    by (rule ketama_dispatch_ring_aux [OF assms(1-3)])
  moreover have "ketama_dispatch c' m hash = index (ring_successor (take m c') hash)"
    using assms(1,4-6) by (intro ketama_dispatch_ring_aux) (simp_all add: ring_sorted_filter)
  moreover have "take n c \<noteq> []" using assms(2,3) by auto
  ultimately show ?thesis using assms(4,7) ring_successor_filter [of "take n c" "\<lambda>p. index p \<noteq> j" hash] by simp
qed

definition example_ring :: "cpoint list" where
  "example_ring = [\<lparr>index = 0, cvalue = 5\<rparr>, \<lparr>index = 1, cvalue = 9\<rparr>, \<lparr>index = 2, cvalue = 30\<rparr>]"

theorem ketama_dispatch_minimal_disruption_witness:
  "ketama_dispatch (filter (\<lambda>p. index p \<noteq> 1) example_ring) 2 12 = ketama_dispatch example_ring 3 12"
  by (rule ketama_dispatch_minimal_disruption [where j = 1])
    (simp_all add: example_ring_def ring_sorted_def ketama_dispatch_def ketama_search.simps Let_def)

subsection \<open>Modula and random\<close>

definition plain_pts :: "(server \<Rightarrow> nat) \<Rightarrow> nat \<Rightarrow> server \<Rightarrow> cpoint list" where
  "plain_pts rep si s = replicate (rep s) \<lparr>index = si, cvalue = 0\<rparr>"

lemma plain_build_eq:
  assumes "ci + (\<Sum>s \<leftarrow> filter (live auto now) ss. rep s) \<le> length c"
  shows "plain_build rep auto now si ss c ci =
     (let R = live_points (plain_pts rep) auto now si ss in
      Some (take ci c @ R @ drop (ci + length R) c, ci + length R))"
  using assms
proof (induction ss arbitrary: si c ci)
  case (Cons s ss)
  show ?case
  proof (cases "skip_server auto now s")
    case True
    then have nl: "\<not> live auto now s" by (simp add: live_def)
    have "ci + (\<Sum>s \<leftarrow> filter (live auto now) ss. rep s) \<le> length c" using Cons.prems nl by simp
    from Cons.IH [OF this, of "si + 1"] True show ?thesis by simp
  next
    case False
    then have lv: "live auto now s" by (simp add: live_def)
    define ps where "ps = plain_pts rep si s"
    define c' where "c' = take ci c @ ps @ drop (ci + length ps) c"
    define R where "R = live_points (plain_pts rep) auto now (si + 1) ss"
    have lp: "length ps = rep s" by (simp add: ps_def plain_pts_def)
    have lR: "length R = (\<Sum>s \<leftarrow> filter (live auto now) ss. rep s)"
      unfolding R_def by (rule length_live_points) (simp add: plain_pts_def)
    have fits: "ci + length ps + length R \<le> length c" using Cons.prems lv lp lR by simp
    then have c': "write_points c ci ps = Some c'" "length c' = length c"
      by (simp_all add: write_points_eq c'_def)
    note splice = splice_splice [OF fits, folded c'_def]
    have "plain_build rep auto now si (s # ss) c ci = plain_build rep auto now (si + 1) ss c' (ci + length ps)"
      using False c'(1) lp by (simp add: ps_def plain_pts_def)
    also have "\<dots> = Some (take (ci + length ps) c' @ R @ drop (ci + length ps + length R) c', ci + length ps + length R)"
      using Cons.IH [of "ci + length ps" c' "si + 1"] fits c'(2) lR by (simp add: Let_def R_def)
    finally show ?thesis
      using False unfolding splice by (simp add: Let_def R_def ps_def add.assoc)
  qed
qed simp

definition plain_pool_ok :: "server_pool \<Rightarrow> bool" where
  "plain_pool_ok pool \<longleftrightarrow>
     length (continuum pool) = nserver_continuum pool \<and> ncontinuum pool \<le> nserver_continuum pool \<and>
     (\<Sum>s \<leftarrow> servers pool. unat (weight s)) + MODULA_CONTINUUM_ADDITION < 2 ^ 32 \<and>
     (\<forall>s \<in> set (servers pool). 0 < weight s)"

text \<open>The slots in use: one run per live server, of the server's index.\<close>

definition plain_slots :: "(server \<Rightarrow> nat) \<Rightarrow> int \<Rightarrow> server_pool \<Rightarrow> bool" where
  "plain_slots rep now pool \<longleftrightarrow>
     take (ncontinuum pool) (continuum pool)
       = live_points (plain_pts rep) (auto_eject_hosts pool) now 0 (servers pool) \<and>
     ncontinuum pool = (\<Sum>s \<leftarrow> filter (live (auto_eject_hosts pool) now) (servers pool). rep s) \<and>
     ncontinuum pool \<le> length (continuum pool)"

lemma plain_finish:
  assumes "(\<Sum>s \<leftarrow> filter (live (auto_eject_hosts pool) now) (servers pool). rep s) \<le> length (continuum pool)"
  obtains c counter where
    "plain_build rep (auto_eject_hosts pool) now 0 (servers pool) (continuum pool) 0 = Some (c, counter)"
    "length c = length (continuum pool)"
    "plain_slots rep now (pool\<lparr>ncontinuum := counter, continuum := c\<rparr>)"
proof -
  define R where "R = live_points (plain_pts rep) (auto_eject_hosts pool) now 0 (servers pool)"
  have lR: "length R = (\<Sum>s \<leftarrow> filter (live (auto_eject_hosts pool) now) (servers pool). rep s)"
    unfolding R_def by (rule length_live_points) (simp add: plain_pts_def)
  have "plain_build rep (auto_eject_hosts pool) now 0 (servers pool) (continuum pool) 0
      = Some (R @ drop (length R) (continuum pool), length R)"
    using plain_build_eq [where ci = 0 and si = 0 and c = "continuum pool" and ss = "servers pool"] assms
    by (simp add: R_def Let_def)
  moreover have "plain_slots rep now (pool\<lparr>ncontinuum := length R, continuum := R @ drop (length R) (continuum pool)\<rparr>)"
    using lR by (simp add: plain_slots_def R_def)
  ultimately show ?thesis using that lR assms by simp
qed

lemma scanned_plain:
  fixes pool now
  assumes "0 \<le> now" "plain_pool_ok pool"
  defines "ls \<equiv> filter (live (auto_eject_hosts pool) now) (servers pool)"
  shows "plain_pool_ok (scanned now pool)"
    and "unat (sum_list (map weight ls)) = (\<Sum>s \<leftarrow> ls. unat (weight s))"
    and "(\<Sum>s \<leftarrow> ls. unat (weight s)) + MODULA_CONTINUUM_ADDITION < 2 ^ 32"
    and "ls \<noteq> [] \<Longrightarrow> 0 < (\<Sum>s \<leftarrow> ls. unat (weight s))"
proof -
  show "plain_pool_ok (scanned now pool)" using assms(2) by (auto simp: plain_pool_ok_def comp_def)
  show le: "(\<Sum>s \<leftarrow> ls. unat (weight s)) + MODULA_CONTINUUM_ADDITION < 2 ^ 32"
    using assms(2) sum_list_filter_le [of "\<lambda>s. unat (weight s)" "live (auto_eject_hosts pool) now" "servers pool"]
    by (simp add: plain_pool_ok_def ls_def)
  then show "unat (sum_list (map weight ls)) = (\<Sum>s \<leftarrow> ls. unat (weight s))"
    using unat_sum_list [of "map weight ls"] by (simp add: comp_def)
  assume "ls \<noteq> []"
  then obtain s where s: "s \<in> set ls" by (cases ls) auto
  then have "0 < unat (weight s)" using assms(2) by (auto simp: plain_pool_ok_def ls_def unat_gt_0 word_gt_0)
  also have "\<dots> \<le> (\<Sum>s \<leftarrow> ls. unat (weight s))" using s by (intro member_le_sum_list) auto
  finally show "0 < (\<Sum>s \<leftarrow> ls. unat (weight s))" .
qed

text \<open>The common shape of the two updates: \<open>need\<close> slots are required, \<open>grow\<close> are allocated.\<close>

definition plain_update ::
  "(server list \<Rightarrow> bool) \<Rightarrow> (server \<Rightarrow> nat) \<Rightarrow> (u32 \<Rightarrow> nat \<Rightarrow> nat) \<Rightarrow> (u32 \<Rightarrow> nat \<Rightarrow> nat) \<Rightarrow> bool \<Rightarrow> int \<Rightarrow> server_pool
    \<Rightarrow> (rstatus \<times> server_pool) option" where
  "plain_update chk rep need grow mem now pool =
     (if now < 0 then Some (NC_ERROR, pool)
      else if \<not> chk (servers pool) then None
      else case live_scan (auto_eject_hosts pool) now (servers pool) of
        (ss, nlive, W, rebuild) \<Rightarrow>
          let pool1 = pool\<lparr>servers := ss, next_rebuild := rebuild, nlive_server := nlive\<rparr> in
          if nlive = 0 then
            if continuum pool1 = [] \<or> ncontinuum pool1 = 0 then None else Some (NC_OK, pool1)
          else if need W nlive > nserver_continuum pool1 \<and> \<not> mem then Some (NC_ENOMEM, pool1)
          else
            let pool2 = (if need W nlive > nserver_continuum pool1
                  then pool1\<lparr>continuum := realloc_slots (grow W nlive) (continuum pool1),
                             nserver_continuum := grow W nlive\<rparr>
                  else pool1) in
            (case plain_build rep (auto_eject_hosts pool2) now 0 ss (continuum pool2) 0 of
               None \<Rightarrow> None
             | Some (c, counter) \<Rightarrow> Some (NC_OK, pool2\<lparr>ncontinuum := counter, continuum := c\<rparr>)))"

lemma modula_update_plain:
  "modula_update = plain_update weights_ok (\<lambda>s. unat (weight s)) (\<lambda>W n. unat W)
     (\<lambda>W n. unat (W + of_nat MODULA_CONTINUUM_ADDITION))"
  unfolding modula_update_def plain_update_def Let_def by (intro ext) simp

lemma random_update_plain:
  "random_update = plain_update (\<lambda>ss. True) (\<lambda>s. 1) (\<lambda>W n. n) (\<lambda>W n. n + RANDOM_CONTINUUM_ADDITION)"
  unfolding random_update_def plain_update_def Let_def by (intro ext) simp

lemma plain_update_cases:
  fixes pool now
  defines "ls \<equiv> filter (live (auto_eject_hosts pool) now) (servers pool)"
  defines "W \<equiv> sum_list (map weight ls)" and "n \<equiv> length ls"
  assumes ok: "plain_pool_ok pool" and now: "0 \<le> now" and chk: "chk (servers pool)"
    and rep: "\<And>s auto. rep (refresh auto now s) = rep s"
    and need: "need W n = (\<Sum>s \<leftarrow> ls. rep s)" "need W n \<le> grow W n"
  shows "n = 0 \<Longrightarrow> plain_update chk rep need grow mem now pool
      = (if ncontinuum pool = 0 then None else Some (NC_OK, scanned now pool))"
    and "0 < n \<Longrightarrow> need W n > nserver_continuum pool \<Longrightarrow> \<not> mem \<Longrightarrow>
      plain_update chk rep need grow mem now pool = Some (NC_ENOMEM, scanned now pool)"
    and "0 < n \<Longrightarrow> need W n \<le> nserver_continuum pool \<or> mem \<Longrightarrow>
      \<exists>c k nsc. plain_update chk rep need grow mem now pool = Some (NC_OK, with_slots c k nsc (scanned now pool)) \<and>
        nserver_continuum pool \<le> nsc \<and> plain_pool_ok (with_slots c k nsc (scanned now pool)) \<and>
        plain_slots rep now (with_slots c k nsc (scanned now pool)) \<and> k = (\<Sum>s \<leftarrow> ls. rep s)"
proof -
  define pool2 where "pool2 = (if need W n > nserver_continuum pool
     then (scanned now pool)\<lparr>continuum := realloc_slots (grow W n) (continuum pool), nserver_continuum := grow W n\<rparr>
     else scanned now pool)"
  have scan: "live_scan (auto_eject_hosts pool) now (servers pool)
      = (servers (scanned now pool), n, W, next_rebuild (scanned now pool))"
    by (simp add: live_scan_scanned [OF now] n_def W_def ls_def)
  note fold = scanned_fold [of pool now, folded ls_def, folded n_def]
  have built: "continuum pool = [] \<Longrightarrow> ncontinuum pool = 0" using ok by (simp add: plain_pool_ok_def)
  show "plain_update chk rep need grow mem now pool
      = (if ncontinuum pool = 0 then None else Some (NC_OK, scanned now pool))" if "n = 0"
    using that now chk built unfolding plain_update_def scan Let_def prod.case fold by auto
  show "plain_update chk rep need grow mem now pool = Some (NC_ENOMEM, scanned now pool)"
    if "0 < n" "need W n > nserver_continuum pool" "\<not> mem"
    using that now chk unfolding plain_update_def scan Let_def prod.case fold by auto
  assume "0 < n" and alloc: "need W n \<le> nserver_continuum pool \<or> mem"
  have sel: "servers pool2 = servers (scanned now pool)" "auto_eject_hosts pool2 = auto_eject_hosts pool"
    "nserver_continuum (scanned now pool) = nserver_continuum pool" "continuum (scanned now pool) = continuum pool"
    by (simp_all add: pool2_def)
  have sum: "(\<Sum>s \<leftarrow> filter (live (auto_eject_hosts pool2) now) (servers pool2). rep s) = need W n"
    by (simp add: sel filter_live_refresh [OF now] comp_def rep need ls_def)
  have ok2: "plain_pool_ok pool2" and fits: "need W n \<le> length (continuum pool2)"
    using scanned_plain(1) [OF now ok] need(2) by (auto simp: pool2_def plain_pool_ok_def realloc_slots_def)
  obtain c k where build:
    "plain_build rep (auto_eject_hosts pool) now 0 (servers (scanned now pool)) (continuum pool2) 0 = Some (c, k)"
    "length c = length (continuum pool2)" "plain_slots rep now (pool2\<lparr>ncontinuum := k, continuum := c\<rparr>)"
    by (rule plain_finish [of rep pool2 now, unfolded sum, OF fits, unfolded sel(1,2)])
  have p2: "pool2\<lparr>ncontinuum := k, continuum := c\<rparr> = with_slots c k (nserver_continuum pool2) (scanned now pool)"
    by (simp add: with_slots_def pool2_def)
  have "plain_update chk rep need grow mem now pool = Some (NC_OK, pool2\<lparr>ncontinuum := k, continuum := c\<rparr>)"
    using now chk alloc \<open>0 < n\<close> build(1)
    unfolding plain_update_def scan Let_def prod.case fold
    unfolding sel(3,4) pool2_def [symmetric]
    unfolding sel(2) by auto
  moreover have "k = (\<Sum>s \<leftarrow> ls. rep s)"
    using build(3) sum need(1) by (simp add: plain_slots_def sel)
  moreover have "nserver_continuum pool \<le> nserver_continuum pool2" using need(2) by (auto simp: pool2_def)
  moreover have "plain_pool_ok (pool2\<lparr>ncontinuum := k, continuum := c\<rparr>)"
    using ok2 build(2,3) by (simp add: plain_pool_ok_def plain_slots_def)
  ultimately show "\<exists>c k nsc. plain_update chk rep need grow mem now pool = Some (NC_OK, with_slots c k nsc (scanned now pool)) \<and>
        nserver_continuum pool \<le> nsc \<and> plain_pool_ok (with_slots c k nsc (scanned now pool)) \<and>
        plain_slots rep now (with_slots c k nsc (scanned now pool)) \<and> k = (\<Sum>s \<leftarrow> ls. rep s)"
    using build(3) unfolding p2 by blast
qed

lemma modula_need:
  assumes "0 \<le> now" "plain_pool_ok pool"
  defines "ls \<equiv> filter (live (auto_eject_hosts pool) now) (servers pool)"
  shows "unat (sum_list (map weight ls)) = (\<Sum>s \<leftarrow> ls. unat (weight s))"
    and "unat (sum_list (map weight ls)) \<le> unat (sum_list (map weight ls) + of_nat MODULA_CONTINUUM_ADDITION)"
  using scanned_plain(2,3) [OF assms(1,2)] unfolding ls_def
  by (simp_all add: unat_word_ariths MODULA_CONTINUUM_ADDITION_def)

lemma plain_weights_ok: "plain_pool_ok pool \<Longrightarrow> weights_ok (servers pool)"
  by (simp add: plain_pool_ok_def weights_ok_def list_all_iff)

lemma modula_update_cases:
  fixes pool now
  defines "ls \<equiv> filter (live (auto_eject_hosts pool) now) (servers pool)"
  defines "W \<equiv> \<Sum>s \<leftarrow> ls. unat (weight s)"
  assumes ok: "plain_pool_ok pool" and now: "0 \<le> now"
  shows "ls = [] \<Longrightarrow> modula_update mem now pool
      = (if ncontinuum pool = 0 then None else Some (NC_OK, scanned now pool))"
    and "ls \<noteq> [] \<Longrightarrow> nserver_continuum pool < W \<Longrightarrow> \<not> mem \<Longrightarrow>
      modula_update mem now pool = Some (NC_ENOMEM, scanned now pool)"
    and "ls \<noteq> [] \<Longrightarrow> W \<le> nserver_continuum pool \<or> mem \<Longrightarrow>
      \<exists>c nsc. modula_update mem now pool = Some (NC_OK, with_slots c W nsc (scanned now pool)) \<and>
        nserver_continuum pool \<le> nsc \<and> plain_pool_ok (with_slots c W nsc (scanned now pool)) \<and>
        plain_slots (\<lambda>s. unat (weight s)) now (with_slots c W nsc (scanned now pool))"
  using plain_update_cases [where rep = "\<lambda>s. unat (weight s)" and need = "\<lambda>W n. unat W"
      and grow = "\<lambda>W n. unat (W + of_nat MODULA_CONTINUUM_ADDITION)" and chk = weights_ok and mem = mem,
      OF ok now plain_weights_ok [OF ok] _ modula_need [OF now ok], folded modula_update_plain ls_def]
    modula_need(1) [OF now ok, folded ls_def]
  unfolding W_def by auto

lemma random_update_cases:
  fixes pool now
  defines "ls \<equiv> filter (live (auto_eject_hosts pool) now) (servers pool)"
  assumes ok: "plain_pool_ok pool" and now: "0 \<le> now"
  shows "ls = [] \<Longrightarrow> random_update mem now pool
      = (if ncontinuum pool = 0 then None else Some (NC_OK, scanned now pool))"
    and "ls \<noteq> [] \<Longrightarrow> nserver_continuum pool < length ls \<Longrightarrow> \<not> mem \<Longrightarrow>
      random_update mem now pool = Some (NC_ENOMEM, scanned now pool)"
    and "ls \<noteq> [] \<Longrightarrow> length ls \<le> nserver_continuum pool \<or> mem \<Longrightarrow>
      \<exists>c nsc. random_update mem now pool = Some (NC_OK, with_slots c (length ls) nsc (scanned now pool)) \<and>
        nserver_continuum pool \<le> nsc \<and> plain_pool_ok (with_slots c (length ls) nsc (scanned now pool)) \<and>
        plain_slots (\<lambda>s. 1) now (with_slots c (length ls) nsc (scanned now pool))"
  using plain_update_cases [where rep = "\<lambda>s. 1" and need = "\<lambda>W n. n" and grow = "\<lambda>W n. n + RANDOM_CONTINUUM_ADDITION"
      and chk = "\<lambda>ss. True" and mem = mem, OF ok now, folded random_update_plain ls_def]
  by (auto simp: sum_list_triv)

text \<open>
  C14: rebuilding a modula pool never writes past the continuum, and it trips an assertion in
  one case only: no server is live and the pool has no slots from an earlier rebuild.  On
  success with a live server the slots in use are, in server order, one per unit of weight
  of every live server, so a hash value is dispatched to a live server in proportion to its
  weight; without a live server the slots stay as they were.
\<close>
theorem modula_update_sound:
  assumes ok: "plain_pool_ok pool"
  shows "(modula_update mem now pool = None \<longleftrightarrow>
       0 \<le> now \<and> filter (live (auto_eject_hosts pool) now) (servers pool) = [] \<and> ncontinuum pool = 0) \<and>
     (\<forall>st pool'. modula_update mem now pool = Some (st, pool') \<longrightarrow> plain_pool_ok pool' \<and>
        (st = NC_OK \<longrightarrow>
           (if nlive_server pool' = 0
            then continuum pool' = continuum pool \<and> ncontinuum pool' = ncontinuum pool
            else plain_slots (\<lambda>s. unat (weight s)) now pool' \<and> 0 < ncontinuum pool')))"
proof (cases "now < 0")
  case True
  then show ?thesis using ok by (simp add: modula_update_def)
next
  case False
  then have now: "0 \<le> now" by simp
  let ?ls = "filter (live (auto_eject_hosts pool) now) (servers pool)"
  note cases = modula_update_cases [OF ok now, of mem]
  consider "?ls = []" | "?ls \<noteq> []" "nserver_continuum pool < (\<Sum>s \<leftarrow> ?ls. unat (weight s))" "\<not> mem"
    | "?ls \<noteq> []" "(\<Sum>s \<leftarrow> ?ls. unat (weight s)) \<le> nserver_continuum pool \<or> mem" by linarith
  then show ?thesis
  proof cases
    case 1
    then show ?thesis using cases(1) scanned_plain(1) [OF now ok] now by simp
  next
    case 2
    then show ?thesis using cases(2) scanned_plain(1) [OF now ok] by simp
  next
    case 3
    from cases(3) [OF this] 3(1) scanned_plain(4) [OF now ok 3(1)] show ?thesis by auto
  qed
qed

theorem modula_update_sound_witness:
  "modula_update True 100 (example_pool DIST_MODULA [example_server ''a'' 500]) = None \<and>
   (\<exists>st pool'. modula_update True 100
        (example_pool DIST_MODULA [example_server ''a'' 0, example_server ''b'' 500]) = Some (st, pool') \<and>
     plain_pool_ok pool')"
proof -
  have ok: "plain_pool_ok (example_pool DIST_MODULA [example_server ''a'' 500])"
    "plain_pool_ok (example_pool DIST_MODULA [example_server ''a'' 0, example_server ''b'' 500])"
    by (simp_all add: plain_pool_ok_def example_pool_def example_server_def MODULA_CONTINUUM_ADDITION_def)
  show ?thesis
    using modula_update_sound [OF ok(1), of True 100] modula_update_sound [OF ok(2), of True 100]
    by (auto simp: example_pool_def example_server_def live_def skip_server_def)
qed

lemma plain_slots_dispatch:
  assumes "plain_slots rep now pool" "i < ncontinuum pool"
  shows "index (continuum pool ! i) < length (servers pool) \<and>
     live (auto_eject_hosts pool) now (servers pool ! index (continuum pool ! i))"
proof -
  have "take (ncontinuum pool) (continuum pool) ! i \<in> set (take (ncontinuum pool) (continuum pool))"
    using assms by (intro nth_mem) (simp add: plain_slots_def)
  then have "continuum pool ! i \<in> set (live_points (plain_pts rep) (auto_eject_hosts pool) now 0 (servers pool))"
    using assms(2) assms(1) [unfolded plain_slots_def, THEN conjunct1] by (metis nth_take)
  from live_points_index [OF _ this] show ?thesis by (simp add: plain_pts_def live_def)
qed

end
