(* ===== verification/Server_Pool.thy ===== *)
theory Server_Pool
  imports Distribution
begin

text \<open>
  The server pool of \<^verbatim>\<open>nc_server.c\<close>: the connection queues of a server, the failure count that
  ejects a server, the rebuild that re-admits it, and the selection of the server of a key.
  A server is its index in the pool, a connection a number; of a connection only its place
  in the queue of its server is modelled.  An operation takes the clock readings and the
  outcome of the allocations and of the connection attempt it makes as arguments; \<open>None\<close> is
  a failed assertion of the code.  The three distribution strategies enter through one interface,
  the locale \<open>distribution\<close>, and the invariant of the pool is proved for every sequence of
  operations.
\<close>

subsection \<open>The connections of a server\<close>

text \<open>
  \<open>server_resolve\<close>, which \<open>server_ref\<close> calls first, writes to the connection only: an address,
  or an error that makes the next \<open>server_connect\<close> on it fail.
\<close>

definition server_ref :: "nat \<Rightarrow> server \<Rightarrow> server" where
  "server_ref c s = s\<lparr>ns_conn_q := ns_conn_q s + 1, s_conn_q := s_conn_q s @ [c]\<rparr>"

definition server_unref :: "nat \<Rightarrow> server \<Rightarrow> server option" where
  "server_unref c s =
     (if ns_conn_q s = 0 \<or> c \<notin> set (s_conn_q s) then None
      else Some (s\<lparr>ns_conn_q := ns_conn_q s - 1, s_conn_q := remove1 c (s_conn_q s)\<rparr>))"

text \<open>
  \<open>new\<close> is the connection \<open>conn_get\<close> returns, which has called \<open>server_ref\<close> on it, or \<open>None\<close>
  when there is no memory.
\<close>

definition server_conn :: "nat option \<Rightarrow> u32 \<Rightarrow> server \<Rightarrow> (nat option \<times> server) option" where
  "server_conn new limit s =
     (if ns_conn_q s < limit then
        Some (case new of None \<Rightarrow> (None, s) | Some c \<Rightarrow> (Some c, server_ref c s))
      else if ns_conn_q s \<noteq> limit then None
      else case s_conn_q s of
             [] \<Rightarrow> None
           | c # cs \<Rightarrow> Some (Some c, s\<lparr>s_conn_q := cs @ [c]\<rparr>))"

definition server_timeout :: "server_pool \<Rightarrow> int" where
  "server_timeout pool = pool_timeout pool"

subsection \<open>Rebuilding the distribution\<close>

definition server_pool_run :: "bool \<Rightarrow> int \<Rightarrow> server_pool \<Rightarrow> (rstatus \<times> server_pool) option" where
  "server_pool_run mem now pool =
     (if servers pool = [] then None
      else case dist_type pool of
             DIST_KETAMA \<Rightarrow> ketama_update mem now pool
           | DIST_MODULA \<Rightarrow> modula_update mem now pool
           | DIST_RANDOM \<Rightarrow> random_update mem now pool)"

text \<open>
  \<open>now\<close> is the reading of the clock by the operation itself, \<open>now'\<close> the one by the update it
  calls.  A status other than \<open>NC_OK\<close> of that update is only logged.
\<close>

definition server_failure :: "bool \<Rightarrow> int \<Rightarrow> int \<Rightarrow> nat \<Rightarrow> server_pool \<Rightarrow> server_pool option" where
  "server_failure mem now now' i pool =
     (if \<not> auto_eject_hosts pool then Some pool
      else
        let s = servers pool ! i;
            s1 = s\<lparr>failure_count := failure_count s + 1\<rparr>;
            pool1 = pool\<lparr>servers := (servers pool)[i := s1]\<rparr> in
        if failure_count s1 < server_failure_limit pool then Some pool1
        else if now < 0 then Some pool1
        else
          let s2 = s1\<lparr>failure_count := 0, next_retry := now + server_retry_timeout pool\<rparr>;
              pool2 = pool\<lparr>servers := (servers pool)[i := s2]\<rparr> in
          map_option snd (server_pool_run mem now' pool2))"

definition server_ok :: "server \<Rightarrow> server" where
  "server_ok s = (if failure_count s \<noteq> 0 then s\<lparr>failure_count := 0, next_retry := 0\<rparr> else s)"

definition server_pool_update :: "bool \<Rightarrow> int \<Rightarrow> int \<Rightarrow> server_pool \<Rightarrow> (rstatus \<times> server_pool) option" where
  "server_pool_update mem now now' pool =
     (if \<not> auto_eject_hosts pool then Some (NC_OK, pool)
      else if next_rebuild pool = 0 then Some (NC_OK, pool)
      else if now < 0 then Some (NC_ERROR, pool)
      else if now \<le> next_rebuild pool then
        if nlive_server pool = 0 then Some (NC_ERROR, pool) else Some (NC_OK, pool)
      else server_pool_run mem now' pool)"

subsection \<open>The server of a key\<close>

definition server_pool_hash :: "server_pool \<Rightarrow> bytes \<Rightarrow> u32" where
  "server_pool_hash pool key =
     (if length (servers pool) = 1 then 0 else if length key = 0 then 0 else key_hash pool key)"

text \<open>\<open>nc_strchr\<close> from position \<open>p\<close> up to the end of the key.\<close>

function nc_strchr :: "bytes \<Rightarrow> nat \<Rightarrow> char \<Rightarrow> nat option" where
  "nc_strchr d p c = (if p < length d then if d ! p = c then Some p else nc_strchr d (p + 1) c else None)"
  by pat_completeness auto
termination by (relation "measure (\<lambda>(d, p, c). length d - p)") auto

declare nc_strchr.simps [simp del]

text \<open>
  The part of the key the distributor sees.  A hash tag is a C string: behind its last
  character stands a null character.
\<close>

definition hash_tag_key :: "bytes \<Rightarrow> bytes \<Rightarrow> bytes" where
  "hash_tag_key tag key =
     (if tag \<noteq> [] then
        case nc_strchr key 0 (tag ! 0) of
          None \<Rightarrow> key
        | Some tag_start \<Rightarrow>
            (case nc_strchr key (tag_start + 1) ((tag @ [CHR 0x00]) ! 1) of
               None \<Rightarrow> key
             | Some tag_end \<Rightarrow>
                 if tag_end - tag_start > 1
                 then take (tag_end - (tag_start + 1)) (drop (tag_start + 1) key) else key)
      else key)"

text \<open>\<open>rnd\<close> is the value of \<open>random()\<close>; each dispatch function asserts that there is a slot.\<close>

definition server_pool_idx :: "nat \<Rightarrow> server_pool \<Rightarrow> bytes \<Rightarrow> nat option" where
  "server_pool_idx rnd pool key =
     (let key = hash_tag_key (hash_tag pool) key;
          c = continuum pool; n = ncontinuum pool;
          idx = (case dist_type pool of
                   DIST_KETAMA \<Rightarrow> ketama_dispatch c n (server_pool_hash pool key)
                 | DIST_MODULA \<Rightarrow> modula_dispatch c n (server_pool_hash pool key)
                 | DIST_RANDOM \<Rightarrow> random_dispatch rnd c n 0) in
      if servers pool = [] \<or> n = 0 \<or> length (servers pool) \<le> idx then None else Some idx)"

definition server_pool_server :: "nat \<Rightarrow> server_pool \<Rightarrow> bytes \<Rightarrow> nat option" where
  "server_pool_server rnd pool key = server_pool_idx rnd pool key"

definition pool_conn :: "nat option \<Rightarrow> nat \<Rightarrow> server_pool \<Rightarrow> (nat option \<times> server_pool) option" where
  "pool_conn new i pool =
     map_option (\<lambda>(c, s). (c, pool\<lparr>servers := (servers pool)[i := s]\<rparr>))
       (server_conn new (server_connections pool) (servers pool ! i))"

text \<open>
  The part of \<open>server_pool_conn\<close> that selects a server and a connection of it, before
  \<open>server_connect\<close> is called on the connection; the connection comes with its server.
\<close>

definition server_pool_pick ::
  "bool \<Rightarrow> int \<Rightarrow> int \<Rightarrow> nat \<Rightarrow> nat option \<Rightarrow> bytes \<Rightarrow> server_pool \<Rightarrow> ((nat \<times> nat) option \<times> server_pool) option" where
  "server_pool_pick mem now now' rnd new key pool =
     (case server_pool_update mem now now' pool of
        None \<Rightarrow> None
      | Some (st, pool1) \<Rightarrow>
          if st \<noteq> NC_OK then Some (None, pool1)
          else (case server_pool_server rnd pool1 key of
                  None \<Rightarrow> None
                | Some i \<Rightarrow>
                    (case pool_conn new i pool1 of
                       None \<Rightarrow> None
                     | Some (None, pool2) \<Rightarrow> Some (None, pool2)
                     | Some (Some c, pool2) \<Rightarrow> Some (Some (i, c), pool2))))"

text \<open>
  What \<open>server_close\<close> does to the pool, with an open socket and without: the failure of the
  server, then \<open>server_unref\<close>.
\<close>

definition server_close_owner :: "bool \<Rightarrow> int \<Rightarrow> int \<Rightarrow> nat \<Rightarrow> nat \<Rightarrow> server_pool \<Rightarrow> server_pool option" where
  "server_close_owner mem now now' i c pool =
     (case server_failure mem now now' i pool of
        None \<Rightarrow> None
      | Some pool1 \<Rightarrow>
          map_option (\<lambda>s. pool1\<lparr>servers := (servers pool1)[i := s]\<rparr>) (server_unref c (servers pool1 ! i)))"

text \<open>
  The rest of \<open>server_pool_conn\<close>, and \<open>server_each_preconnect\<close>: \<open>up\<close> tells whether \<open>server_connect\<close>
  succeeds; \<open>mem'\<close>, \<open>t\<close> and \<open>t'\<close> are for the close that follows a failure.
\<close>

definition server_pool_conn ::
  "bool \<Rightarrow> int \<Rightarrow> int \<Rightarrow> nat \<Rightarrow> nat option \<Rightarrow> bytes \<Rightarrow> bool \<Rightarrow> bool \<Rightarrow> int \<Rightarrow> int \<Rightarrow> server_pool
    \<Rightarrow> ((nat \<times> nat) option \<times> server_pool) option" where
  "server_pool_conn mem now now' rnd new key up mem' t t' pool =
     (case server_pool_pick mem now now' rnd new key pool of
        None \<Rightarrow> None
      | Some (None, pool1) \<Rightarrow> Some (None, pool1)
      | Some (Some (i, c), pool1) \<Rightarrow>
          if up then Some (Some (i, c), pool1)
          else map_option (\<lambda>pool2. (None, pool2)) (server_close_owner mem' t t' i c pool1))"

definition server_each_preconnect ::
  "nat option \<Rightarrow> bool \<Rightarrow> bool \<Rightarrow> int \<Rightarrow> int \<Rightarrow> nat \<Rightarrow> server_pool \<Rightarrow> (rstatus \<times> server_pool) option" where
  "server_each_preconnect new up mem t t' i pool =
     (case pool_conn new i pool of
        None \<Rightarrow> None
      | Some (None, pool1) \<Rightarrow> Some (NC_ENOMEM, pool1)
      | Some (Some c, pool1) \<Rightarrow>
          if up then Some (NC_OK, pool1)
          else map_option (\<lambda>pool2. (NC_OK, pool2)) (server_close_owner mem t t' i c pool1))"

subsection \<open>Connection limits\<close>

definition server_pool_each_calc_connections :: "u32 \<Rightarrow> server_pool \<Rightarrow> u32" where
  "server_pool_each_calc_connections max_nsconn sp =
     max_nsconn + server_connections sp * of_nat (length (servers sp)) + 1"

subsection \<open>The contract of a distribution strategy\<close>

text \<open>
  What the pool relies on.  \<open>need ss\<close> is the capacity the servers \<open>ss\<close> take; \<open>ok\<close> are the
  pools the strategy works on, and \<open>ordered\<close> what the dispatch needs to know of the slots.
\<close>

abbreviation live_servers :: "int \<Rightarrow> server_pool \<Rightarrow> server list" where
  "live_servers now pool \<equiv> filter (live (auto_eject_hosts pool) now) (servers pool)"

abbreviation slots :: "server_pool \<Rightarrow> cpoint list" where
  "slots pool \<equiv> take (ncontinuum pool) (continuum pool)"

text \<open>Pools that differ only in the connections, the failures and the clock of their servers.\<close>

definition same_weights :: "server_pool \<Rightarrow> server_pool \<Rightarrow> bool" where
  "same_weights p q \<longleftrightarrow> map weight (servers p) = map weight (servers q) \<and> map sname (servers p) = map sname (servers q) \<and>
     continuum p = continuum q \<and> ncontinuum p = ncontinuum q \<and> nserver_continuum p = nserver_continuum q"

text \<open>The pool after a successful rebuild at time \<open>now\<close>.\<close>

definition rebuilt :: "(cpoint list \<Rightarrow> bool) \<Rightarrow> int \<Rightarrow> server_pool \<Rightarrow> server_pool \<Rightarrow> bool" where
  "rebuilt ordered now pool pool' \<longleftrightarrow>
     (\<exists>c k nsc. pool' = with_slots c k nsc (scanned now pool) \<and> nserver_continuum pool \<le> nsc \<and> 0 < k \<and>
        (live_servers now pool \<noteq> [] \<longrightarrow> k \<le> length c \<and> ordered (take k c) \<and>
          (\<forall>p \<in> set (take k c). index p < length (servers pool) \<and>
             live (auto_eject_hosts pool) now (servers pool ! index p))))"

lemma rebuilt_scanned:
  assumes "live_servers now pool = []" "0 < ncontinuum pool"
  shows "rebuilt ordered now pool (scanned now pool)"
proof -
  have "scanned now pool = with_slots (continuum pool) (ncontinuum pool) (nserver_continuum pool) (scanned now pool)"
    by (simp add: with_slots_def scanned_def Let_def)
  then show ?thesis using assms unfolding rebuilt_def by blast
qed

locale distribution =
  fixes update :: "bool \<Rightarrow> int \<Rightarrow> server_pool \<Rightarrow> (rstatus \<times> server_pool) option"
    and dispatch :: "cpoint list \<Rightarrow> nat \<Rightarrow> u32 \<Rightarrow> nat"
    and ok :: "server_pool \<Rightarrow> bool"
    and need :: "server list \<Rightarrow> nat"
    and ordered :: "cpoint list \<Rightarrow> bool"
  assumes no_live: "ok pool \<Longrightarrow> 0 \<le> now \<Longrightarrow> live_servers now pool = [] \<Longrightarrow> 0 < ncontinuum pool \<Longrightarrow>
      update mem now pool = Some (NC_OK, scanned now pool)"
    and no_room: "ok pool \<Longrightarrow> 0 \<le> now \<Longrightarrow> live_servers now pool \<noteq> [] \<Longrightarrow>
      nserver_continuum pool < need (live_servers now pool) \<Longrightarrow> \<not> mem \<Longrightarrow>
      update mem now pool = Some (NC_ENOMEM, scanned now pool)"
    and rebuild: "ok pool \<Longrightarrow> 0 \<le> now \<Longrightarrow> live_servers now pool \<noteq> [] \<Longrightarrow>
      need (live_servers now pool) \<le> nserver_continuum pool \<or> mem \<Longrightarrow>
      \<exists>c k nsc. update mem now pool = Some (NC_OK, with_slots c k nsc (scanned now pool)) \<and>
        nserver_continuum pool \<le> nsc \<and> need (live_servers now pool) \<le> nsc \<and>
        ok (with_slots c k nsc (scanned now pool)) \<and> 0 < k \<and> k \<le> length c \<and> ordered (take k c) \<and>
        (\<forall>p \<in> set (take k c). index p < length (servers pool) \<and>
           live (auto_eject_hosts pool) now (servers pool ! index p))"
    and clock: "servers pool \<noteq> [] \<Longrightarrow> now < 0 \<Longrightarrow> update mem now pool = Some (NC_ERROR, pool)"
    and ok_same: "ok p \<Longrightarrow> same_weights p q \<Longrightarrow> ok q"
    and need_filter: "need (filter P ss) \<le> need ss"
    and need_same: "map weight ss = map weight ts \<Longrightarrow> need ss = need ts"
    and dispatch: "0 < n \<Longrightarrow> n \<le> length c \<Longrightarrow> ordered (take n c) \<Longrightarrow>
      dispatch c n h \<in> index ` set (take n c)"
begin

lemma update_rebuilt:
  assumes "ok pool" "0 \<le> now" "need (servers pool) \<le> nserver_continuum pool \<or> mem" "0 < ncontinuum pool"
  shows "\<exists>pool'. update mem now pool = Some (NC_OK, pool') \<and> rebuilt ordered now pool pool' \<and> ok pool'"
proof (cases "live_servers now pool = []")
  case True
  have "ok (scanned now pool)"
    by (rule ok_same [OF assms(1)]) (simp add: same_weights_def comp_def)
  then show ?thesis
    using no_live [OF assms(1,2) True assms(4)] True assms(4) by (auto intro!: rebuilt_scanned)
next
  case False
  have "need (live_servers now pool) \<le> nserver_continuum pool \<or> mem"
    using assms(3) need_filter le_trans by blast
  from rebuild [OF assms(1,2) False this] show ?thesis
    unfolding rebuilt_def by blast
qed

lemma update_room:
  assumes "ok pool" "0 \<le> now" "servers pool \<noteq> []" "\<forall>s \<in> set (servers pool). live (auto_eject_hosts pool) now s"
    and upd: "update mem now pool = Some (NC_OK, pool')"
  shows "rebuilt ordered now pool pool' \<and> ok pool' \<and> need (servers pool') \<le> nserver_continuum pool'"
proof -
  have ls: "live_servers now pool = servers pool" using assms(4) by (simp add: filter_id_conv)
  then have room: "need (live_servers now pool) \<le> nserver_continuum pool \<or> mem"
    using no_room [OF assms(1,2), of mem] assms(3) upd by fastforce
  have same: "need (map (refresh auto now) (servers pool)) = need (servers pool)" for auto
    by (rule need_same) (simp add: comp_def)
  from rebuild [OF assms(1,2) _ room] ls assms(3) upd show ?thesis
    unfolding rebuilt_def by (auto simp: same)
qed

end

subsection \<open>The three strategies meet the contract\<close>

definition weights :: "server list \<Rightarrow> nat" where
  "weights ss = (\<Sum>s \<leftarrow> ss. unat (weight s))"

lemma same_weights_all:
  assumes "same_weights p q"
  shows "length (servers p) = length (servers q)" "weights (servers p) = weights (servers q)"
    "(\<forall>s \<in> set (servers p). P (weight s)) = (\<forall>s \<in> set (servers q). P (weight s))"
    "(\<forall>s \<in> set (servers p). Q (sname s)) = (\<forall>s \<in> set (servers q). Q (sname s))"
    "length (continuum p) = length (continuum q)" "nserver_continuum p = nserver_continuum q"
    "ncontinuum p = ncontinuum q" "servers p = [] \<longleftrightarrow> servers q = []"
proof -
  have w: "map weight (servers p) = map weight (servers q)" and n: "map sname (servers p) = map sname (servers q)"
    using assms by (auto simp: same_weights_def)
  show "length (servers p) = length (servers q)" by (rule map_eq_imp_length_eq [OF w])
  show "weights (servers p) = weights (servers q)"
    using arg_cong [OF w, of "\<lambda>ws. \<Sum>w \<leftarrow> ws. unat w"] by (simp add: weights_def comp_def)
  show "(\<forall>s \<in> set (servers p). P (weight s)) = (\<forall>s \<in> set (servers q). P (weight s))"
    using arg_cong [OF w, of "\<lambda>ws. \<forall>w \<in> set ws. P w"] by simp
  show "(\<forall>s \<in> set (servers p). Q (sname s)) = (\<forall>s \<in> set (servers q). Q (sname s))"
    using arg_cong [OF n, of "\<lambda>ws. \<forall>w \<in> set ws. Q w"] by simp
  then show "servers p = [] \<longleftrightarrow> servers q = []" by (metis map_is_Nil_conv w)
qed (use assms in \<open>auto simp: same_weights_def\<close>)

lemma ketama_pool_same: "ketama_pool_ok p \<Longrightarrow> same_weights p q \<Longrightarrow> ketama_pool_ok q"
  using same_weights_all(1,2,5,6,8) [of p q] same_weights_all(3) [of p q "\<lambda>w. 0 < w"]
    same_weights_all(4) [of p q "\<lambda>n. length n \<le> 75"]
  by (simp add: ketama_pool_ok_def weights_def ball_conj_distrib)

lemma plain_pool_same: "plain_pool_ok p \<Longrightarrow> same_weights p q \<Longrightarrow> plain_pool_ok q"
  using same_weights_all(1,2,5,6,7) [of p q] same_weights_all(3) [of p q "\<lambda>w. 0 < w"]
  by (simp add: plain_pool_ok_def weights_def)

lemma ring_successor_mem: "ps \<noteq> [] \<Longrightarrow> ring_successor ps h \<in> set ps"
  by (auto simp: ring_successor_def find_Some_iff split: option.split)

lemma nth_mod_mem: "0 < n \<Longrightarrow> n \<le> length c \<Longrightarrow> c ! (h mod n) \<in> set (take n c)"
  by (metis in_set_conv_nth length_take min.absorb2 mod_less_divisor nth_take)

lemma plain_slots_targets:
  assumes "plain_slots rep now (with_slots c k nsc (scanned now pool))" "0 \<le> now"
    and "p \<in> set (take k c)"
  shows "index p < length (servers pool) \<and> live (auto_eject_hosts pool) now (servers pool ! index p)"
proof -
  obtain i where "i < k" "i < length c" "p = c ! i"
    using assms(3) by (auto simp: in_set_conv_nth)
  then show ?thesis using plain_slots_dispatch [OF assms(1), of i] assms(2) by auto
qed

lemma sum_filter_le: "weights (filter P ss) \<le> weights ss"
  unfolding weights_def by (rule sum_list_filter_le)

lemma weights_same: "map weight ss = map weight ts \<Longrightarrow> weights ss = weights ts"
  by (drule arg_cong [of _ _ "\<lambda>ws. \<Sum>w \<leftarrow> ws. unat w"]) (simp add: weights_def comp_def)

lemma weights_pos:
  assumes "plain_pool_ok pool" "live_servers now pool \<noteq> []" "0 \<le> now"
  shows "0 < weights (live_servers now pool)"
  using scanned_plain(4) [OF assms(3,1,2)] by (simp add: weights_def)

interpretation ketama: distribution ketama_update ketama_dispatch ketama_pool_ok length ring_sorted
proof unfold_locales
  fix pool :: server_pool and now :: int and mem :: bool
  assume ok: "ketama_pool_ok pool" and now: "0 \<le> now"
  note cases = ketama_update_cases [OF this]
  show "ketama_update mem now pool = Some (NC_OK, scanned now pool)" if "live_servers now pool = []" "0 < ncontinuum pool"
    using cases(1) [of mem] that by simp
  assume ls: "live_servers now pool \<noteq> []"
  show "ketama_update mem now pool = Some (NC_ENOMEM, scanned now pool)"
    if "nserver_continuum pool < length (live_servers now pool)" "\<not> mem"
    using cases(1) [of mem] ls that by simp
  assume "length (live_servers now pool) \<le> nserver_continuum pool \<or> mem"
  from cases(3) [OF _ this] ls obtain c k nsc where
    "ketama_update mem now pool = Some (NC_OK, with_slots c k nsc (scanned now pool))"
    "nserver_continuum pool \<le> nsc" "length (live_servers now pool) \<le> nsc"
    "ketama_pool_ok (with_slots c k nsc (scanned now pool))" "ring_ok now (with_slots c k nsc (scanned now pool))"
    by auto
  then show "\<exists>c k nsc. ketama_update mem now pool = Some (NC_OK, with_slots c k nsc (scanned now pool)) \<and>
      nserver_continuum pool \<le> nsc \<and> length (live_servers now pool) \<le> nsc \<and>
      ketama_pool_ok (with_slots c k nsc (scanned now pool)) \<and> 0 < k \<and> k \<le> length c \<and> ring_sorted (take k c) \<and>
      (\<forall>p \<in> set (take k c). index p < length (servers pool) \<and>
         live (auto_eject_hosts pool) now (servers pool ! index p))"
    using now by (intro exI [of _ c] exI [of _ k] exI [of _ nsc]) (auto simp: ring_ok_def)
next
  fix n c h
  assume "0 < n" "n \<le> length c" "ring_sorted (take n c)"
  moreover from this have "take n c \<noteq> []" by auto
  ultimately show "ketama_dispatch c n h \<in> index ` set (take n c)"
    using ring_successor_mem [of "take n c" h] by (simp add: ketama_dispatch_ring_aux)
qed (auto simp: ketama_update_def intro: ketama_pool_same map_eq_imp_length_eq)

lemma plain_rebuild:
  assumes "\<exists>c nsc. upd = Some (NC_OK, with_slots c k nsc (scanned now pool)) \<and> nserver_continuum pool \<le> nsc \<and>
      plain_pool_ok (with_slots c k nsc (scanned now pool)) \<and>
      plain_slots rep now (with_slots c k nsc (scanned now pool))"
    and "0 < k" "0 \<le> now"
  shows "\<exists>c k' nsc. upd = Some (NC_OK, with_slots c k' nsc (scanned now pool)) \<and>
      nserver_continuum pool \<le> nsc \<and> k \<le> nsc \<and>
      plain_pool_ok (with_slots c k' nsc (scanned now pool)) \<and> 0 < k' \<and> k' \<le> length c \<and> True \<and>
      (\<forall>p \<in> set (take k' c). index p < length (servers pool) \<and>
         live (auto_eject_hosts pool) now (servers pool ! index p))"
proof -
  obtain c nsc where new: "upd = Some (NC_OK, with_slots c k nsc (scanned now pool))" "nserver_continuum pool \<le> nsc"
    "plain_pool_ok (with_slots c k nsc (scanned now pool))" and
    sl: "plain_slots rep now (with_slots c k nsc (scanned now pool))" using assms(1) by blast
  then have "k \<le> length c" "length c = nsc" by (simp_all add: plain_slots_def plain_pool_ok_def)
  then show ?thesis
    using new assms(2) plain_slots_targets [OF sl assms(3)]
    by (intro exI [of _ c] exI [of _ k] exI [of _ nsc]) auto
qed

interpretation modula: distribution modula_update modula_dispatch plain_pool_ok weights "\<lambda>c. True"
proof unfold_locales
  fix pool :: server_pool and now :: int and mem :: bool
  assume ok: "plain_pool_ok pool" and now: "0 \<le> now"
  note cases = modula_update_cases [OF ok now, folded weights_def]
  show "modula_update mem now pool = Some (NC_OK, scanned now pool)" if "live_servers now pool = []" "0 < ncontinuum pool"
    using cases(1) [OF that(1), of mem] that(2) by simp
  assume ls: "live_servers now pool \<noteq> []"
  show "modula_update mem now pool = Some (NC_ENOMEM, scanned now pool)"
    if "nserver_continuum pool < weights (live_servers now pool)" "\<not> mem"
    by (rule cases(2) [OF ls that])
  assume "weights (live_servers now pool) \<le> nserver_continuum pool \<or> mem"
  note this = cases(3) [OF ls this]
  from plain_rebuild [OF this weights_pos [OF ok ls now] now]
  show "\<exists>c k nsc. modula_update mem now pool = Some (NC_OK, with_slots c k nsc (scanned now pool)) \<and>
      nserver_continuum pool \<le> nsc \<and> weights (live_servers now pool) \<le> nsc \<and>
      plain_pool_ok (with_slots c k nsc (scanned now pool)) \<and> 0 < k \<and> k \<le> length c \<and> True \<and>
      (\<forall>p \<in> set (take k c). index p < length (servers pool) \<and>
         live (auto_eject_hosts pool) now (servers pool ! index p))"
    .
qed (auto simp: modula_update_def modula_dispatch_def nth_mod_mem intro: plain_pool_same sum_filter_le weights_same)

interpretation random: distribution random_update "random_dispatch rnd" plain_pool_ok length "\<lambda>c. True" for rnd
proof unfold_locales
  fix pool :: server_pool and now :: int and mem :: bool
  assume ok: "plain_pool_ok pool" and now: "0 \<le> now"
  note cases = random_update_cases [OF ok now]
  show "random_update mem now pool = Some (NC_OK, scanned now pool)" if "live_servers now pool = []" "0 < ncontinuum pool"
    using cases(1) [OF that(1), of mem] that(2) by simp
  assume ls: "live_servers now pool \<noteq> []"
  show "random_update mem now pool = Some (NC_ENOMEM, scanned now pool)"
    if "nserver_continuum pool < length (live_servers now pool)" "\<not> mem"
    by (rule cases(2) [OF ls that])
  assume "length (live_servers now pool) \<le> nserver_continuum pool \<or> mem"
  note this = cases(3) [OF ls this]
  from plain_rebuild [OF this _ now] ls
  show "\<exists>c k nsc. random_update mem now pool = Some (NC_OK, with_slots c k nsc (scanned now pool)) \<and>
      nserver_continuum pool \<le> nsc \<and> length (live_servers now pool) \<le> nsc \<and>
      plain_pool_ok (with_slots c k nsc (scanned now pool)) \<and> 0 < k \<and> k \<le> length c \<and> True \<and>
      (\<forall>p \<in> set (take k c). index p < length (servers pool) \<and>
         live (auto_eject_hosts pool) now (servers pool ! index p))"
    by simp
qed (auto simp: random_update_def random_dispatch_def nth_mod_mem intro: plain_pool_same map_eq_imp_length_eq)

text \<open>
  A rebuild gives every live server exactly the points it is due: \<open>points ls i s\<close> for the
  server \<open>s\<close> with index \<open>i\<close> among the live servers \<open>ls\<close>.
\<close>

locale covering = distribution +
  fixes points :: "server list \<Rightarrow> nat \<Rightarrow> server \<Rightarrow> cpoint list"
  assumes cover: "ok pool \<Longrightarrow> 0 \<le> now \<Longrightarrow> update mem now pool = Some (NC_OK, pool') \<Longrightarrow>
      i < length (servers pool) \<Longrightarrow> live (auto_eject_hosts pool) now (servers pool ! i) \<Longrightarrow>
      filter (\<lambda>p. index p = i) (slots pool') = points (live_servers now pool) i (servers pool ! i)"
begin

lemma covered:
  assumes "ok pool" "0 \<le> now" "update mem now pool = Some (NC_OK, pool')" "i < length (servers pool)"
    and "live (auto_eject_hosts pool) now (servers pool ! i)" "points (live_servers now pool) i (servers pool ! i) \<noteq> []"
  shows "i \<in> index ` set (slots pool')"
  using cover [OF assms(1-5)] assms(6) by (metis (mono_tags, lifting) filter_empty_conv image_eqI)

end

lemma plain_slots_of:
  assumes "plain_slots rep now (with_slots c k nsc (scanned now pool))" "0 \<le> now" "i < length (servers pool)"
    and "live (auto_eject_hosts pool) now (servers pool ! i)" "\<And>s auto. rep (refresh auto now s) = rep s"
  shows "filter (\<lambda>p. index p = i) (take k c) = plain_pts rep i (servers pool ! i)"
proof -
  have "filter (\<lambda>p. index p = 0 + i) (live_points (plain_pts rep) (auto_eject_hosts pool) now 0 (servers (scanned now pool)))
      = plain_pts rep (0 + i) (servers (scanned now pool) ! i)"
    using assms(2-4) by (intro live_points_of) (auto simp: plain_pts_def live_def)
  moreover have "live_points (plain_pts rep) (auto_eject_hosts pool) now 0 (servers (scanned now pool)) = take k c"
    using assms(1) unfolding plain_slots_def with_slots_sel scanned_sel(6) by metis
  ultimately show ?thesis using assms(3,5) by (simp add: plain_pts_def)
qed

definition ketama_due :: "server list \<Rightarrow> nat \<Rightarrow> server \<Rightarrow> cpoint list" where
  "ketama_due ls i s = sort_key cvalue (ketama_pts (sum_list (map weight ls)) (length ls) i s)"

interpretation ketama: covering ketama_update ketama_dispatch ketama_pool_ok length ring_sorted ketama_due
  by unfold_locales (simp add: ketama_due_def ketama_update_points(1))

interpretation modula: covering modula_update modula_dispatch plain_pool_ok weights "\<lambda>c. True"
  "\<lambda>ls. plain_pts (\<lambda>s. unat (weight s))"
proof unfold_locales
  fix pool pool' :: server_pool and now :: int and mem :: bool and i
  assume ok: "plain_pool_ok pool" and now: "0 \<le> now" and upd: "modula_update mem now pool = Some (NC_OK, pool')"
    and i: "i < length (servers pool)" "live (auto_eject_hosts pool) now (servers pool ! i)"
  have ls: "live_servers now pool \<noteq> []" using i nth_mem [OF i(1)] by (auto simp: filter_empty_conv)
  note cases = modula_update_cases [OF ok now, folded weights_def]
  have "weights (live_servers now pool) \<le> nserver_continuum pool \<or> mem"
    using cases(2) [OF ls, of mem] upd by fastforce
  from cases(3) [OF ls this] upd obtain c k nsc where "pool' = with_slots c k nsc (scanned now pool)"
    "plain_slots (\<lambda>s. unat (weight s)) now (with_slots c k nsc (scanned now pool))" by auto
  then show "filter (\<lambda>p. index p = i) (slots pool') = plain_pts (\<lambda>s. unat (weight s)) i (servers pool ! i)"
    using plain_slots_of [OF _ now i] by simp
qed

interpretation random: covering random_update "random_dispatch rnd" plain_pool_ok length "\<lambda>c. True"
  "\<lambda>ls. plain_pts (\<lambda>s. 1)" for rnd
proof unfold_locales
  fix pool pool' :: server_pool and now :: int and mem :: bool and i
  assume ok: "plain_pool_ok pool" and now: "0 \<le> now" and upd: "random_update mem now pool = Some (NC_OK, pool')"
    and i: "i < length (servers pool)" "live (auto_eject_hosts pool) now (servers pool ! i)"
  have ls: "live_servers now pool \<noteq> []" using i nth_mem [OF i(1)] by (auto simp: filter_empty_conv)
  note cases = random_update_cases [OF ok now]
  have "length (live_servers now pool) \<le> nserver_continuum pool \<or> mem"
    using cases(2) [OF ls, of mem] upd by fastforce
  from cases(3) [OF ls this] upd obtain c k nsc where "pool' = with_slots c k nsc (scanned now pool)"
    "plain_slots (\<lambda>s. 1) now (with_slots c k nsc (scanned now pool))" by auto
  then show "filter (\<lambda>p. index p = i) (slots pool') = plain_pts (\<lambda>s. 1) i (servers pool ! i)"
    using plain_slots_of [OF _ now i, of "\<lambda>s. 1"] by simp
qed

text \<open>
  The points due are some: always with modula and random, and with ketama for a server that
  has at least one part in 39 of the average weight.
\<close>

definition dist_points :: "dist_type \<Rightarrow> server list \<Rightarrow> nat \<Rightarrow> server \<Rightarrow> cpoint list" where
  "dist_points dt ls = (case dt of
     DIST_KETAMA \<Rightarrow> ketama_due ls
   | DIST_MODULA \<Rightarrow> plain_pts (\<lambda>s. unat (weight s))
   | DIST_RANDOM \<Rightarrow> plain_pts (\<lambda>s. 1))"

lemma ketama_due_some:
  fixes pool now
  defines "ls \<equiv> live_servers now pool"
  assumes ok: "ketama_pool_ok pool" and now: "0 \<le> now" and upd: "ketama_update mem now pool = Some (NC_OK, pool')"
    and i: "i < length (servers pool)" "live (auto_eject_hosts pool) now (servers pool ! i)"
    and w: "weights ls \<le> 39 * (length ls * unat (weight (servers pool ! i)))"
  shows "ketama_due ls i (servers pool ! i) \<noteq> []"
proof -
  define W where "W = sum_list (map weight ls)"
  let ?w = "weight (servers pool ! i)"
  note pts = ketama_update_points(2,3) [OF ok now upd i, folded ls_def, folded W_def]
  have "weights ls < 2 ^ 32" and n: "length ls \<le> MAX_LIVE"
    using ok sum_list_filter_le [of "\<lambda>s. unat (weight s)" "live (auto_eject_hosts pool) now" "servers pool"]
      le_trans [OF length_filter_le, of "servers pool" MAX_LIVE]
    by (auto simp: ketama_pool_ok_def ls_def weights_def)
  then have uW: "unat W = weights ls"
    using unat_sum_list [of "map weight ls"] by (simp add: W_def weights_def comp_def)
  have "unat ?w \<le> unat W"
    unfolding uW weights_def using pts(2) by (intro member_le_sum_list) auto
  then have le: "?w \<le> W" by (simp add: word_le_nat_alt)
  moreover have "0 < ?w" using ok i(1) by (simp add: ketama_pool_ok_def)
  ultimately have W: "0 < W" by simp
  have "of_nat 1 \<le> ketama_share ?w W (length ls)"
    by (rule ketama_share_min [OF W]) (use w uW in simp_all)
  then have "1 \<le> \<lfloor>ketama_share ?w W (length ls)\<rfloor>" by (simp add: le_floor_iff)
  then have "0 < pointer_per_server ?w W (length ls)" unfolding pointer_per_server_floor [OF W le n] by linarith
  then show ?thesis using pts(1) unfolding ketama_due_def W_def by (metis length_0_conv length_sort less_irrefl)
qed

subsection \<open>The invariant of a pool\<close>

definition dist_ok :: "server_pool \<Rightarrow> bool" where
  "dist_ok pool = (case dist_type pool of DIST_KETAMA \<Rightarrow> ketama_pool_ok pool | _ \<Rightarrow> plain_pool_ok pool)"

definition dist_need :: "dist_type \<Rightarrow> server list \<Rightarrow> nat" where
  "dist_need dt ss = (case dt of DIST_MODULA \<Rightarrow> weights ss | _ \<Rightarrow> length ss)"

definition dist_ordered :: "dist_type \<Rightarrow> cpoint list \<Rightarrow> bool" where
  "dist_ordered dt c = (case dt of DIST_KETAMA \<Rightarrow> ring_sorted c | _ \<Rightarrow> True)"

lemmas dist_defs = dist_ok_def dist_need_def dist_ordered_def

text \<open>The part of the invariant that a rebuild relies on, and the part it establishes.\<close>

definition conn_inv :: "u32 \<Rightarrow> server \<Rightarrow> bool" where
  "conn_inv limit s \<longleftrightarrow> unat (ns_conn_q s) = length (s_conn_q s) \<and> distinct (s_conn_q s) \<and> ns_conn_q s \<le> limit"

definition pool_base :: "server_pool \<Rightarrow> bool" where
  "pool_base pool \<longleftrightarrow> servers pool \<noteq> [] \<and> dist_ok pool \<and>
     dist_need (dist_type pool) (servers pool) \<le> nserver_continuum pool \<and> 0 < ncontinuum pool \<and>
     0 \<le> server_retry_timeout pool \<and> 0 < server_connections pool \<and>
     (\<forall>s \<in> set (servers pool). 0 \<le> next_retry s \<and> conn_inv (server_connections pool) s)"

definition targets_ok :: "server_pool \<Rightarrow> bool" where
  "targets_ok pool \<longleftrightarrow> 0 < ncontinuum pool \<and> ncontinuum pool \<le> length (continuum pool) \<and>
     dist_ordered (dist_type pool) (slots pool) \<and>
     (\<forall>p \<in> set (slots pool). index p < length (servers pool) \<and>
        (auto_eject_hosts pool \<longrightarrow> next_retry (servers pool ! index p) = 0))"

definition pool_ring :: "server_pool \<Rightarrow> bool" where
  "pool_ring pool \<longleftrightarrow>
     (nlive_server pool = 0 \<longrightarrow> auto_eject_hosts pool \<and> next_rebuild pool \<noteq> 0) \<and>
     (auto_eject_hosts pool \<and> next_rebuild pool \<noteq> 0 \<longrightarrow>
        (\<exists>s \<in> set (servers pool). next_retry s \<le> next_rebuild pool)) \<and>
     (auto_eject_hosts pool \<longrightarrow> (\<forall>s \<in> set (servers pool). next_retry s \<noteq> 0 \<longrightarrow>
        next_rebuild pool \<noteq> 0 \<and> next_rebuild pool \<le> next_retry s)) \<and>
     (nlive_server pool \<noteq> 0 \<longrightarrow> targets_ok pool)"

definition pool_inv :: "server_pool \<Rightarrow> bool" where
  "pool_inv pool \<longleftrightarrow> pool_base pool \<and> pool_ring pool"

lemma rebuilt_dist: "rebuilt ord now pool pool' \<Longrightarrow> dist_type pool' = dist_type pool"
  by (auto simp: rebuilt_def)

lemma run_rebuilt:
  assumes "dist_ok pool" "0 \<le> now" "servers pool \<noteq> []"
    and "dist_need (dist_type pool) (servers pool) \<le> nserver_continuum pool \<or> mem" "0 < ncontinuum pool"
  shows "\<exists>pool'. server_pool_run mem now pool = Some (NC_OK, pool') \<and>
     rebuilt (dist_ordered (dist_type pool)) now pool pool' \<and> dist_ok pool'"
proof (cases "dist_type pool")
  case DIST_KETAMA
  then obtain pool' where "ketama_update mem now pool = Some (NC_OK, pool')" "rebuilt ring_sorted now pool pool'"
    "ketama_pool_ok pool'"
    using ketama.update_rebuilt [of pool now mem] assms by (auto simp: dist_defs)
  then show ?thesis using DIST_KETAMA assms(3) rebuilt_dist [of _ _ _ pool']
    by (intro exI [of _ pool']) (simp add: server_pool_run_def dist_defs [abs_def])
next
  case DIST_MODULA
  then obtain pool' where "modula_update mem now pool = Some (NC_OK, pool')" "rebuilt (\<lambda>c. True) now pool pool'"
    "plain_pool_ok pool'"
    using modula.update_rebuilt [of pool now mem] assms by (auto simp: dist_defs)
  then show ?thesis using DIST_MODULA assms(3) rebuilt_dist [of _ _ _ pool']
    by (intro exI [of _ pool']) (simp add: server_pool_run_def dist_defs [abs_def])
next
  case DIST_RANDOM
  then obtain pool' where "random_update mem now pool = Some (NC_OK, pool')" "rebuilt (\<lambda>c. True) now pool pool'"
    "plain_pool_ok pool'"
    using random.update_rebuilt [of pool now mem] assms by (auto simp: dist_defs)
  then show ?thesis using DIST_RANDOM assms(3) rebuilt_dist [of _ _ _ pool']
    by (intro exI [of _ pool']) (simp add: server_pool_run_def dist_defs [abs_def])
qed

lemma run_room:
  assumes "dist_ok pool" "0 \<le> now" "servers pool \<noteq> []"
    and "\<forall>s \<in> set (servers pool). live (auto_eject_hosts pool) now s"
    and "server_pool_run mem now pool = Some (NC_OK, pool')"
  shows "rebuilt (dist_ordered (dist_type pool)) now pool pool' \<and> dist_ok pool' \<and>
     dist_need (dist_type pool) (servers pool') \<le> nserver_continuum pool'"
proof (cases "dist_type pool")
  case DIST_KETAMA
  then show ?thesis using ketama.update_room [OF _ assms(2,3,4), of mem pool'] assms(1,3,5)
      rebuilt_dist [of ring_sorted now pool pool']
    by (simp add: server_pool_run_def dist_defs [abs_def])
next
  case DIST_MODULA
  then show ?thesis using modula.update_room [OF _ assms(2,3,4), of mem pool'] assms(1,3,5)
      rebuilt_dist [of "\<lambda>c. True" now pool pool']
    by (simp add: server_pool_run_def dist_defs [abs_def])
next
  case DIST_RANDOM
  then show ?thesis using random.update_room [OF _ assms(2,3,4), of mem pool'] assms(1,3,5)
      rebuilt_dist [of "\<lambda>c. True" now pool pool']
    by (simp add: server_pool_run_def dist_defs [abs_def])
qed

lemma earliest_retry_mem:
  assumes "ss \<noteq> []"
  shows "\<exists>s \<in> set ss. earliest_retry ss = next_retry s"
proof -
  have "Min (next_retry ` set ss) \<in> next_retry ` set ss" using assms by (intro Min_in) auto
  then obtain s where "s \<in> set ss" "Min (next_retry ` set ss) = next_retry s" by blast
  then show ?thesis using assms by (intro bexI [of _ s]) (simp_all add: earliest_retry_def)
qed

lemma earliest_retry_le: "s \<in> set ss \<Longrightarrow> earliest_retry ss \<le> next_retry s"
  by (auto simp: earliest_retry_def)

lemma refresh_cases:
  assumes "0 \<le> now"
  shows "live True now s \<Longrightarrow> next_retry (refresh True now s) = 0"
    and "\<not> live True now s \<Longrightarrow> refresh True now s = s \<and> now < next_retry s"
  using assms by (auto simp: live_def skip_server_def refresh_def)

text \<open>The times a rebuild leaves: only ejected servers have one, and the next rebuild is the earliest.\<close>

lemma scanned_times:
  fixes pool now
  defines "q \<equiv> scanned now pool"
  assumes auto: "auto_eject_hosts pool" and now: "0 \<le> now"
  shows "next_rebuild q \<noteq> 0 \<Longrightarrow> \<exists>s \<in> set (servers q). next_retry s \<le> next_rebuild q"
    and "s \<in> set (servers q) \<Longrightarrow> next_retry s \<noteq> 0 \<Longrightarrow> next_rebuild q \<noteq> 0 \<and> next_rebuild q \<le> next_retry s"
    and "servers pool \<noteq> [] \<Longrightarrow> nlive_server q = 0 \<Longrightarrow> next_rebuild q \<noteq> 0"
proof -
  let ?dead = "filter (\<lambda>s. \<not> live True now s) (servers pool)"
  have nr: "next_rebuild q = earliest_retry ?dead" and ss: "servers q = map (refresh True now) (servers pool)"
    using auto by (simp_all add: q_def)
  have dead: "\<exists>s \<in> set ?dead. next_rebuild q = next_retry s \<and> 0 < next_retry s" if d: "?dead \<noteq> []"
  proof -
    obtain s where "s \<in> set ?dead" "next_rebuild q = next_retry s" using earliest_retry_mem [OF d] nr by auto
    then show ?thesis using refresh_cases(2) [OF now, of s] now by auto
  qed
  show "\<exists>s \<in> set (servers q). next_retry s \<le> next_rebuild q" if "next_rebuild q \<noteq> 0"
  proof -
    have "?dead \<noteq> []" using that by (auto simp: nr earliest_retry_def)
    from dead [OF this] obtain s where "s \<in> set (servers pool)" "\<not> live True now s" "next_rebuild q = next_retry s"
      by auto
    then show ?thesis using refresh_cases(2) [OF now] by (auto simp: ss intro!: bexI [of _ s])
  qed
  show "next_rebuild q \<noteq> 0 \<and> next_rebuild q \<le> next_retry s" if s: "s \<in> set (servers q)" "next_retry s \<noteq> 0"
  proof -
    obtain t where t: "t \<in> set (servers pool)" "s = refresh True now t" using s(1) by (auto simp: ss)
    then have "\<not> live True now t" using s(2) refresh_cases(1) [OF now] by auto
    then have d: "t \<in> set ?dead" "s = t" using t refresh_cases(2) [OF now] by auto
    then have "?dead \<noteq> []" by (auto simp: filter_empty_conv)
    from dead [OF this] have "next_rebuild q \<noteq> 0" by auto
    then show ?thesis using earliest_retry_le [OF d(1)] d(2) nr by simp
  qed
  show "next_rebuild q \<noteq> 0" if "servers pool \<noteq> []" "nlive_server q = 0"
  proof -
    have "?dead \<noteq> []" using that auto by (auto simp: q_def filter_empty_conv neq_Nil_conv)
    from dead [OF this] show ?thesis by auto
  qed
qed

lemma refresh_queues [simp]:
  "ns_conn_q (refresh auto now s) = ns_conn_q s" "s_conn_q (refresh auto now s) = s_conn_q s"
  by (simp_all add: refresh_def)

lemma conn_inv_refresh [simp]: "conn_inv limit (refresh auto now s) = conn_inv limit s"
  by (simp add: conn_inv_def)

lemma refresh_retry_nonneg: "0 \<le> next_retry s \<Longrightarrow> 0 \<le> next_retry (refresh auto now s)"
  by (simp add: refresh_def)

lemma scanned_config [simp]:
  "server_connections (scanned now pool) = server_connections pool"
  "server_retry_timeout (scanned now pool) = server_retry_timeout pool"
  "server_connections (with_slots c k nsc pool) = server_connections pool"
  "server_retry_timeout (with_slots c k nsc pool) = server_retry_timeout pool"
  "hash_tag (with_slots c k nsc pool) = hash_tag pool" "key_hash (with_slots c k nsc pool) = key_hash pool"
  by (simp_all add: scanned_def with_slots_def Let_def)

lemma dist_need_refresh [simp]: "dist_need dt (map (refresh auto now) ss) = dist_need dt ss"
  using weights_same [of "map (refresh auto now) ss" ss] by (cases dt) (simp_all add: dist_need_def comp_def)

text \<open>A rebuild turns the base part of the invariant into the whole.\<close>

lemma rebuilt_inv:
  assumes reb: "rebuilt (dist_ordered (dist_type pool)) now pool pool'" and ok: "dist_ok pool'" and now: "0 \<le> now"
    and room: "dist_need (dist_type pool) (servers pool') \<le> nserver_continuum pool'"
    and base: "servers pool \<noteq> []" "0 \<le> server_retry_timeout pool" "0 < server_connections pool"
      "\<forall>s \<in> set (servers pool). 0 \<le> next_retry s \<and> conn_inv (server_connections pool) s"
  shows "pool_inv pool'"
proof -
  obtain c k nsc where p': "pool' = with_slots c k nsc (scanned now pool)"
    and k: "0 < k" and sl: "live_servers now pool \<noteq> [] \<longrightarrow> k \<le> length c \<and> dist_ordered (dist_type pool) (take k c) \<and>
          (\<forall>p \<in> set (take k c). index p < length (servers pool) \<and>
             live (auto_eject_hosts pool) now (servers pool ! index p))"
    using reb unfolding rebuilt_def by blast
  have "pool_base pool'"
    using ok room base k by (auto simp: pool_base_def p' refresh_retry_nonneg)
  moreover have "targets_ok pool'" if "nlive_server pool' \<noteq> 0"
  proof -
    have "live_servers now pool \<noteq> []" using that by (auto simp: p')
    then show ?thesis
      using sl k refresh_cases(1) [OF now] unfolding targets_ok_def p' by auto
  qed
  moreover have "nlive_server pool' = 0 \<Longrightarrow> auto_eject_hosts pool'"
    using base(1) by (cases "auto_eject_hosts pool") (auto simp: p' filter_empty_conv live_def skip_server_def neq_Nil_conv)
  ultimately show ?thesis
    using scanned_times [OF _ now, of pool] base(1)
    unfolding pool_inv_def pool_ring_def p' with_slots_sel scanned_sel(6) by blast
qed

lemma run_inv:
  assumes base: "pool_base pool" and now: "0 \<le> now"
  obtains pool' where "server_pool_run mem now pool = Some (NC_OK, pool')" "pool_inv pool'"
    "rebuilt (dist_ordered (dist_type pool)) now pool pool'"
proof -
  obtain pool' where run: "server_pool_run mem now pool = Some (NC_OK, pool')"
    "rebuilt (dist_ordered (dist_type pool)) now pool pool'" "dist_ok pool'"
    using run_rebuilt [of pool now mem] base now by (auto simp: pool_base_def)
  have "dist_need (dist_type pool) (servers pool') \<le> nserver_continuum pool'"
    using run(2) base by (auto simp: rebuilt_def pool_base_def)
  then have "pool_inv pool'"
    using rebuilt_inv [OF run(2,3) now] base by (simp add: pool_base_def)
  then show ?thesis using that run by blast
qed

text \<open>Changing one server, without moving its retry time forward.\<close>

abbreviation set_server :: "nat \<Rightarrow> server \<Rightarrow> server_pool \<Rightarrow> server_pool" where
  "set_server i s pool \<equiv> pool\<lparr>servers := (servers pool)[i := s]\<rparr>"

lemma base_set_server:
  assumes "pool_base pool" "i < length (servers pool)" "weight s = weight (servers pool ! i)"
    "sname s = sname (servers pool ! i)" "0 \<le> next_retry s" "conn_inv (server_connections pool) s"
  shows "pool_base (set_server i s pool)"
proof -
  have w: "map weight ((servers pool)[i := s]) = map weight (servers pool)"
    and n: "map sname ((servers pool)[i := s]) = map sname (servers pool)"
    by (rule map_update_same, rule assms)+
  have "same_weights pool (set_server i s pool)" using w n by (simp add: same_weights_def)
  then have "dist_ok (set_server i s pool)"
    using assms(1) ketama_pool_same [of pool] plain_pool_same [of pool]
    by (cases "dist_type pool") (auto simp: pool_base_def dist_ok_def)
  moreover have "dist_need dt ((servers pool)[i := s]) = dist_need dt (servers pool)" for dt
    using weights_same [OF w] by (cases dt) (simp_all add: dist_need_def)
  ultimately show ?thesis
    using assms(1,2,5,6) by (auto simp: pool_base_def dest!: subsetD [OF set_update_subset_insert])
qed

lemma inv_set_server:
  assumes inv: "pool_inv pool" and i: "i < length (servers pool)" and "weight s = weight (servers pool ! i)"
    "sname s = sname (servers pool ! i)" "conn_inv (server_connections pool) s"
    and r: "next_retry s = next_retry (servers pool ! i) \<or> next_retry s = 0"
  shows "pool_inv (set_server i s pool)"
proof -
  let ?t = "servers pool ! i"
  have t: "?t \<in> set (servers pool)" using i by simp
  have pos: "\<forall>u \<in> set (servers pool). 0 \<le> next_retry u" using inv by (auto simp: pool_inv_def pool_base_def)
  then have "0 \<le> next_retry s" using r t by auto
  then have "pool_base (set_server i s pool)"
    using base_set_server [of pool i s] assms by (simp add: pool_inv_def)
  moreover have "\<exists>u \<in> set ((servers pool)[i := s]). next_retry u \<le> x"
    if x: "\<exists>u \<in> set (servers pool). next_retry u \<le> x" for x
  proof -
    from x obtain j where j: "j < length (servers pool)" "next_retry (servers pool ! j) \<le> x"
      by (auto simp: in_set_conv_nth)
    have "next_retry ((servers pool)[i := s] ! j) \<le> x"
      using j r nth_mem [OF j(1)] pos by (cases "i = j") fastforce+
    then show ?thesis using j(1) by (metis length_list_update nth_mem)
  qed
  moreover have "targets_ok (set_server i s pool)" if "targets_ok pool"
  proof -
    have "(servers pool)[i := s] ! j = (if j = i then s else servers pool ! j)" for j using i by simp
    then show ?thesis using that r by (auto simp: targets_ok_def)
  qed
  moreover have "next_rebuild pool \<noteq> 0 \<and> next_rebuild pool \<le> next_retry u"
    if "u \<in> set ((servers pool)[i := s])" "next_retry u \<noteq> 0" "auto_eject_hosts pool" for u
  proof -
    have "u = s \<or> u \<in> set (servers pool)" using that(1) set_update_subset_insert [of "servers pool" i s] by blast
    then have "\<exists>v \<in> set (servers pool). next_retry u = next_retry v" using r t that(2) by auto
    then show ?thesis using inv that(2,3) by (auto simp: pool_inv_def pool_ring_def)
  qed
  ultimately show ?thesis
    using inv unfolding pool_inv_def pool_ring_def by simp
qed

subsection \<open>Every operation keeps the invariant\<close>

lemma conn_inv_cases:
  assumes "conn_inv limit s" "0 < limit" "\<forall>c. new = Some c \<longrightarrow> c \<notin> set (s_conn_q s)"
  obtains c s' where "server_conn new limit s = Some (c, s')" "conn_inv limit s'" "weight s' = weight s"
    "sname s' = sname s" "next_retry s' = next_retry s" "c = None \<longrightarrow> new = None \<and> s' = s"
    "\<forall>k. c = Some k \<longrightarrow> k \<in> set (s_conn_q s')"
proof (cases "ns_conn_q s < limit")
  case True
  then have inc: "unat (ns_conn_q s + 1) = Suc (unat (ns_conn_q s))" "ns_conn_q s + 1 \<le> limit"
    by (rule u32_inc)+
  show ?thesis
  proof (cases new)
    case None
    then show ?thesis using True assms(1) by (intro that [of None s]) (simp_all add: server_conn_def)
  next
    case (Some k)
    have "conn_inv limit (server_ref k s)"
      using assms(1,3) inc Some unfolding conn_inv_def server_ref_def by simp
    then show ?thesis using True Some by (intro that [of new "server_ref k s"]) (simp_all add: server_conn_def server_ref_def)
  qed
next
  case False
  then have full: "ns_conn_q s = limit" using assms(1) by (simp add: conn_inv_def)
  then have "unat limit = length (s_conn_q s)" using assms(1) by (simp add: conn_inv_def)
  then have "s_conn_q s \<noteq> []" using assms(2) by (auto simp: unat_eq_zero)
  then obtain k ks where q: "s_conn_q s = k # ks" by (cases "s_conn_q s") auto
  have "conn_inv limit (s\<lparr>s_conn_q := ks @ [k]\<rparr>)" using assms(1) q by (simp add: conn_inv_def)
  then show ?thesis using that [of "Some k" "s\<lparr>s_conn_q := ks @ [k]\<rparr>"] full q by (simp add: server_conn_def)
qed

lemma conn_inv_unref:
  assumes "conn_inv limit s" "c \<in> set (s_conn_q s)"
  obtains s' where "server_unref c s = Some s'" "conn_inv limit s'" "weight s' = weight s"
    "sname s' = sname s" "next_retry s' = next_retry s" "s_conn_q s' = remove1 c (s_conn_q s)"
proof -
  have n: "ns_conn_q s \<noteq> 0" using assms by (auto simp: conn_inv_def)
  then have "unat (ns_conn_q s - 1) = unat (ns_conn_q s) - 1" "ns_conn_q s - 1 \<le> ns_conn_q s"
    by (rule u32_dec)+
  then show ?thesis
    using that [of "s\<lparr>ns_conn_q := ns_conn_q s - 1, s_conn_q := remove1 c (s_conn_q s)\<rparr>"] n assms
    by (auto simp: server_unref_def conn_inv_def length_remove1)
qed

lemma inv_server: "pool_inv pool \<Longrightarrow> i < length (servers pool) \<Longrightarrow>
    conn_inv (server_connections pool) (servers pool ! i) \<and> 0 \<le> next_retry (servers pool ! i)"
  by (auto simp: pool_inv_def pool_base_def)

lemma server_ok_inv [nc_inv]:
  assumes "pool_inv pool" "i < length (servers pool)"
  shows "pool_inv (set_server i (server_ok (servers pool ! i)) pool)"
  using inv_server [OF assms] by (intro inv_set_server assms) (auto simp: server_ok_def conn_inv_def)

text \<open>
  A failure is counted, or it ejects the server and rebuilds the distribution.  Either way
  the queues of the servers stay as they are.
\<close>

lemma server_failure_cases:
  assumes inv: "pool_inv pool" and i: "i < length (servers pool)" and t: "now \<le> now'"
  obtains (counted) s where "server_failure mem now now' i pool = Some (set_server i s pool)"
      "pool_inv (set_server i s pool)" "next_retry s = next_retry (servers pool ! i)"
      "s_conn_q s = s_conn_q (servers pool ! i)"
    | (rebuilt) s pool' where "server_failure mem now now' i pool = Some pool'" "pool_inv pool'" "0 \<le> now"
      "next_retry s = now + server_retry_timeout pool" "s_conn_q s = s_conn_q (servers pool ! i)"
      "rebuilt (dist_ordered (dist_type pool)) now' (set_server i s pool) pool'"
proof -
  let ?s = "servers pool ! i"
  let ?s1 = "?s\<lparr>failure_count := failure_count ?s + 1\<rparr>"
  let ?s2 = "?s\<lparr>failure_count := 0, next_retry := now + server_retry_timeout pool\<rparr>"
  note s = inv_server [OF inv i]
  have inv1: "pool_inv (set_server i ?s1 pool)"
    using s by (intro inv_set_server inv i) (auto simp: conn_inv_def)
  consider "\<not> auto_eject_hosts pool" | "auto_eject_hosts pool" "failure_count ?s1 < server_failure_limit pool \<or> now < 0"
    | "auto_eject_hosts pool" "\<not> failure_count ?s1 < server_failure_limit pool" "0 \<le> now" by linarith
  then show ?thesis
  proof cases
    case 1
    then show ?thesis using counted [of ?s] inv by (simp add: server_failure_def)
  next
    case 2
    then show ?thesis using counted [of ?s1] inv1 by (auto simp: server_failure_def Let_def)
  next
    case 3
    have base: "pool_base (set_server i ?s2 pool)"
      using inv s 3 by (intro base_set_server i) (auto simp: pool_inv_def pool_base_def conn_inv_def)
    obtain pool' where run: "server_pool_run mem now' (set_server i ?s2 pool) = Some (NC_OK, pool')" "pool_inv pool'"
      "rebuilt (dist_ordered (dist_type (set_server i ?s2 pool))) now' (set_server i ?s2 pool) pool'"
      by (rule run_inv [OF base, of now' mem]) (use 3(3) t in auto)
    then show ?thesis using rebuilt [of pool' ?s2] 3 by (simp add: server_failure_def Let_def)
  qed
qed

lemma server_failure_inv:
  assumes inv: "pool_inv pool" and i: "i < length (servers pool)" and t: "now \<le> now'"
  obtains pool' where "server_failure mem now now' i pool = Some pool'" "pool_inv pool'"
    "map s_conn_q (servers pool') = map s_conn_q (servers pool)"
proof (cases rule: server_failure_cases [OF inv i t, where mem = mem, case_names counted rebuilt])
  case (counted s)
  then show ?thesis using that [of "set_server i s pool"] by (simp add: map_update_same)
next
  case (rebuilt s pool')
  then show ?thesis using that [of pool'] map_update_same [OF rebuilt(5)]
    by (auto simp: rebuilt_def comp_def)
qed

lemma idx_of_inv:
  assumes "targets_ok pool" "servers pool \<noteq> []"
  obtains i where "server_pool_idx rnd pool key = Some i" "i < length (servers pool)"
    "auto_eject_hosts pool \<longrightarrow> next_retry (servers pool ! i) = 0" "i \<in> index ` set (slots pool)"
proof -
  let ?n = "ncontinuum pool" and ?c = "continuum pool"
  have n: "0 < ?n" "?n \<le> length ?c" "dist_ordered (dist_type pool) (take ?n ?c)"
    using assms(1) by (simp_all add: targets_ok_def)
  have "\<exists>i \<in> index ` set (slots pool). (let key = hash_tag_key (hash_tag pool) key in case dist_type pool of
            DIST_KETAMA \<Rightarrow> ketama_dispatch ?c ?n (server_pool_hash pool key)
          | DIST_MODULA \<Rightarrow> modula_dispatch ?c ?n (server_pool_hash pool key)
          | DIST_RANDOM \<Rightarrow> random_dispatch rnd ?c ?n 0) = i"
    using n ketama.dispatch [OF n(1,2)] modula.dispatch [OF n(1,2)] random.dispatch [OF n(1,2)]
    by (cases "dist_type pool") (simp_all add: dist_ordered_def Let_def)
  then obtain i where i: "i \<in> index ` set (slots pool)" "server_pool_idx rnd pool key
      = (if servers pool = [] \<or> ?n = 0 \<or> length (servers pool) \<le> i then None else Some i)"
    unfolding server_pool_idx_def Let_def by blast
  then have "i < length (servers pool) \<and> (auto_eject_hosts pool \<longrightarrow> next_retry (servers pool ! i) = 0)"
    using assms(1) by (auto simp: targets_ok_def)
  then show ?thesis using that [of i] i n(1) assms(2) by simp
qed

lemma inv_targets: "pool_inv pool \<Longrightarrow> nlive_server pool \<noteq> 0 \<Longrightarrow> targets_ok pool"
  by (simp add: pool_inv_def pool_ring_def)

lemma rebuilt_live:
  assumes "rebuilt ord now pool pool'" "s \<in> set (servers pool)" "live (auto_eject_hosts pool) now s"
  shows "nlive_server pool' \<noteq> 0"
  using assms by (auto simp: rebuilt_def filter_empty_conv)

text \<open>The outcome of an update: a pool with a live server, or a refusal that changes nothing.\<close>

lemma server_pool_update_inv:
  assumes inv: "pool_inv pool" and t: "now \<le> now'"
  obtains (usable) pool' where "server_pool_update mem now now' pool = Some (NC_OK, pool')" "pool_inv pool'"
      "nlive_server pool' \<noteq> 0" "map s_conn_q (servers pool') = map s_conn_q (servers pool)"
      "auto_eject_hosts pool' = auto_eject_hosts pool" "pool' = pool \<or>
        auto_eject_hosts pool \<and> 0 \<le> now \<and> rebuilt (dist_ordered (dist_type pool)) now' pool pool'"
    | (refused) "server_pool_update mem now now' pool = Some (NC_ERROR, pool)" "auto_eject_hosts pool"
      "now < 0 \<or> nlive_server pool = 0 \<and> now \<le> next_rebuild pool"
proof (cases "auto_eject_hosts pool \<and> next_rebuild pool \<noteq> 0 \<and> (0 \<le> now \<longrightarrow> next_rebuild pool < now \<or> nlive_server pool = 0)")
  case False
  have "nlive_server pool \<noteq> 0" using False inv by (auto simp: pool_inv_def pool_ring_def)
  moreover have "server_pool_update mem now now' pool = Some (NC_OK, pool)"
    using False by (auto simp: server_pool_update_def)
  ultimately show ?thesis using usable inv by blast
next
  case True
  show ?thesis
  proof (cases "0 \<le> now \<and> next_rebuild pool < now")
    case False
    then show ?thesis using True refused by (auto simp: server_pool_update_def)
  next
    case late: True
    obtain s where s: "s \<in> set (servers pool)" "next_retry s \<le> next_rebuild pool"
      using True inv by (auto simp: pool_inv_def pool_ring_def)
    obtain pool' where run: "server_pool_run mem now' pool = Some (NC_OK, pool')" "pool_inv pool'"
      "rebuilt (dist_ordered (dist_type pool)) now' pool pool'"
      by (rule run_inv [of pool now' mem]) (use inv late t in \<open>auto simp: pool_inv_def\<close>)
    have "nlive_server pool' \<noteq> 0"
      using rebuilt_live [OF run(3) s(1)] s(2) late t by (simp add: live_def skip_server_def)
    moreover have "map s_conn_q (servers pool') = map s_conn_q (servers pool)" "auto_eject_hosts pool' = auto_eject_hosts pool"
      using run(3) by (auto simp: rebuilt_def comp_def)
    ultimately show ?thesis
      using usable [of pool'] run True late by (simp add: server_pool_update_def)
  qed
qed

definition fresh_conn :: "nat option \<Rightarrow> server_pool \<Rightarrow> bool" where
  "fresh_conn new pool \<longleftrightarrow> (\<forall>c qs. new = Some c \<longrightarrow> qs \<in> set (map s_conn_q (servers pool)) \<longrightarrow> c \<notin> set qs)"

text \<open>Taking a connection of a server: a new one or the next in its queue.\<close>

lemma pool_conn_inv:
  assumes inv: "pool_inv pool" and i: "i < length (servers pool)" and new: "fresh_conn new pool"
  obtains c s where "pool_conn new i pool = Some (c, set_server i s pool)" "pool_inv (set_server i s pool)"
    "next_retry s = next_retry (servers pool ! i)" "c = None \<longrightarrow> new = None" "\<forall>k. c = Some k \<longrightarrow> k \<in> set (s_conn_q s)"
proof -
  note s = inv_server [OF inv i]
  have q: "\<forall>c. new = Some c \<longrightarrow> c \<notin> set (s_conn_q (servers pool ! i))"
    using new i unfolding fresh_conn_def by auto
  obtain c s' where c: "server_conn new (server_connections pool) (servers pool ! i) = Some (c, s')"
    "conn_inv (server_connections pool) s'" "weight s' = weight (servers pool ! i)" "sname s' = sname (servers pool ! i)"
    "next_retry s' = next_retry (servers pool ! i)" "c = None \<longrightarrow> new = None \<and> s' = servers pool ! i"
    "\<forall>k. c = Some k \<longrightarrow> k \<in> set (s_conn_q s')"
    by (rule conn_inv_cases [OF _ _ q, of "server_connections pool"])
      (use s inv in \<open>auto simp: pool_inv_def pool_base_def\<close>)
  have "pool_inv (set_server i s' pool)" using c by (intro inv_set_server inv i) auto
  then show ?thesis using that [of c s'] c by (simp add: pool_conn_def)
qed

lemma server_pool_pick_cases:
  assumes inv: "pool_inv pool" and t: "now \<le> now'" and new: "fresh_conn new pool"
  obtains (refused) "server_pool_pick mem now now' rnd new key pool = Some (None, pool)"
      "auto_eject_hosts pool" "now < 0 \<or> nlive_server pool = 0 \<and> now \<le> next_rebuild pool"
    | (chosen) p1 i c s where
      "server_pool_pick mem now now' rnd new key pool = Some (map_option (\<lambda>k. (i, k)) c, set_server i s p1)"
      "pool_inv (set_server i s p1)" "i < length (servers p1)" "auto_eject_hosts p1 = auto_eject_hosts pool"
      "auto_eject_hosts p1 \<longrightarrow> next_retry (servers p1 ! i) = 0" "next_retry s = next_retry (servers p1 ! i)"
      "c = None \<longrightarrow> new = None" "\<forall>k. c = Some k \<longrightarrow> k \<in> set (s_conn_q s)"
      "p1 = pool \<or> auto_eject_hosts pool \<and> 0 \<le> now \<and> rebuilt (dist_ordered (dist_type pool)) now' pool p1"
proof (cases rule: server_pool_update_inv [OF inv t, where mem = mem, case_names usable refused])
  case refused
  then show ?thesis using that(1) by (simp add: server_pool_pick_def)
next
  case (usable p1)
  obtain i where i: "server_pool_idx rnd p1 key = Some i" "i < length (servers p1)"
    "auto_eject_hosts p1 \<longrightarrow> next_retry (servers p1 ! i) = 0"
    by (rule idx_of_inv [OF inv_targets [OF usable(2,3)], of rnd key])
      (use usable(2) in \<open>auto simp: pool_inv_def pool_base_def\<close>)
  have new1: "fresh_conn new p1" using new unfolding fresh_conn_def usable(4) .
  obtain c s where c: "pool_conn new i p1 = Some (c, set_server i s p1)" "pool_inv (set_server i s p1)"
    "next_retry s = next_retry (servers p1 ! i)" "c = None \<longrightarrow> new = None" "\<forall>k. c = Some k \<longrightarrow> k \<in> set (s_conn_q s)"
    by (rule pool_conn_inv [OF usable(2) i(2) new1])
  have "server_pool_pick mem now now' rnd new key pool = Some (map_option (\<lambda>k. (i, k)) c, set_server i s p1)"
    using usable(1) i(1) c(1) by (simp add: server_pool_pick_def server_pool_server_def split: option.split)
  then show ?thesis by (rule that(2)) (use i c usable in auto)
qed

lemma server_pool_pick_inv:
  assumes inv: "pool_inv pool" and t: "now \<le> now'" and new: "fresh_conn new pool"
  obtains (picked) i c pool' where "server_pool_pick mem now now' rnd new key pool = Some (Some (i, c), pool')"
      "pool_inv pool'" "i < length (servers pool')" "c \<in> set (s_conn_q (servers pool' ! i))"
      "auto_eject_hosts pool' \<longrightarrow> next_retry (servers pool' ! i) = 0"
    | (none) pool' where "server_pool_pick mem now now' rnd new key pool = Some (None, pool')" "pool_inv pool'"
      "new = None \<or> auto_eject_hosts pool \<and> (now < 0 \<or> nlive_server pool = 0 \<and> now \<le> next_rebuild pool)"
proof (cases rule: server_pool_pick_cases [OF assms, where mem = mem and rnd = rnd and key = key, case_names refused chosen])
  case refused
  then show ?thesis using none [of pool] inv by simp
next
  case (chosen p1 i c s)
  then show ?thesis
    using none [of "set_server i s p1"] picked [of i _ "set_server i s p1"] by (cases c) auto
qed

lemma server_close_owner_inv:
  assumes inv: "pool_inv pool" and i: "i < length (servers pool)" and t: "now \<le> now'"
    and c: "c \<in> set (s_conn_q (servers pool ! i))"
  obtains pool' where "server_close_owner mem now now' i c pool = Some pool'" "pool_inv pool'"
    "map s_conn_q (servers pool') = (map s_conn_q (servers pool))[i := remove1 c (s_conn_q (servers pool ! i))]"
proof -
  obtain p1 where p1: "server_failure mem now now' i pool = Some p1" "pool_inv p1"
    "map s_conn_q (servers p1) = map s_conn_q (servers pool)"
    by (rule server_failure_inv [OF inv i t])
  have i1: "i < length (servers p1)" using map_eq_imp_length_eq [OF p1(3)] i by simp
  have q: "s_conn_q (servers p1 ! i) = s_conn_q (servers pool ! i)" using p1(3) i i1 by (metis nth_map)
  obtain s' where s': "server_unref c (servers p1 ! i) = Some s'" "conn_inv (server_connections p1) s'"
    "weight s' = weight (servers p1 ! i)" "sname s' = sname (servers p1 ! i)"
    "next_retry s' = next_retry (servers p1 ! i)" "s_conn_q s' = remove1 c (s_conn_q (servers p1 ! i))"
    by (rule conn_inv_unref [of "server_connections p1" "servers p1 ! i" c])
      (use inv_server [OF p1(2) i1] c q in auto)
  have "pool_inv (set_server i s' p1)" using s' by (intro inv_set_server p1(2) i1) auto
  moreover have "server_close_owner mem now now' i c pool = Some (set_server i s' p1)"
    using p1(1) s'(1) by (simp add: server_close_owner_def)
  moreover have "map s_conn_q ((servers p1)[i := s']) = (map s_conn_q (servers pool))[i := remove1 c (s_conn_q (servers pool ! i))]"
    using s'(6) q p1(3) by (simp add: map_update)
  ultimately show ?thesis using that [of "set_server i s' p1"] by simp
qed

subsection \<open>The life of a pool\<close>

text \<open>
  A pool as \<open>conf_pool_each_transform\<close> leaves it: no server has failed yet, no connection is
  open and no slot is allocated.
\<close>

definition pool_configured :: "server_pool \<Rightarrow> bool" where
  "pool_configured pool \<longleftrightarrow> servers pool \<noteq> [] \<and> dist_ok pool \<and> 0 \<le> server_retry_timeout pool \<and>
     0 < server_connections pool \<and>
     (\<forall>s \<in> set (servers pool). next_retry s = 0 \<and> ns_conn_q s = 0 \<and> s_conn_q s = [])"

text \<open>
  The operations on a pool, in any order: a request asks for a connection, a server gets a
  connection before any request, a connection is closed, a server answers.  An event names
  the first and the last clock reading of the operation; the readings do not run backwards.
\<close>

datatype pool_event = Asked int int | Preconnected int int | Closed int int | Answered nat

inductive pool_step :: "pool_event \<Rightarrow> server_pool \<Rightarrow> server_pool \<Rightarrow> bool" where
  asked: "now \<le> now' \<Longrightarrow> now' \<le> t \<Longrightarrow> t \<le> t' \<Longrightarrow> fresh_conn new pool \<Longrightarrow>
      server_pool_conn mem now now' rnd new key up mem' t t' pool = Some (r, pool') \<Longrightarrow> pool_step (Asked now t') pool pool'"
| preconnected: "t \<le> t' \<Longrightarrow> fresh_conn new pool \<Longrightarrow> i < length (servers pool) \<Longrightarrow>
      server_each_preconnect new up mem t t' i pool = Some (st, pool') \<Longrightarrow> pool_step (Preconnected t t') pool pool'"
| closed: "t \<le> t' \<Longrightarrow> i < length (servers pool) \<Longrightarrow> c \<in> set (s_conn_q (servers pool ! i)) \<Longrightarrow>
      server_close_owner mem t t' i c pool = Some pool' \<Longrightarrow> pool_step (Closed t t') pool pool'"
| answered: "i < length (servers pool) \<Longrightarrow>
      pool_step (Answered i) pool (pool\<lparr>servers := (servers pool)[i := server_ok (servers pool ! i)]\<rparr>)"

inductive_cases pool_stepE: "pool_step e pool pool'"

inductive pool_reachable :: "server_pool \<Rightarrow> bool" where
  start: "pool_configured pool \<Longrightarrow> 0 \<le> now \<Longrightarrow> server_pool_run mem now pool = Some (NC_OK, pool') \<Longrightarrow>
      pool_reachable pool'"
| step: "pool_reachable pool \<Longrightarrow> pool_step e pool pool' \<Longrightarrow> pool_reachable pool'"

text \<open>A sequence of operations whose events all satisfy \<open>P\<close>.\<close>

inductive pool_run :: "(pool_event \<Rightarrow> bool) \<Rightarrow> server_pool \<Rightarrow> server_pool \<Rightarrow> bool" for P where
  refl: "pool_run P pool pool"
| step: "pool_run P pool pool' \<Longrightarrow> P e \<Longrightarrow> pool_step e pool' pool'' \<Longrightarrow> pool_run P pool pool''"

text \<open>Every step is a choice of a connection, which may be missing, and possibly its close.\<close>

lemma pool_step_parts:
  assumes "pool_step e pool pool'" "pool_inv pool"
  obtains (answered) i where "e = Answered i" "i < length (servers pool)"
      "pool' = set_server i (server_ok (servers pool ! i)) pool"
    | (kept) t t' p1 i s where "e = Asked t t' \<or> e = Preconnected t t'" "t \<le> t'" "pool_inv (set_server i s p1)"
      "i < length (servers p1)" "next_retry s = next_retry (servers p1 ! i)" "pool' = set_server i s p1"
      "p1 = pool \<or> auto_eject_hosts pool \<and> 0 \<le> t \<and> (\<exists>now'. t \<le> now' \<and> now' \<le> t' \<and> rebuilt (dist_ordered (dist_type pool)) now' pool p1)"
    | (closed) t t' u u' mem p1 i s c where "e = Asked t t' \<or> e = Preconnected t t' \<or> e = Closed t t'" "t \<le> u" "u \<le> u'" "u' \<le> t'"
      "pool_inv (set_server i s p1)" "i < length (servers p1)" "next_retry s = next_retry (servers p1 ! i)"
      "c \<in> set (s_conn_q s)" "server_close_owner mem u u' i c (set_server i s p1) = Some pool'"
      "p1 = pool \<or> auto_eject_hosts pool \<and> 0 \<le> t \<and> (\<exists>now'. t \<le> now' \<and> now' \<le> t' \<and> rebuilt (dist_ordered (dist_type pool)) now' pool p1)"
    | (refused) t t' where "e = Asked t t'" "pool' = pool"
  using assms(1)
proof cases
  case (asked now now' t t' new mem rnd key up mem' r)
  note conn = asked(6) [unfolded server_pool_conn_def]
  show ?thesis
  proof (cases rule: server_pool_pick_cases [OF assms(2) asked(2,5), where mem = mem and rnd = rnd and key = key, case_names refused chosen])
    case refused
    then show ?thesis using that(4) [OF asked(1)] conn by simp
  next
    case (chosen p1 i c s)
    then show ?thesis
    proof (cases "c = None \<or> up")
      case True
      then have "pool' = set_server i s p1" using conn chosen(1) by (cases c) auto
      then show ?thesis
        by (intro that(2) [where t = now and t' = t' and i = i and s = s and ?p1.0 = p1]) (use asked chosen in auto)
    next
      case False
      then obtain k where k: "c = Some k" by auto
      then show ?thesis
        by (intro that(3) [where t = now and t' = t' and u = t and u' = t' and i = i and s = s and ?p1.0 = p1 and c = k and mem = mem']) (use asked chosen conn False in auto)
    qed
  qed
next
  case (preconnected t t' new i up mem st)
  note conn = preconnected(5) [unfolded server_each_preconnect_def]
  obtain c s where c: "pool_conn new i pool = Some (c, set_server i s pool)" "pool_inv (set_server i s pool)"
    "next_retry s = next_retry (servers pool ! i)" "\<forall>k. c = Some k \<longrightarrow> k \<in> set (s_conn_q s)"
    by (rule pool_conn_inv [OF assms(2) preconnected(4,3)])
  show ?thesis
  proof (cases "c = None \<or> up")
    case True
    then have "pool' = set_server i s pool" using conn c(1) by (cases c) auto
    then show ?thesis by (intro that(2) [where t = t and t' = t' and i = i and s = s and ?p1.0 = pool]) (use preconnected c in auto)
  next
    case False
    then obtain k where "c = Some k" by auto
    then show ?thesis by (intro that(3) [where t = t and t' = t' and u = t and u' = t' and i = i and s = s and ?p1.0 = pool and c = k and mem = mem]) (use preconnected c conn False in auto)
  qed
next
  case (closed t t' i c mem)
  then show ?thesis
    by (intro that(3) [where t = t and t' = t' and u = t and u' = t' and i = i and s = "servers pool ! i" and ?p1.0 = pool and c = c and mem = mem]) (use assms(2) in auto)
next
  case (answered i)
  then show ?thesis by (intro that(1)) auto
qed

lemma pool_step_inv [nc_inv]:
  assumes "pool_step e pool pool'" "pool_inv pool"
  shows "pool_inv pool'"
proof (cases rule: pool_step_parts [OF assms, case_names answered kept closed refused])
  case (closed t t' u u' mem p1 i s c)
  show ?thesis
    by (rule server_close_owner_inv [OF closed(5) _ closed(3), of i c mem]) (use closed in auto)
qed (use assms in \<open>auto intro: server_ok_inv\<close>)

lemma reachable_inv: "pool_reachable pool \<Longrightarrow> pool_inv pool"
proof (induction rule: pool_reachable.induct)
  case (start pool now mem pool')
  have live: "\<forall>s \<in> set (servers pool). live (auto_eject_hosts pool) now s"
    using start(1,2) by (auto simp: pool_configured_def live_def skip_server_def)
  have room: "rebuilt (dist_ordered (dist_type pool)) now pool pool' \<and> dist_ok pool' \<and>
     dist_need (dist_type pool) (servers pool') \<le> nserver_continuum pool'"
    by (rule run_room [OF _ start(2) _ live start(3)]) (use start(1) in \<open>auto simp: pool_configured_def\<close>)
  then show ?case
    using start(1,2) by (intro rebuilt_inv [of pool now]) (auto simp: pool_configured_def conn_inv_def)
next
  case (step pool pool')
  then show ?case by (auto dest: pool_step_inv)
qed

subsection \<open>A pool in operation\<close>

text \<open>A pool of one server, after its start, with a connection, and after that connection failed.\<close>

definition example_start :: "server list \<Rightarrow> server_pool" where
  "example_start ss = (example_pool DIST_MODULA ss)\<lparr>server_failure_limit := 1\<rparr>"

definition example_up :: server_pool where
  "example_up = (example_start [example_server ''a'' 0])\<lparr>ncontinuum := 1, nserver_continuum := 11, nlive_server := 1,
     continuum := replicate 11 \<lparr>index = 0, cvalue = 0\<rparr>\<rparr>"

definition example_open :: server_pool where
  "example_open = set_server 0 (server_ref 1 (example_server ''a'' 0)) example_up"

definition example_out :: server_pool where
  "example_out = example_up\<lparr>servers := [example_server ''a'' 30000300], next_rebuild := 30000300, nlive_server := 0\<rparr>"

text \<open>The same with two servers.\<close>

definition example_pair :: server_pool where
  "example_pair = (example_start [example_server ''a'' 0, example_server ''b'' 0])\<lparr>ncontinuum := 2,
     nserver_continuum := 12, nlive_server := 2,
     continuum := (replicate 12 \<lparr>index = 0, cvalue = 0\<rparr>)[0 := \<lparr>index = 0, cvalue = 0\<rparr>, 1 := \<lparr>index = 1, cvalue = 0\<rparr>]\<rparr>"

lemmas example_defs = example_start_def example_up_def example_open_def example_out_def example_pair_def example_pool_def example_server_def

lemma example_configured:
  "pool_configured (example_start [example_server ''a'' 0])"
  "pool_configured (example_start [example_server ''a'' 0, example_server ''b'' 0])"
  by (simp_all add: pool_configured_def dist_ok_def plain_pool_ok_def example_defs MODULA_CONTINUUM_ADDITION_def)

lemma example_up_run: "server_pool_run True 100 (example_start [example_server ''a'' 0]) = Some (NC_OK, example_up)"
  by (simp add: example_defs server_pool_run_def modula_update_def weights_ok_def live_scan_def live_step_def Let_def realloc_slots_def
      skip_server_def MODULA_CONTINUUM_ADDITION_def list_update_same_conv)

lemma example_pair_reachable: "pool_reachable example_pair"
proof (rule pool_reachable.start [OF example_configured(2)])
  show "server_pool_run True 100 (example_start [example_server ''a'' 0, example_server ''b'' 0]) = Some (NC_OK, example_pair)"
    by (simp add: example_defs server_pool_run_def modula_update_def weights_ok_def live_scan_def live_step_def Let_def realloc_slots_def
        skip_server_def MODULA_CONTINUUM_ADDITION_def)
qed simp

lemma example_reachable: "pool_reachable example_up" "pool_reachable example_open" "pool_reachable example_out"
proof -
  show up: "pool_reachable example_up" by (rule pool_reachable.start [OF example_configured(1) _ example_up_run]) simp
  have "server_pool_conn True 200 200 0 (Some 1) ''k'' True True 200 200 example_up = Some (Some (0, 1), example_open)"
    by (simp add: example_defs server_pool_conn_def server_pool_pick_def server_pool_update_def pool_conn_def server_pool_server_def
      server_pool_idx_def hash_tag_key_def server_pool_hash_def modula_dispatch_def server_conn_def server_ref_def Let_def)
  from pool_step.asked [OF _ _ _ _ this] show op: "pool_reachable example_open"
    by (intro pool_reachable.step [OF up]) (simp add: fresh_conn_def example_defs)
  have "server_close_owner True 300 300 0 1 example_open = Some example_out"
    by (simp add: example_defs server_close_owner_def server_failure_def server_unref_def server_ref_def
      server_pool_run_def modula_update_def weights_ok_def live_scan_def live_step_def Let_def)
  from pool_step.closed [OF _ _ _ this] show "pool_reachable example_out"
    by (intro pool_reachable.step [OF op]) (simp add: example_defs server_ref_def)
qed

subsection \<open>Properties\<close>

text \<open>
  C7: whatever requests, failures and answers a pool has seen, asking it for the connection
  of a key trips no assertion.  It yields a connection that is queued at its server, and a
  server that is not ejected.  It yields none only if the clock or the allocation of the
  connection fails, or if no server is live and the earliest retry time has not passed.
\<close>
theorem server_pool_pick_safe:
  assumes "pool_reachable pool" "now \<le> now'" "fresh_conn new pool"
  shows "\<exists>r pool'. server_pool_pick mem now now' rnd new key pool = Some (r, pool') \<and>
     (case r of
        Some (i, c) \<Rightarrow> i < length (servers pool') \<and> c \<in> set (s_conn_q (servers pool' ! i)) \<and>
          (auto_eject_hosts pool' \<longrightarrow> next_retry (servers pool' ! i) = 0)
      | None \<Rightarrow> new = None \<or> auto_eject_hosts pool \<and> (now < 0 \<or> nlive_server pool = 0 \<and> now \<le> next_rebuild pool))"
  by (rule server_pool_pick_inv [OF reachable_inv [OF assms(1)] assms(2,3), of mem rnd key]) simp_all

theorem server_pool_pick_safe_witness:
  "\<exists>r pool'. server_pool_pick True 200 200 0 (Some 7) ''k'' example_pair = Some (r, pool') \<and>
     (case r of
        Some (i, c) \<Rightarrow> i < length (servers pool') \<and> c \<in> set (s_conn_q (servers pool' ! i)) \<and>
          (auto_eject_hosts pool' \<longrightarrow> next_retry (servers pool' ! i) = 0)
      | None \<Rightarrow> Some (7 :: nat) = None \<or> auto_eject_hosts example_pair \<and>
          ((200 :: int) < 0 \<or> nlive_server example_pair = 0 \<and> 200 \<le> next_rebuild example_pair))"
  by (rule server_pool_pick_safe [OF example_pair_reachable]) (simp_all add: fresh_conn_def example_defs)

text \<open>
  C17: in every reachable pool the connection counter of a server is the length of its
  queue, no connection is queued twice, and the limit \<open>server_connections\<close> is kept.
\<close>
theorem server_connections_bounded:
  assumes "pool_reachable pool" "s \<in> set (servers pool)"
  shows "unat (ns_conn_q s) = length (s_conn_q s) \<and> distinct (s_conn_q s) \<and>
     length (s_conn_q s) \<le> unat (server_connections pool)"
  using reachable_inv [OF assms(1)] assms(2)
  by (auto simp: pool_inv_def pool_base_def conn_inv_def word_le_nat_alt)

theorem server_connections_bounded_witness:
  "unat (ns_conn_q (servers example_open ! 0)) = length (s_conn_q (servers example_open ! 0)) \<and>
     distinct (s_conn_q (servers example_open ! 0)) \<and>
     length (s_conn_q (servers example_open ! 0)) \<le> unat (server_connections example_open)"
  by (rule server_connections_bounded [OF example_reachable(2)]) (simp add: example_defs)

text \<open>An ejection at time \<open>now\<close>, and the events of the time until the server may return.\<close>

definition ejected :: "nat \<Rightarrow> int \<Rightarrow> int \<Rightarrow> server_pool \<Rightarrow> bool" where
  "ejected i now timeout pool \<longleftrightarrow> auto_eject_hosts pool \<and> i < length (servers pool) \<and>
     server_retry_timeout pool = timeout \<and> now + timeout \<le> next_retry (servers pool ! i)"

definition event_within :: "int \<Rightarrow> int \<Rightarrow> pool_event \<Rightarrow> bool" where
  "event_within a b e = (case e of Asked t t' \<Rightarrow> a \<le> t \<and> t' < b | Preconnected t t' \<Rightarrow> a \<le> t \<and> t' < b
     | Closed t t' \<Rightarrow> a \<le> t \<and> t' < b | Answered i \<Rightarrow> True)"

lemma ejected_rebuilt:
  assumes "ejected i now n pool" "rebuilt ord t pool pool'" "t < now + n"
  shows "ejected i now n pool'"
  using assms by (auto simp: ejected_def rebuilt_def refresh_def)

lemma ejected_set:
  assumes "ejected i now n pool" "j = i \<longrightarrow> now + n \<le> next_retry s"
  shows "ejected i now n (set_server j s pool)"
  using assms by (cases "j = i") (auto simp: ejected_def)

lemma ejected_close:
  assumes ej: "ejected i now n pool" and inv: "pool_inv pool" and j: "j < length (servers pool)" "c \<in> set (s_conn_q (servers pool ! j))"
    and t: "now \<le> t" "t \<le> t'" "t' < now + n" and close: "server_close_owner mem t t' j c pool = Some pool'"
  shows "ejected i now n pool'"
proof -
  obtain p1 where fail: "server_failure mem t t' j pool = Some p1" using close by (auto simp: server_close_owner_def split: option.splits)
  have ej1: "ejected i now n p1"
  proof (cases rule: server_failure_cases [OF inv j(1) t(2), where mem = mem, case_names counted rebuilt])
    case (counted s)
    then show ?thesis using ejected_set [OF ej, of j s] ej fail by (auto simp: ejected_def)
  next
    case (rebuilt s pool'')
    have "ejected i now n (set_server j s pool)" using ejected_set [OF ej, of j s] ej rebuilt(4) t(1) by (auto simp: ejected_def)
    from ejected_rebuilt [OF this rebuilt(6) t(3)] show ?thesis using fail rebuilt(1) by simp
  qed
  obtain s where "server_unref c (servers p1 ! j) = Some s" "pool' = set_server j s p1"
    using close fail by (auto simp: server_close_owner_def)
  then show ?thesis using ejected_set [OF ej1, of j s] ej1 by (auto simp: server_unref_def ejected_def split: if_splits)
qed

lemma ejected_step:
  assumes step: "pool_step e pool pool'" and inv: "pool_inv pool" and ej: "ejected i now n pool"
    and e: "e \<noteq> Answered i" "event_within now (now + n) e"
  shows "ejected i now n pool'"
proof -
  have chosen: "ejected i now n (set_server j s p1)"
    if "p1 = pool \<or> auto_eject_hosts pool \<and> 0 \<le> t \<and> (\<exists>now'. t \<le> now' \<and> now' \<le> t' \<and> rebuilt ord now' pool p1)"
      "next_retry s = next_retry (servers p1 ! j)" "t' < now + n" for p1 t t' j s ord
  proof -
    have ej1: "ejected i now n p1" using that ej ejected_rebuilt [OF ej, of ord _ p1] by auto
    then show ?thesis using that(2) by (intro ejected_set) (auto simp: ejected_def)
  qed
  show ?thesis
  proof (cases rule: pool_step_parts [OF step inv, case_names answered kept closed refused])
    case (answered j)
    then show ?thesis using ejected_set [OF ej, of j] e(1) by simp
  next
    case (kept t t' p1 j s)
    then have "t' < now + n" using e(2) by (auto simp: event_within_def)
    from chosen [OF kept(7,5) this] show ?thesis using kept(6) by simp
  next
    case (closed t t' u u' mem p1 j s c)
    then have t: "now \<le> t" "t' < now + n" using e(2) by (auto simp: event_within_def)
    show ?thesis
      by (rule ejected_close [OF chosen [OF closed(10,7) t(2)] closed(5) _ _ _ closed(3) _ closed(9)])
        (use closed t in auto)
  qed (use ej in simp)
qed

lemma ejected_run:
  assumes "pool_run P pool pool'" "\<And>e. P e \<Longrightarrow> e \<noteq> Answered i \<and> event_within now (now + n) e" "pool_inv pool" "ejected i now n pool"
  shows "pool_inv pool' \<and> ejected i now n pool'"
  using assms(1,3,4)
proof (induction rule: pool_run.induct)
  case (step pool pool' e pool'')
  then show ?case using assms(2) [of e] pool_step_inv [of e pool' pool''] ejected_step [of e pool' pool'' i now n] by blast
qed simp

lemma ejected_not_picked:
  assumes inv: "pool_inv pool" and ej: "ejected i now n pool" "0 \<le> now" "0 < n"
    and pick: "t \<le> t'" "t' < now + n" "fresh_conn new pool" "server_pool_pick mem t t' rnd new key pool = Some (r, pool')"
  shows "r \<noteq> Some (i, c)"
proof (cases rule: server_pool_pick_cases [OF inv pick(1,3), where mem = mem and rnd = rnd and key = key, case_names refused chosen])
  case (chosen p1 j k s)
  have "ejected i now n p1" using chosen(9) ej(1) ejected_rebuilt [OF ej(1) _ pick(2)] by auto
  then have "j \<noteq> i" using chosen(4,5) ej by (auto simp: ejected_def)
  then show ?thesis using chosen(1) pick(4) by auto
qed (use pick in simp)

text \<open>
  C9: a server whose failures reach the limit is ejected for the retry timeout.  When the
  close of a connection counts the failure that reaches the limit, the pool stays without
  the server until its retry time: whatever requests, failures and answers of other
  servers follow, no key is mapped to it and no request gets one of its connections.  An
  answer of the server itself is excluded: if connections of the server still fail and
  answer while it is ejected, \<open>server_ok\<close> clears its retry time early.
\<close>
theorem server_failure_ejects:
  assumes reach: "pool_reachable pool" and i: "i < length (servers pool)" "c \<in> set (s_conn_q (servers pool ! i))"
    and auto: "auto_eject_hosts pool"
    and limit: "server_failure_limit pool \<le> failure_count (servers pool ! i) + 1"
    and t: "0 \<le> now" "now \<le> now'" "now' < now + server_retry_timeout pool"
  shows "\<exists>pool1. server_close_owner mem now now' i c pool = Some pool1 \<and>
     next_retry (servers pool1 ! i) = now + server_retry_timeout pool \<and>
     (\<forall>pool2. pool_run (\<lambda>e. e \<noteq> Answered i \<and> event_within now (now + server_retry_timeout pool) e) pool1 pool2 \<longrightarrow>
        (nlive_server pool2 \<noteq> 0 \<longrightarrow> server_pool_idx rnd pool2 key \<noteq> Some i) \<and>
        (\<forall>r pool3. u \<le> u' \<and> u' < now + server_retry_timeout pool \<and> fresh_conn new pool2 \<and>
           server_pool_pick mem' u u' rnd new key pool2 = Some (r, pool3) \<longrightarrow> (\<forall>k. r \<noteq> Some (i, k))))"
proof -
  note inv = reachable_inv [OF reach]
  obtain pool1 where close: "server_close_owner mem now now' i c pool = Some pool1" "pool_inv pool1"
    by (rule server_close_owner_inv [OF inv i(1) t(2) i(2), of mem])
  let ?s = "(servers pool ! i)\<lparr>failure_count := 0, next_retry := now + server_retry_timeout pool\<rparr>"
  have base: "pool_base (set_server i ?s pool)"
    using inv inv_server [OF inv i(1)] t by (intro base_set_server i) (auto simp: pool_inv_def pool_base_def conn_inv_def)
  obtain p where run: "server_pool_run mem now' (set_server i ?s pool) = Some (NC_OK, p)"
    "rebuilt (dist_ordered (dist_type (set_server i ?s pool))) now' (set_server i ?s pool) p"
    by (rule run_inv [OF base, of now' mem]) (use t in auto)
  have fail: "server_failure mem now now' i pool = Some p" using auto limit t(1) run(1) by (simp add: server_failure_def Let_def)
  have p: "servers p ! i = refresh True now' ?s" "auto_eject_hosts p" "i < length (servers p)"
    "server_retry_timeout p = server_retry_timeout pool" using run(2) i auto by (auto simp: rebuilt_def)
  obtain s where s: "server_unref c (servers p ! i) = Some s" "pool1 = set_server i s p"
    using close(1) fail by (auto simp: server_close_owner_def)
  then have ret: "next_retry (servers pool1 ! i) = now + server_retry_timeout pool"
    using p t(3) by (auto simp: server_unref_def refresh_def split: if_splits)
  have ej: "ejected i now (server_retry_timeout pool) pool1" using ret p s(2) by (simp add: ejected_def)
  have later: "(nlive_server pool2 \<noteq> 0 \<longrightarrow> server_pool_idx rnd pool2 key \<noteq> Some i) \<and>
      (\<forall>r pool3. u \<le> u' \<and> u' < now + server_retry_timeout pool \<and> fresh_conn new pool2 \<and>
         server_pool_pick mem' u u' rnd new key pool2 = Some (r, pool3) \<longrightarrow> (\<forall>k. r \<noteq> Some (i, k)))"
    if "pool_run (\<lambda>e. e \<noteq> Answered i \<and> event_within now (now + server_retry_timeout pool) e) pool1 pool2" for pool2
  proof -
    have inv2: "pool_inv pool2" "ejected i now (server_retry_timeout pool) pool2"
      using ejected_run [OF that _ close(2) ej] by blast+
    have "server_pool_idx rnd pool2 key \<noteq> Some i" if "nlive_server pool2 \<noteq> 0"
      by (rule idx_of_inv [OF inv_targets [OF inv2(1) that], of rnd key])
        (use inv2 t in \<open>auto simp: pool_inv_def pool_base_def ejected_def\<close>)
    moreover have "r \<noteq> Some (i, k)" if "u \<le> u'" "u' < now + server_retry_timeout pool" "fresh_conn new pool2"
      "server_pool_pick mem' u u' rnd new key pool2 = Some (r, pool3)" for r pool3 k
      by (rule ejected_not_picked [OF inv2 t(1) _ that]) (use t in simp)
    ultimately show ?thesis by blast
  qed
  show ?thesis using close(1) ret later by blast
qed

text \<open>Two servers, of which the second has a connection.\<close>

definition example_pair_open :: server_pool where
  "example_pair_open = set_server 1 (server_ref 7 (example_server ''b'' 0)) example_pair"

lemma example_pair_open_reachable: "pool_reachable example_pair_open"
proof -
  have "server_each_preconnect (Some 7) True True 150 150 1 example_pair = Some (NC_OK, example_pair_open)"
    by (simp add: example_pair_open_def example_defs server_each_preconnect_def pool_conn_def server_conn_def server_ref_def)
  from pool_step.preconnected [OF _ _ _ this] show ?thesis
    by (intro pool_reachable.step [OF example_pair_reachable]) (simp_all add: fresh_conn_def example_defs)
qed

theorem server_failure_ejects_witness:
  "\<exists>pool1. server_close_owner True 300 310 1 7 example_pair_open = Some pool1 \<and>
     next_retry (servers pool1 ! 1) = 300 + server_retry_timeout example_pair_open \<and>
     (nlive_server pool1 = 0 \<or> server_pool_idx 0 pool1 ''k'' \<noteq> Some 1)"
proof -
  have "\<exists>pool1. server_close_owner True 300 310 1 7 example_pair_open = Some pool1 \<and>
     next_retry (servers pool1 ! 1) = 300 + server_retry_timeout example_pair_open \<and>
     (\<forall>pool2. pool_run (\<lambda>e. e \<noteq> Answered 1 \<and> event_within 300 (300 + server_retry_timeout example_pair_open) e) pool1 pool2 \<longrightarrow>
        (nlive_server pool2 \<noteq> 0 \<longrightarrow> server_pool_idx 0 pool2 ''k'' \<noteq> Some 1) \<and>
        (\<forall>r pool3. 320 \<le> (330 :: int) \<and> 330 < 300 + server_retry_timeout example_pair_open \<and> fresh_conn (Some 8) pool2 \<and>
           server_pool_pick True 320 330 0 (Some 8) ''k'' pool2 = Some (r, pool3) \<longrightarrow> (\<forall>k. r \<noteq> Some (1, k))))"
    by (rule server_failure_ejects [OF example_pair_open_reachable])
      (simp_all add: example_pair_open_def example_defs server_ref_def)
  then show ?thesis by (meson pool_run.refl)
qed

lemma run_covers:
  assumes base: "pool_base pool" and now: "0 \<le> now" and i: "i < length (servers pool)"
    "live (auto_eject_hosts pool) now (servers pool ! i)" and run: "server_pool_run mem now pool = Some (NC_OK, pool')"
  shows "filter (\<lambda>p. index p = i) (slots pool') = dist_points (dist_type pool) (live_servers now pool) i (servers pool ! i)"
    and "dist_type pool \<noteq> DIST_KETAMA \<or> weights (live_servers now pool)
        \<le> 39 * (length (live_servers now pool) * unat (weight (servers pool ! i))) \<Longrightarrow>
      dist_points (dist_type pool) (live_servers now pool) i (servers pool ! i) \<noteq> []"
proof -
  have ok: "dist_ok pool" and ne: "servers pool \<noteq> []" using base by (simp_all add: pool_base_def)
  show "filter (\<lambda>p. index p = i) (slots pool') = dist_points (dist_type pool) (live_servers now pool) i (servers pool ! i)"
    using run ok ne ketama.cover [OF _ now _ i, of mem pool'] modula.cover [OF _ now _ i, of mem pool']
      random.cover [OF _ now _ i, of mem pool']
    by (cases "dist_type pool") (simp_all add: server_pool_run_def dist_ok_def dist_points_def)
  have plain: "plain_pool_ok pool \<Longrightarrow> unat (weight (servers pool ! i)) \<noteq> 0"
    using nth_mem [OF i(1)] by (auto simp: plain_pool_ok_def unat_eq_0)
  assume "dist_type pool \<noteq> DIST_KETAMA \<or> weights (live_servers now pool)
      \<le> 39 * (length (live_servers now pool) * unat (weight (servers pool ! i)))"
  then show "dist_points (dist_type pool) (live_servers now pool) i (servers pool ! i) \<noteq> []"
    using run ok ne ketama_due_some [OF _ now _ i, of mem pool'] plain
    by (cases "dist_type pool") (simp_all add: server_pool_run_def dist_ok_def dist_points_def plain_pts_def)
qed



text \<open>
  C15: a pool without a live server refuses every request, without touching its state, until
  the earliest retry time; the first request after it finds a live server.
\<close>
theorem dead_pool_refuses:
  assumes reach: "pool_reachable pool" and dead: "nlive_server pool = 0"
  shows "(0 \<le> now \<and> now \<le> next_rebuild pool \<longrightarrow>
       server_pool_pick mem now now' rnd new key pool = Some (None, pool)) \<and>
     (next_rebuild pool < now \<and> now \<le> now' \<longrightarrow>
       (\<exists>pool'. server_pool_update mem now now' pool = Some (NC_OK, pool') \<and> nlive_server pool' \<noteq> 0))"
proof (intro conjI impI)
  note inv = reachable_inv [OF reach]
  have r: "auto_eject_hosts pool" "next_rebuild pool \<noteq> 0"
    "\<exists>s \<in> set (servers pool). next_retry s \<le> next_rebuild pool" "\<forall>s \<in> set (servers pool). 0 \<le> next_retry s"
    using inv dead by (auto simp: pool_inv_def pool_ring_def pool_base_def)
  show "server_pool_pick mem now now' rnd new key pool = Some (None, pool)" if "0 \<le> now \<and> now \<le> next_rebuild pool"
    using r dead that by (simp add: server_pool_pick_def server_pool_update_def)
  assume late: "next_rebuild pool < now \<and> now \<le> now'"
  then have "\<not> (now < 0 \<or> nlive_server pool = 0 \<and> now \<le> next_rebuild pool)" using r(3,4) by force
  then show "\<exists>pool'. server_pool_update mem now now' pool = Some (NC_OK, pool') \<and> nlive_server pool' \<noteq> 0"
    using late by (cases rule: server_pool_update_inv [OF inv, of now now' mem]) auto
qed

theorem dead_pool_refuses_witness:
  "server_pool_pick True 400 400 0 (Some 2) ''k'' example_out = Some (None, example_out) \<and>
     (\<exists>pool'. server_pool_update True 30000301 30000301 example_out = Some (NC_OK, pool') \<and> nlive_server pool' \<noteq> 0)"
proof -
  have dead: "nlive_server example_out = 0" "next_rebuild example_out = 30000300" by (simp_all add: example_defs)
  show ?thesis
    using dead_pool_refuses [OF example_reachable(3) dead(1), of 400 True 400 0 "Some 2" "''k''"]
      dead_pool_refuses [OF example_reachable(3) dead(1), of 30000301 True 30000301]
    unfolding dead(2) by simp
qed

subsection \<open>Hash tags\<close>

lemma nc_strchr_first:
  "drop p d = xs @ c # ys \<Longrightarrow> c \<notin> set xs \<Longrightarrow> nc_strchr d p c = Some (p + length xs)"
proof (induction xs arbitrary: p)
  case Nil
  then have "p < length d" "d ! p = c" using dropD [of p d c ys] by auto
  then show ?case by (simp add: nc_strchr.simps)
next
  case (Cons x xs)
  then have "p < length d" "d ! p = x" "drop (Suc p) d = xs @ c # ys" using dropD [of p d x "xs @ c # ys"] by auto
  then show ?case using Cons.IH [of "Suc p"] Cons.prems(2) by (subst nc_strchr.simps) auto
qed

lemma hash_tag_key_braces:
  assumes "op \<notin> set a" "cl \<notin> set t" "t \<noteq> []"
  shows "hash_tag_key [op, cl] (a @ op # t @ cl # b) = t"
proof -
  have "nc_strchr (a @ op # t @ cl # b) 0 op = Some (length a)"
    using nc_strchr_first [of 0 "a @ op # t @ cl # b" a op "t @ cl # b"] assms(1) by simp
  moreover have "nc_strchr (a @ op # t @ cl # b) (Suc (length a)) cl = Some (Suc (length a) + length t)"
    using assms(2) by (intro nc_strchr_first [where ys = b]) simp_all
  ultimately show ?thesis using assms(3) by (auto simp: hash_tag_key_def)
qed

text \<open>
  C16: keys with the same hash tag live on the same server.  With a hash tag such as \<open>{}\<close>,
  only the text between the first opening and the next closing character decides where a
  key is mapped; everything around it is ignored.
\<close>
theorem hash_tag_colocates:
  assumes "hash_tag pool = [op, cl]" "op \<notin> set a" "op \<notin> set a'" "cl \<notin> set t" "t \<noteq> []"
    and "dist_type pool \<noteq> DIST_RANDOM"
  shows "server_pool_idx rnd pool (a @ op # t @ cl # b) = server_pool_idx rnd' pool (a' @ op # t @ cl # b')"
  using assms by (cases "dist_type pool") (simp_all add: server_pool_idx_def hash_tag_key_braces)

theorem hash_tag_colocates_witness:
  "server_pool_idx 0 (example_pair\<lparr>hash_tag := ''{}''\<rparr>) (''user:'' @ CHR ''{'' # ''17'' @ CHR ''}'' # '':name'')
     = server_pool_idx 0 (example_pair\<lparr>hash_tag := ''{}''\<rparr>) (''cart:'' @ CHR ''{'' # ''17'' @ CHR ''}'' # '':items'')"
  by (rule hash_tag_colocates [of _ "CHR ''{''" "CHR ''}''"]) (simp_all add: example_defs)

end
