(* ===== verification/Msg_Type.thy ===== *)
theory Msg_Type
  imports NC_Prelude
begin

text \<open>
  The enumeration \<open>msg_type\<close> of \<^verbatim>\<open>nc_message.h\<close>.  It is cut into one datatype per group of the
  source (memcache requests, redis string commands, and so on); the abbreviations give
  every enumerator its name in the code.
\<close>

datatype mc_request =
    REQ_MC_GET | REQ_MC_GETS | REQ_MC_DELETE | REQ_MC_CAS | REQ_MC_SET | REQ_MC_ADD
    | REQ_MC_REPLACE | REQ_MC_APPEND | REQ_MC_PREPEND | REQ_MC_INCR | REQ_MC_DECR
    | REQ_MC_TOUCH | REQ_MC_QUIT

datatype mc_response =
    RSP_MC_NUM | RSP_MC_STORED | RSP_MC_NOT_STORED | RSP_MC_EXISTS | RSP_MC_NOT_FOUND
    | RSP_MC_END | RSP_MC_VALUE | RSP_MC_DELETED | RSP_MC_TOUCHED | RSP_MC_ERROR
    | RSP_MC_CLIENT_ERROR | RSP_MC_SERVER_ERROR

datatype redis_key_cmd =
    REQ_REDIS_DEL | REQ_REDIS_EXISTS | REQ_REDIS_EXPIRE | REQ_REDIS_EXPIREAT
    | REQ_REDIS_PEXPIRE | REQ_REDIS_PEXPIREAT | REQ_REDIS_PERSIST | REQ_REDIS_PTTL
    | REQ_REDIS_SORT | REQ_REDIS_TTL | REQ_REDIS_TYPE

datatype redis_string_cmd =
    REQ_REDIS_APPEND | REQ_REDIS_BITCOUNT | REQ_REDIS_BITPOS | REQ_REDIS_DECR
    | REQ_REDIS_DECRBY | REQ_REDIS_DUMP | REQ_REDIS_GET | REQ_REDIS_GETBIT
    | REQ_REDIS_GETRANGE | REQ_REDIS_GETSET | REQ_REDIS_INCR | REQ_REDIS_INCRBY
    | REQ_REDIS_INCRBYFLOAT | REQ_REDIS_MGET | REQ_REDIS_MSET | REQ_REDIS_PSETEX
    | REQ_REDIS_RESTORE | REQ_REDIS_SET | REQ_REDIS_SETBIT | REQ_REDIS_SETEX
    | REQ_REDIS_SETNX | REQ_REDIS_SETRANGE | REQ_REDIS_STRLEN

datatype redis_hash_cmd =
    REQ_REDIS_HDEL | REQ_REDIS_HEXISTS | REQ_REDIS_HGET | REQ_REDIS_HGETALL
    | REQ_REDIS_HINCRBY | REQ_REDIS_HINCRBYFLOAT | REQ_REDIS_HKEYS | REQ_REDIS_HLEN
    | REQ_REDIS_HMGET | REQ_REDIS_HMSET | REQ_REDIS_HSET | REQ_REDIS_HSETNX
    | REQ_REDIS_HSCAN | REQ_REDIS_HVALS

datatype redis_list_cmd =
    REQ_REDIS_LINDEX | REQ_REDIS_LINSERT | REQ_REDIS_LLEN | REQ_REDIS_LPOP | REQ_REDIS_LPUSH
    | REQ_REDIS_LPUSHX | REQ_REDIS_LRANGE | REQ_REDIS_LREM | REQ_REDIS_LSET
    | REQ_REDIS_LTRIM | REQ_REDIS_PFADD | REQ_REDIS_PFCOUNT | REQ_REDIS_PFMERGE
    | REQ_REDIS_RPOP | REQ_REDIS_RPOPLPUSH | REQ_REDIS_RPUSH | REQ_REDIS_RPUSHX

datatype redis_set_cmd =
    REQ_REDIS_SADD | REQ_REDIS_SCARD | REQ_REDIS_SDIFF | REQ_REDIS_SDIFFSTORE
    | REQ_REDIS_SINTER | REQ_REDIS_SINTERSTORE | REQ_REDIS_SISMEMBER | REQ_REDIS_SMEMBERS
    | REQ_REDIS_SMOVE | REQ_REDIS_SPOP | REQ_REDIS_SRANDMEMBER | REQ_REDIS_SREM
    | REQ_REDIS_SUNION | REQ_REDIS_SUNIONSTORE | REQ_REDIS_SSCAN

datatype redis_zset_cmd =
    REQ_REDIS_ZADD | REQ_REDIS_ZCARD | REQ_REDIS_ZCOUNT | REQ_REDIS_ZINCRBY
    | REQ_REDIS_ZINTERSTORE | REQ_REDIS_ZLEXCOUNT | REQ_REDIS_ZRANGE | REQ_REDIS_ZRANGEBYLEX
    | REQ_REDIS_ZRANGEBYSCORE | REQ_REDIS_ZRANK | REQ_REDIS_ZREM | REQ_REDIS_ZREMRANGEBYRANK
    | REQ_REDIS_ZREMRANGEBYLEX | REQ_REDIS_ZREMRANGEBYSCORE | REQ_REDIS_ZREVRANGE
    | REQ_REDIS_ZREVRANGEBYSCORE | REQ_REDIS_ZREVRANK | REQ_REDIS_ZSCORE
    | REQ_REDIS_ZUNIONSTORE | REQ_REDIS_ZSCAN

datatype redis_other_cmd =
    REQ_REDIS_EVAL | REQ_REDIS_EVALSHA | REQ_REDIS_PING | REQ_REDIS_QUIT | REQ_REDIS_AUTH
    | REQ_REDIS_SELECT

datatype redis_response =
    RSP_REDIS_STATUS | RSP_REDIS_ERROR | RSP_REDIS_ERROR_ERR | RSP_REDIS_ERROR_OOM
    | RSP_REDIS_ERROR_BUSY | RSP_REDIS_ERROR_NOAUTH | RSP_REDIS_ERROR_LOADING
    | RSP_REDIS_ERROR_BUSYKEY | RSP_REDIS_ERROR_MISCONF | RSP_REDIS_ERROR_NOSCRIPT
    | RSP_REDIS_ERROR_READONLY | RSP_REDIS_ERROR_WRONGTYPE | RSP_REDIS_ERROR_EXECABORT
    | RSP_REDIS_ERROR_MASTERDOWN | RSP_REDIS_ERROR_NOREPLICAS | RSP_REDIS_INTEGER
    | RSP_REDIS_BULK | RSP_REDIS_MULTIBULK

datatype msg_type =
    MSG_UNKNOWN
  | Mc_req mc_request
  | Mc_rsp mc_response
  | Redis_key redis_key_cmd
  | Redis_string redis_string_cmd
  | Redis_hash redis_hash_cmd
  | Redis_list redis_list_cmd
  | Redis_set redis_set_cmd
  | Redis_zset redis_zset_cmd
  | Redis_other redis_other_cmd
  | Redis_rsp redis_response
  | MSG_SENTINEL

abbreviation "MSG_REQ_MC_GET \<equiv> Mc_req REQ_MC_GET"
abbreviation "MSG_REQ_MC_GETS \<equiv> Mc_req REQ_MC_GETS"
abbreviation "MSG_REQ_MC_DELETE \<equiv> Mc_req REQ_MC_DELETE"
abbreviation "MSG_REQ_MC_CAS \<equiv> Mc_req REQ_MC_CAS"
abbreviation "MSG_REQ_MC_SET \<equiv> Mc_req REQ_MC_SET"
abbreviation "MSG_REQ_MC_ADD \<equiv> Mc_req REQ_MC_ADD"
abbreviation "MSG_REQ_MC_REPLACE \<equiv> Mc_req REQ_MC_REPLACE"
abbreviation "MSG_REQ_MC_APPEND \<equiv> Mc_req REQ_MC_APPEND"
abbreviation "MSG_REQ_MC_PREPEND \<equiv> Mc_req REQ_MC_PREPEND"
abbreviation "MSG_REQ_MC_INCR \<equiv> Mc_req REQ_MC_INCR"
abbreviation "MSG_REQ_MC_DECR \<equiv> Mc_req REQ_MC_DECR"
abbreviation "MSG_REQ_MC_TOUCH \<equiv> Mc_req REQ_MC_TOUCH"
abbreviation "MSG_REQ_MC_QUIT \<equiv> Mc_req REQ_MC_QUIT"

abbreviation "MSG_RSP_MC_NUM \<equiv> Mc_rsp RSP_MC_NUM"
abbreviation "MSG_RSP_MC_STORED \<equiv> Mc_rsp RSP_MC_STORED"
abbreviation "MSG_RSP_MC_NOT_STORED \<equiv> Mc_rsp RSP_MC_NOT_STORED"
abbreviation "MSG_RSP_MC_EXISTS \<equiv> Mc_rsp RSP_MC_EXISTS"
abbreviation "MSG_RSP_MC_NOT_FOUND \<equiv> Mc_rsp RSP_MC_NOT_FOUND"
abbreviation "MSG_RSP_MC_END \<equiv> Mc_rsp RSP_MC_END"
abbreviation "MSG_RSP_MC_VALUE \<equiv> Mc_rsp RSP_MC_VALUE"
abbreviation "MSG_RSP_MC_DELETED \<equiv> Mc_rsp RSP_MC_DELETED"
abbreviation "MSG_RSP_MC_TOUCHED \<equiv> Mc_rsp RSP_MC_TOUCHED"
abbreviation "MSG_RSP_MC_ERROR \<equiv> Mc_rsp RSP_MC_ERROR"
abbreviation "MSG_RSP_MC_CLIENT_ERROR \<equiv> Mc_rsp RSP_MC_CLIENT_ERROR"
abbreviation "MSG_RSP_MC_SERVER_ERROR \<equiv> Mc_rsp RSP_MC_SERVER_ERROR"

abbreviation "MSG_REQ_REDIS_DEL \<equiv> Redis_key REQ_REDIS_DEL"
abbreviation "MSG_REQ_REDIS_EXISTS \<equiv> Redis_key REQ_REDIS_EXISTS"
abbreviation "MSG_REQ_REDIS_EXPIRE \<equiv> Redis_key REQ_REDIS_EXPIRE"
abbreviation "MSG_REQ_REDIS_EXPIREAT \<equiv> Redis_key REQ_REDIS_EXPIREAT"
abbreviation "MSG_REQ_REDIS_PEXPIRE \<equiv> Redis_key REQ_REDIS_PEXPIRE"
abbreviation "MSG_REQ_REDIS_PEXPIREAT \<equiv> Redis_key REQ_REDIS_PEXPIREAT"
abbreviation "MSG_REQ_REDIS_PERSIST \<equiv> Redis_key REQ_REDIS_PERSIST"
abbreviation "MSG_REQ_REDIS_PTTL \<equiv> Redis_key REQ_REDIS_PTTL"
abbreviation "MSG_REQ_REDIS_SORT \<equiv> Redis_key REQ_REDIS_SORT"
abbreviation "MSG_REQ_REDIS_TTL \<equiv> Redis_key REQ_REDIS_TTL"
abbreviation "MSG_REQ_REDIS_TYPE \<equiv> Redis_key REQ_REDIS_TYPE"

abbreviation "MSG_REQ_REDIS_APPEND \<equiv> Redis_string REQ_REDIS_APPEND"
abbreviation "MSG_REQ_REDIS_BITCOUNT \<equiv> Redis_string REQ_REDIS_BITCOUNT"
abbreviation "MSG_REQ_REDIS_BITPOS \<equiv> Redis_string REQ_REDIS_BITPOS"
abbreviation "MSG_REQ_REDIS_DECR \<equiv> Redis_string REQ_REDIS_DECR"
abbreviation "MSG_REQ_REDIS_DECRBY \<equiv> Redis_string REQ_REDIS_DECRBY"
abbreviation "MSG_REQ_REDIS_DUMP \<equiv> Redis_string REQ_REDIS_DUMP"
abbreviation "MSG_REQ_REDIS_GET \<equiv> Redis_string REQ_REDIS_GET"
abbreviation "MSG_REQ_REDIS_GETBIT \<equiv> Redis_string REQ_REDIS_GETBIT"
abbreviation "MSG_REQ_REDIS_GETRANGE \<equiv> Redis_string REQ_REDIS_GETRANGE"
abbreviation "MSG_REQ_REDIS_GETSET \<equiv> Redis_string REQ_REDIS_GETSET"
abbreviation "MSG_REQ_REDIS_INCR \<equiv> Redis_string REQ_REDIS_INCR"
abbreviation "MSG_REQ_REDIS_INCRBY \<equiv> Redis_string REQ_REDIS_INCRBY"
abbreviation "MSG_REQ_REDIS_INCRBYFLOAT \<equiv> Redis_string REQ_REDIS_INCRBYFLOAT"
abbreviation "MSG_REQ_REDIS_MGET \<equiv> Redis_string REQ_REDIS_MGET"
abbreviation "MSG_REQ_REDIS_MSET \<equiv> Redis_string REQ_REDIS_MSET"
abbreviation "MSG_REQ_REDIS_PSETEX \<equiv> Redis_string REQ_REDIS_PSETEX"
abbreviation "MSG_REQ_REDIS_RESTORE \<equiv> Redis_string REQ_REDIS_RESTORE"
abbreviation "MSG_REQ_REDIS_SET \<equiv> Redis_string REQ_REDIS_SET"
abbreviation "MSG_REQ_REDIS_SETBIT \<equiv> Redis_string REQ_REDIS_SETBIT"
abbreviation "MSG_REQ_REDIS_SETEX \<equiv> Redis_string REQ_REDIS_SETEX"
abbreviation "MSG_REQ_REDIS_SETNX \<equiv> Redis_string REQ_REDIS_SETNX"
abbreviation "MSG_REQ_REDIS_SETRANGE \<equiv> Redis_string REQ_REDIS_SETRANGE"
abbreviation "MSG_REQ_REDIS_STRLEN \<equiv> Redis_string REQ_REDIS_STRLEN"

abbreviation "MSG_REQ_REDIS_HDEL \<equiv> Redis_hash REQ_REDIS_HDEL"
abbreviation "MSG_REQ_REDIS_HEXISTS \<equiv> Redis_hash REQ_REDIS_HEXISTS"
abbreviation "MSG_REQ_REDIS_HGET \<equiv> Redis_hash REQ_REDIS_HGET"
abbreviation "MSG_REQ_REDIS_HGETALL \<equiv> Redis_hash REQ_REDIS_HGETALL"
abbreviation "MSG_REQ_REDIS_HINCRBY \<equiv> Redis_hash REQ_REDIS_HINCRBY"
abbreviation "MSG_REQ_REDIS_HINCRBYFLOAT \<equiv> Redis_hash REQ_REDIS_HINCRBYFLOAT"
abbreviation "MSG_REQ_REDIS_HKEYS \<equiv> Redis_hash REQ_REDIS_HKEYS"
abbreviation "MSG_REQ_REDIS_HLEN \<equiv> Redis_hash REQ_REDIS_HLEN"
abbreviation "MSG_REQ_REDIS_HMGET \<equiv> Redis_hash REQ_REDIS_HMGET"
abbreviation "MSG_REQ_REDIS_HMSET \<equiv> Redis_hash REQ_REDIS_HMSET"
abbreviation "MSG_REQ_REDIS_HSET \<equiv> Redis_hash REQ_REDIS_HSET"
abbreviation "MSG_REQ_REDIS_HSETNX \<equiv> Redis_hash REQ_REDIS_HSETNX"
abbreviation "MSG_REQ_REDIS_HSCAN \<equiv> Redis_hash REQ_REDIS_HSCAN"
abbreviation "MSG_REQ_REDIS_HVALS \<equiv> Redis_hash REQ_REDIS_HVALS"

abbreviation "MSG_REQ_REDIS_LINDEX \<equiv> Redis_list REQ_REDIS_LINDEX"
abbreviation "MSG_REQ_REDIS_LINSERT \<equiv> Redis_list REQ_REDIS_LINSERT"
abbreviation "MSG_REQ_REDIS_LLEN \<equiv> Redis_list REQ_REDIS_LLEN"
abbreviation "MSG_REQ_REDIS_LPOP \<equiv> Redis_list REQ_REDIS_LPOP"
abbreviation "MSG_REQ_REDIS_LPUSH \<equiv> Redis_list REQ_REDIS_LPUSH"
abbreviation "MSG_REQ_REDIS_LPUSHX \<equiv> Redis_list REQ_REDIS_LPUSHX"
abbreviation "MSG_REQ_REDIS_LRANGE \<equiv> Redis_list REQ_REDIS_LRANGE"
abbreviation "MSG_REQ_REDIS_LREM \<equiv> Redis_list REQ_REDIS_LREM"
abbreviation "MSG_REQ_REDIS_LSET \<equiv> Redis_list REQ_REDIS_LSET"
abbreviation "MSG_REQ_REDIS_LTRIM \<equiv> Redis_list REQ_REDIS_LTRIM"
abbreviation "MSG_REQ_REDIS_PFADD \<equiv> Redis_list REQ_REDIS_PFADD"
abbreviation "MSG_REQ_REDIS_PFCOUNT \<equiv> Redis_list REQ_REDIS_PFCOUNT"
abbreviation "MSG_REQ_REDIS_PFMERGE \<equiv> Redis_list REQ_REDIS_PFMERGE"
abbreviation "MSG_REQ_REDIS_RPOP \<equiv> Redis_list REQ_REDIS_RPOP"
abbreviation "MSG_REQ_REDIS_RPOPLPUSH \<equiv> Redis_list REQ_REDIS_RPOPLPUSH"
abbreviation "MSG_REQ_REDIS_RPUSH \<equiv> Redis_list REQ_REDIS_RPUSH"
abbreviation "MSG_REQ_REDIS_RPUSHX \<equiv> Redis_list REQ_REDIS_RPUSHX"

abbreviation "MSG_REQ_REDIS_SADD \<equiv> Redis_set REQ_REDIS_SADD"
abbreviation "MSG_REQ_REDIS_SCARD \<equiv> Redis_set REQ_REDIS_SCARD"
abbreviation "MSG_REQ_REDIS_SDIFF \<equiv> Redis_set REQ_REDIS_SDIFF"
abbreviation "MSG_REQ_REDIS_SDIFFSTORE \<equiv> Redis_set REQ_REDIS_SDIFFSTORE"
abbreviation "MSG_REQ_REDIS_SINTER \<equiv> Redis_set REQ_REDIS_SINTER"
abbreviation "MSG_REQ_REDIS_SINTERSTORE \<equiv> Redis_set REQ_REDIS_SINTERSTORE"
abbreviation "MSG_REQ_REDIS_SISMEMBER \<equiv> Redis_set REQ_REDIS_SISMEMBER"
abbreviation "MSG_REQ_REDIS_SMEMBERS \<equiv> Redis_set REQ_REDIS_SMEMBERS"
abbreviation "MSG_REQ_REDIS_SMOVE \<equiv> Redis_set REQ_REDIS_SMOVE"
abbreviation "MSG_REQ_REDIS_SPOP \<equiv> Redis_set REQ_REDIS_SPOP"
abbreviation "MSG_REQ_REDIS_SRANDMEMBER \<equiv> Redis_set REQ_REDIS_SRANDMEMBER"
abbreviation "MSG_REQ_REDIS_SREM \<equiv> Redis_set REQ_REDIS_SREM"
abbreviation "MSG_REQ_REDIS_SUNION \<equiv> Redis_set REQ_REDIS_SUNION"
abbreviation "MSG_REQ_REDIS_SUNIONSTORE \<equiv> Redis_set REQ_REDIS_SUNIONSTORE"
abbreviation "MSG_REQ_REDIS_SSCAN \<equiv> Redis_set REQ_REDIS_SSCAN"

abbreviation "MSG_REQ_REDIS_ZADD \<equiv> Redis_zset REQ_REDIS_ZADD"
abbreviation "MSG_REQ_REDIS_ZCARD \<equiv> Redis_zset REQ_REDIS_ZCARD"
abbreviation "MSG_REQ_REDIS_ZCOUNT \<equiv> Redis_zset REQ_REDIS_ZCOUNT"
abbreviation "MSG_REQ_REDIS_ZINCRBY \<equiv> Redis_zset REQ_REDIS_ZINCRBY"
abbreviation "MSG_REQ_REDIS_ZINTERSTORE \<equiv> Redis_zset REQ_REDIS_ZINTERSTORE"
abbreviation "MSG_REQ_REDIS_ZLEXCOUNT \<equiv> Redis_zset REQ_REDIS_ZLEXCOUNT"
abbreviation "MSG_REQ_REDIS_ZRANGE \<equiv> Redis_zset REQ_REDIS_ZRANGE"
abbreviation "MSG_REQ_REDIS_ZRANGEBYLEX \<equiv> Redis_zset REQ_REDIS_ZRANGEBYLEX"
abbreviation "MSG_REQ_REDIS_ZRANGEBYSCORE \<equiv> Redis_zset REQ_REDIS_ZRANGEBYSCORE"
abbreviation "MSG_REQ_REDIS_ZRANK \<equiv> Redis_zset REQ_REDIS_ZRANK"
abbreviation "MSG_REQ_REDIS_ZREM \<equiv> Redis_zset REQ_REDIS_ZREM"
abbreviation "MSG_REQ_REDIS_ZREMRANGEBYRANK \<equiv> Redis_zset REQ_REDIS_ZREMRANGEBYRANK"
abbreviation "MSG_REQ_REDIS_ZREMRANGEBYLEX \<equiv> Redis_zset REQ_REDIS_ZREMRANGEBYLEX"
abbreviation "MSG_REQ_REDIS_ZREMRANGEBYSCORE \<equiv> Redis_zset REQ_REDIS_ZREMRANGEBYSCORE"
abbreviation "MSG_REQ_REDIS_ZREVRANGE \<equiv> Redis_zset REQ_REDIS_ZREVRANGE"
abbreviation "MSG_REQ_REDIS_ZREVRANGEBYSCORE \<equiv> Redis_zset REQ_REDIS_ZREVRANGEBYSCORE"
abbreviation "MSG_REQ_REDIS_ZREVRANK \<equiv> Redis_zset REQ_REDIS_ZREVRANK"
abbreviation "MSG_REQ_REDIS_ZSCORE \<equiv> Redis_zset REQ_REDIS_ZSCORE"
abbreviation "MSG_REQ_REDIS_ZUNIONSTORE \<equiv> Redis_zset REQ_REDIS_ZUNIONSTORE"
abbreviation "MSG_REQ_REDIS_ZSCAN \<equiv> Redis_zset REQ_REDIS_ZSCAN"

abbreviation "MSG_REQ_REDIS_EVAL \<equiv> Redis_other REQ_REDIS_EVAL"
abbreviation "MSG_REQ_REDIS_EVALSHA \<equiv> Redis_other REQ_REDIS_EVALSHA"
abbreviation "MSG_REQ_REDIS_PING \<equiv> Redis_other REQ_REDIS_PING"
abbreviation "MSG_REQ_REDIS_QUIT \<equiv> Redis_other REQ_REDIS_QUIT"
abbreviation "MSG_REQ_REDIS_AUTH \<equiv> Redis_other REQ_REDIS_AUTH"
abbreviation "MSG_REQ_REDIS_SELECT \<equiv> Redis_other REQ_REDIS_SELECT"

abbreviation "MSG_RSP_REDIS_STATUS \<equiv> Redis_rsp RSP_REDIS_STATUS"
abbreviation "MSG_RSP_REDIS_ERROR \<equiv> Redis_rsp RSP_REDIS_ERROR"
abbreviation "MSG_RSP_REDIS_ERROR_ERR \<equiv> Redis_rsp RSP_REDIS_ERROR_ERR"
abbreviation "MSG_RSP_REDIS_ERROR_OOM \<equiv> Redis_rsp RSP_REDIS_ERROR_OOM"
abbreviation "MSG_RSP_REDIS_ERROR_BUSY \<equiv> Redis_rsp RSP_REDIS_ERROR_BUSY"
abbreviation "MSG_RSP_REDIS_ERROR_NOAUTH \<equiv> Redis_rsp RSP_REDIS_ERROR_NOAUTH"
abbreviation "MSG_RSP_REDIS_ERROR_LOADING \<equiv> Redis_rsp RSP_REDIS_ERROR_LOADING"
abbreviation "MSG_RSP_REDIS_ERROR_BUSYKEY \<equiv> Redis_rsp RSP_REDIS_ERROR_BUSYKEY"
abbreviation "MSG_RSP_REDIS_ERROR_MISCONF \<equiv> Redis_rsp RSP_REDIS_ERROR_MISCONF"
abbreviation "MSG_RSP_REDIS_ERROR_NOSCRIPT \<equiv> Redis_rsp RSP_REDIS_ERROR_NOSCRIPT"
abbreviation "MSG_RSP_REDIS_ERROR_READONLY \<equiv> Redis_rsp RSP_REDIS_ERROR_READONLY"
abbreviation "MSG_RSP_REDIS_ERROR_WRONGTYPE \<equiv> Redis_rsp RSP_REDIS_ERROR_WRONGTYPE"
abbreviation "MSG_RSP_REDIS_ERROR_EXECABORT \<equiv> Redis_rsp RSP_REDIS_ERROR_EXECABORT"
abbreviation "MSG_RSP_REDIS_ERROR_MASTERDOWN \<equiv> Redis_rsp RSP_REDIS_ERROR_MASTERDOWN"
abbreviation "MSG_RSP_REDIS_ERROR_NOREPLICAS \<equiv> Redis_rsp RSP_REDIS_ERROR_NOREPLICAS"
abbreviation "MSG_RSP_REDIS_INTEGER \<equiv> Redis_rsp RSP_REDIS_INTEGER"
abbreviation "MSG_RSP_REDIS_BULK \<equiv> Redis_rsp RSP_REDIS_BULK"
abbreviation "MSG_RSP_REDIS_MULTIBULK \<equiv> Redis_rsp RSP_REDIS_MULTIBULK"

datatype msg_parse_result = MSG_PARSE_OK | MSG_PARSE_ERROR | MSG_PARSE_REPAIR | MSG_PARSE_AGAIN

end
