(* ===== verification/Mbuf.thy ===== *)
theory Mbuf
  imports NC_Prelude
begin

text \<open>
  Message buffers, \<^verbatim>\<open>nc_mbuf.h\<close> and \<^verbatim>\<open>nc_mbuf.c\<close>.  A buffer is one chunk of memory; its
  pointers are offsets from \<open>start\<close>.  The bytes from \<open>start\<close> to \<open>last\<close> are \<open>mdata\<close>, so
  \<open>last\<close> is the length of \<open>mdata\<close>; \<open>mend\<close> is \<open>end\<close>.  Every chunk has an identity, because
  other structures keep pointers into it.  The free queue and the two sizes set by
  \<open>mbuf_init\<close> are the state of the allocator; whether \<open>nc_alloc\<close> succeeds is an argument.
  An operation that would write past \<open>end\<close> or trip an \<open>ASSERT\<close> yields \<open>None\<close>.
\<close>

subsection \<open>Buffers\<close>

record mbuf =
  mid :: nat
  mpos :: nat
  mdata :: bytes
  mend :: nat

abbreviation mlast :: "mbuf \<Rightarrow> nat" where
  "mlast b \<equiv> length (mdata b)"

record mbuf_pool =
  nfree_mbufq :: u32
  free_mbufq :: "mbuf list"
  mbuf_chunk_size :: nat
  mbuf_offset :: nat
  next_chunk :: nat

definition MBUF_MIN_SIZE :: nat where
  "MBUF_MIN_SIZE = 512"

definition MBUF_MAX_SIZE :: nat where
  "MBUF_MAX_SIZE = 16777216"

definition MBUF_HSIZE :: nat where
  "MBUF_HSIZE = 48"

definition mbuf_empty :: "mbuf \<Rightarrow> bool" where
  "mbuf_empty b \<longleftrightarrow> mpos b = mlast b"

definition mbuf_full :: "mbuf \<Rightarrow> bool" where
  "mbuf_full b \<longleftrightarrow> mlast b = mend b"

text \<open>The chunk of the returned buffer: the head of the free queue, or fresh memory.\<close>

definition mbuf_chunk_get :: "bool \<Rightarrow> mbuf_pool \<Rightarrow> nat option \<times> mbuf_pool" where
  "mbuf_chunk_get mem mp = (case free_mbufq mp of
     b # q \<Rightarrow> (Some (mid b), mp\<lparr>nfree_mbufq := nfree_mbufq mp - 1, free_mbufq := q\<rparr>)
   | [] \<Rightarrow> if mem then (Some (next_chunk mp), mp\<lparr>next_chunk := next_chunk mp + 1\<rparr>) else (None, mp))"

definition mbuf_get :: "bool \<Rightarrow> mbuf_pool \<Rightarrow> mbuf option \<times> mbuf_pool" where
  "mbuf_get mem mp = (case mbuf_chunk_get mem mp of
     (None, mp') \<Rightarrow> (None, mp')
   | (Some i, mp') \<Rightarrow> (Some \<lparr>mid = i, mpos = 0, mdata = [], mend = mbuf_offset mp'\<rparr>, mp'))"

definition mbuf_put :: "mbuf \<Rightarrow> mbuf_pool \<Rightarrow> mbuf_pool" where
  "mbuf_put b mp = mp\<lparr>nfree_mbufq := nfree_mbufq mp + 1, free_mbufq := b # free_mbufq mp\<rparr>"

definition mbuf_rewind :: "mbuf \<Rightarrow> mbuf" where
  "mbuf_rewind b = b\<lparr>mpos := 0, mdata := []\<rparr>"

definition mbuf_length :: "mbuf \<Rightarrow> u32" where
  "mbuf_length b = of_nat (mlast b - mpos b)"

definition mbuf_size :: "mbuf \<Rightarrow> u32" where
  "mbuf_size b = of_nat (mend b - mlast b)"

definition mbuf_data_size :: "mbuf_pool \<Rightarrow> nat" where
  "mbuf_data_size mp = mbuf_offset mp"

definition mbuf_insert :: "mbuf list \<Rightarrow> mbuf \<Rightarrow> mbuf list" where
  "mbuf_insert h b = h @ [b]"

text \<open>\<open>STAILQ_REMOVE\<close> unlinks the element with the given identity.\<close>

definition mbuf_remove :: "mbuf list \<Rightarrow> mbuf \<Rightarrow> mbuf list" where
  "mbuf_remove h b = filter (\<lambda>x. mid x \<noteq> mid b) h"

definition mbuf_copy :: "mbuf \<Rightarrow> bytes \<Rightarrow> mbuf option" where
  "mbuf_copy b src =
     (if length src = 0 then Some b
      else if \<not> mbuf_full b \<and> length src \<le> unat (mbuf_size b)
      then Some (b\<lparr>mdata := mdata b @ src\<rparr>) else None)"

text \<open>
  \<open>mbuf_split\<close> returns the shortened queue and the new buffer; both callers pass no
  precopy handler.  The inner \<open>None\<close> is the \<open>NULL\<close> of a failed allocation.
\<close>

definition mbuf_split ::
  "bool \<Rightarrow> mbuf list \<Rightarrow> nat \<Rightarrow> mbuf_pool \<Rightarrow> ((mbuf list \<times> mbuf) option \<times> mbuf_pool) option" where
  "mbuf_split mem h pos mp =
     (if h = [] then None
      else let b = last h in
        if pos < mpos b \<or> mlast b < pos then None
        else (case mbuf_get mem mp of
            (None, mp') \<Rightarrow> Some (None, mp')
          | (Some nbuf, mp') \<Rightarrow>
              (case mbuf_copy nbuf (drop pos (mdata b)) of
                 None \<Rightarrow> None
               | Some nbuf' \<Rightarrow> Some (Some (butlast h @ [b\<lparr>mdata := take pos (mdata b)\<rparr>], nbuf'), mp'))))"

definition mbuf_init :: "nat \<Rightarrow> mbuf_pool \<Rightarrow> mbuf_pool" where
  "mbuf_init chunk_size mp = mp\<lparr>nfree_mbufq := 0, free_mbufq := [],
     mbuf_chunk_size := chunk_size, mbuf_offset := chunk_size - MBUF_HSIZE\<rparr>"

fun mbuf_deinit_loop :: "mbuf list \<Rightarrow> u32 \<Rightarrow> u32" where
  "mbuf_deinit_loop [] n = n"
| "mbuf_deinit_loop (b # q) n = mbuf_deinit_loop q (n - 1)"

definition mbuf_deinit :: "mbuf_pool \<Rightarrow> mbuf_pool" where
  "mbuf_deinit mp = mp\<lparr>nfree_mbufq := mbuf_deinit_loop (free_mbufq mp) (nfree_mbufq mp), free_mbufq := []\<rparr>"

subsection \<open>Invariants\<close>

definition mbuf_ok :: "nat \<Rightarrow> mbuf \<Rightarrow> bool" where
  "mbuf_ok sz b \<longleftrightarrow> mpos b \<le> mlast b \<and> mlast b \<le> mend b \<and> mend b = sz"

definition unread :: "mbuf \<Rightarrow> bytes" where
  "unread b = drop (mpos b) (mdata b)"

definition chain_bytes :: "mbuf list \<Rightarrow> bytes" where
  "chain_bytes h = concat (map unread h)"

text \<open>
  The allocator never hands out a chunk twice: free chunks are distinct and older than
  the next fresh one, and the counter is the length of the queue.
\<close>

definition mbuf_pool_ok :: "mbuf_pool \<Rightarrow> bool" where
  "mbuf_pool_ok mp \<longleftrightarrow> nfree_mbufq mp = of_nat (length (free_mbufq mp)) \<and>
     distinct (map mid (free_mbufq mp)) \<and> (\<forall>b \<in> set (free_mbufq mp). mid b < next_chunk mp) \<and>
     0 < mbuf_offset mp \<and> mbuf_offset mp < 2 ^ 32"

lemma length_unread [simp]: "length (unread b) = mlast b - mpos b"
  by (simp add: unread_def)

lemma chain_bytes_append [simp]: "chain_bytes (h @ h') = chain_bytes h @ chain_bytes h'"
  by (simp add: chain_bytes_def)

lemma chain_bytes_Cons [simp]: "chain_bytes (b # h) = unread b @ chain_bytes h"
  by (simp add: chain_bytes_def)

lemma chain_bytes_Nil [simp]: "chain_bytes [] = []"
  by (simp add: chain_bytes_def)

lemma unat_mbuf_length: "mlast b < 2 ^ 32 \<Longrightarrow> unat (mbuf_length b) = mlast b - mpos b"
  by (simp add: mbuf_length_def unsigned_of_nat take_bit_nat_eq_self)

lemma unat_mbuf_size: "mend b < 2 ^ 32 \<Longrightarrow> unat (mbuf_size b) = mend b - mlast b"
  by (simp add: mbuf_size_def unsigned_of_nat take_bit_nat_eq_self)

lemma mbuf_copy_Some:
  assumes "mbuf_ok sz b" "sz < 2 ^ 32"
  shows "mbuf_copy b src = (if mlast b + length src \<le> sz then Some (b\<lparr>mdata := mdata b @ src\<rparr>) else None)"
  using assms unat_mbuf_size [of b] by (auto simp: mbuf_copy_def mbuf_ok_def mbuf_full_def)

lemma mbuf_get_Some:
  assumes "mbuf_pool_ok mp" "mbuf_get mem mp = (Some b, mp')"
  shows "mbuf_pool_ok mp'" "mbuf_ok (mbuf_offset mp) b" "mdata b = []" "mpos b = 0"
    "mbuf_offset mp' = mbuf_offset mp" "mid b < next_chunk mp'" "next_chunk mp \<le> next_chunk mp'"
    "mid b \<notin> mid ` set (free_mbufq mp')" "set (free_mbufq mp') \<subseteq> set (free_mbufq mp)"
    "mid b \<in> mid ` set (free_mbufq mp) \<or> mid b = next_chunk mp"
  using assms
  by (auto simp: mbuf_get_def mbuf_chunk_get_def mbuf_pool_ok_def mbuf_ok_def
      split: list.splits if_splits prod.splits option.splits)

lemma mbuf_get_None:
  "mbuf_get mem mp = (None, mp') \<Longrightarrow> mp' = mp \<and> \<not> mem"
  by (auto simp: mbuf_get_def mbuf_chunk_get_def split: list.splits if_splits prod.splits option.splits)

lemma mbuf_put_ok:
  assumes "mbuf_pool_ok mp" "mid b < next_chunk mp" "mid b \<notin> mid ` set (free_mbufq mp)"
  shows "mbuf_pool_ok (mbuf_put b mp)"
  using assms by (auto simp: mbuf_pool_ok_def mbuf_put_def)

lemma mbuf_deinit_loop_eq: "mbuf_deinit_loop q n = n - of_nat (length q)"
  by (induction q arbitrary: n) auto

text \<open>The assertion at the end of \<open>mbuf_deinit\<close>.\<close>

lemma mbuf_deinit_zero: "mbuf_pool_ok mp \<Longrightarrow> nfree_mbufq (mbuf_deinit mp) = 0"
  by (simp add: mbuf_deinit_def mbuf_deinit_loop_eq mbuf_pool_ok_def)

subsection \<open>Splitting\<close>

lemma mbuf_split_ok:
  assumes "mbuf_pool_ok mp" "h \<noteq> []" "\<forall>b \<in> set h. mbuf_ok (mbuf_offset mp) b"
    and "mpos (last h) \<le> pos" "pos \<le> mlast (last h)"
  shows "\<exists>r mp'. mbuf_split mem h pos mp = Some (r, mp') \<and>
     (case r of
        None \<Rightarrow> \<not> mem \<and> mp' = mp
      | Some (h', nbuf) \<Rightarrow>
          h' = butlast h @ [(last h)\<lparr>mdata := take pos (mdata (last h))\<rparr>] \<and>
          mdata nbuf = drop pos (mdata (last h)) \<and> mpos nbuf = 0 \<and>
          mbuf_pool_ok mp' \<and> mbuf_offset mp' = mbuf_offset mp \<and> mbuf_ok (mbuf_offset mp) nbuf \<and>
          (mid nbuf \<in> mid ` set (free_mbufq mp) \<or> mid nbuf = next_chunk mp) \<and>
          (\<forall>b \<in> set h'. mbuf_ok (mbuf_offset mp) b))"
proof (cases "mbuf_get mem mp")
  case (Pair r mp')
  show ?thesis
  proof (cases r)
    case None
    then show ?thesis using Pair assms mbuf_get_None [of mem mp mp'] by (simp add: mbuf_split_def Let_def)
  next
    case (Some nbuf)
    note got = mbuf_get_Some [OF assms(1) Pair [unfolded Some]]
    have lt: "mbuf_offset mp < 2 ^ 32" using assms(1) by (simp add: mbuf_pool_ok_def)
    have last: "mbuf_ok (mbuf_offset mp) (last h)" using assms(2,3) by simp
    then have "length (drop pos (mdata (last h))) \<le> mbuf_offset mp" by (auto simp: mbuf_ok_def)
    then have "mbuf_copy nbuf (drop pos (mdata (last h))) = Some (nbuf\<lparr>mdata := drop pos (mdata (last h))\<rparr>)"
      using mbuf_copy_Some [OF got(2) lt] got(3) by simp
    moreover have "\<forall>b \<in> set (butlast h). mbuf_ok (mbuf_offset mp) b"
      using assms(3) by (meson in_set_butlastD)
    ultimately show ?thesis
      using Pair Some assms last got by (auto simp: mbuf_split_def Let_def mbuf_ok_def)
  qed
qed

text \<open>The queue and the new buffer hold together the bytes the queue held before.\<close>

lemma mbuf_split_bytes:
  assumes "h \<noteq> []" "mpos (last h) \<le> pos" "pos \<le> mlast (last h)"
    and "mdata nbuf = drop pos (mdata (last h))" "mpos nbuf = 0"
  shows "chain_bytes (butlast h @ [(last h)\<lparr>mdata := take pos (mdata (last h))\<rparr>] @ [nbuf]) = chain_bytes h"
proof -
  have "drop (mpos (last h)) (take pos (mdata (last h))) @ drop pos (mdata (last h)) = unread (last h)"
    using assms(2,3) unfolding unread_def
    by (metis append_take_drop_id drop_append diff_is_0_eq drop_0 length_take min.absorb2)
  moreover have "chain_bytes h = chain_bytes (butlast h) @ unread (last h)"
    using assms(1) by (metis append_butlast_last_id append_Nil2 chain_bytes_Cons chain_bytes_Nil chain_bytes_append)
  ultimately show ?thesis using assms(4,5) by (simp add: unread_def)
qed

end
