(* ===== verification/Msg_Parse.thy ===== *)
theory Msg_Parse
  imports Msg_Type Mbuf
begin

text \<open>
  What the four protocol parsers share: the fields of \<open>struct msg\<close> (\<^verbatim>\<open>nc_message.h\<close>) that they
  read and write, the loop \<open>for (p = r->pos; p < b->last; p++) switch (state)\<close>, and the
  three ways it ends.  The locale \<open>parser\<close> is the contract a parser gives to the receive
  path: it terminates, stays inside the buffer, and gives the same answer whether its
  input arrives at once or in pieces.
\<close>

subsection \<open>Characters\<close>

definition CR :: char where
  "CR = CHR 0x0D"

definition LF :: char where
  "LF = CHR 0x0A"

definition isdigit :: "char \<Rightarrow> bool" where
  "isdigit ch \<longleftrightarrow> 48 \<le> (of_char ch :: nat) \<and> (of_char ch :: nat) \<le> 57"

definition islower :: "char \<Rightarrow> bool" where
  "islower ch \<longleftrightarrow> 97 \<le> (of_char ch :: nat) \<and> (of_char ch :: nat) \<le> 122"

text \<open>One digit of a decimal number: \<open>n * 10 + (uint32_t)(ch - '0')\<close>.\<close>

definition dec_digit :: "u32 \<Rightarrow> char \<Rightarrow> u32" where
  "dec_digit n ch = n * 10 + (uchar32 ch - 48)"

text \<open>The comparison macros of \<^verbatim>\<open>nc_proto.h\<close>: \<open>m\<close> points at \<open>length s\<close> readable bytes.\<close>

definition strcmp :: "bytes \<Rightarrow> bytes \<Rightarrow> bool" where
  "strcmp m s \<longleftrightarrow> take (length s) m = s"

definition stricmp :: "bytes \<Rightarrow> bytes \<Rightarrow> bool" where
  "stricmp m s \<longleftrightarrow> length s \<le> length m \<and>
     list_all2 (\<lambda>x c. x = c \<or> u8_of x = u8_of c XOR 0x20) (take (length s) m) s"

subsection \<open>Messages as the parsers see them\<close>

type_synonym mptr = "nat \<times> nat"

record keypos =
  kp_buf :: nat
  kp_start :: nat
  kp_end :: nat

record 'st msg =
  state :: 'st
  pos :: nat
  token :: "nat option"
  mtype :: msg_type
  result :: msg_parse_result
  keys :: "keypos list"
  vlen :: u32
  msg_end :: "mptr option"
  narg_start :: "mptr option"
  narg_end :: "mptr option"
  narg :: u32
  rnarg :: u32
  rlen :: u32
  rinteger :: u32
  noforward :: bool
  quit :: bool
  noreply :: bool

text \<open>The values \<open>_msg_get\<close> gives these fields; \<open>start\<close> is the state \<open>SW_START\<close> of the parser.\<close>

definition fresh_msg :: "'st \<Rightarrow> 'st msg" where
  "fresh_msg start = \<lparr>state = start, pos = 0, token = None, mtype = MSG_UNKNOWN, result = MSG_PARSE_OK,
     keys = [], vlen = 0, msg_end = None, narg_start = None, narg_end = None, narg = 0, rnarg = 0,
     rlen = 0, rinteger = 0, noforward = False, quit = False, noreply = False\<rparr>"

text \<open>
  How one iteration leaves the \<open>switch\<close>: with the pointer of the next iteration, or by
  one of the jumps \<open>goto done\<close>, \<open>goto error\<close> and \<open>goto enomem\<close>.
\<close>

datatype 'm outcome = Move 'm nat | Done 'm nat | Error 'm | Enomem 'm

partial_function (option) parse_loop ::
  "('m \<Rightarrow> nat \<Rightarrow> 'm outcome) \<Rightarrow> nat \<Rightarrow> 'm \<Rightarrow> nat \<Rightarrow> 'm outcome option" where
  "parse_loop step e r p =
     (if p < e
      then (case step r p of Move r' p' \<Rightarrow> parse_loop step e r' p' | Done r' p' \<Rightarrow> Some (Done r' p')
            | Error r' \<Rightarrow> Some (Error r') | Enomem r' \<Rightarrow> Some (Enomem r'))
      else Some (Move r p))"

text \<open>The end of the buffer was reached, and the label \<open>done\<close> of the redis parsers.\<close>

definition parse_again :: "mbuf \<Rightarrow> 'st msg \<Rightarrow> nat \<Rightarrow> 'st msg" where
  "parse_again b r p =
     (let r' = r\<lparr>pos := p\<rparr> in
      if mlast b = mend b \<and> token r' \<noteq> None
      then r'\<lparr>pos := the (token r'), token := None, result := MSG_PARSE_REPAIR\<rparr>
      else r'\<lparr>result := MSG_PARSE_AGAIN\<rparr>)"

definition parse_done :: "'st \<Rightarrow> 'st msg \<Rightarrow> nat \<Rightarrow> 'st msg" where
  "parse_done start r p = r\<lparr>pos := p + 1, state := start, token := None, result := MSG_PARSE_OK\<rparr>"

definition parse_error :: "'st msg \<Rightarrow> 'st msg" where
  "parse_error r = r\<lparr>result := MSG_PARSE_ERROR\<rparr>"

text \<open>A parser: the loop from \<open>r->pos\<close> on, followed by what its labels do to the message.\<close>

definition parse_with ::
  "(bytes \<Rightarrow> 'st msg \<Rightarrow> nat \<Rightarrow> 'st msg outcome) \<Rightarrow> (mbuf \<Rightarrow> 'st msg \<Rightarrow> nat \<Rightarrow> 'st msg)
    \<Rightarrow> ('st msg \<Rightarrow> nat \<Rightarrow> 'st msg) \<Rightarrow> mbuf \<Rightarrow> 'st msg \<Rightarrow> 'st msg option" where
  "parse_with step again done b r =
     (case parse_loop (step (mdata b)) (mlast b) r (pos r) of
        None \<Rightarrow> None
      | Some (Move r' p) \<Rightarrow> Some (again b r' p)
      | Some (Done r' p) \<Rightarrow> Some (done r' p)
      | Some (Error r') \<Rightarrow> Some (parse_error r')
      | Some (Enomem r') \<Rightarrow> Some (parse_error r'))"

subsection \<open>The contract of a parser\<close>

fun moves :: "'m outcome \<Rightarrow> bool" where
  "moves (Move r p) = True"
| "moves _ = False"

text \<open>
  Two outcomes agree if their messages do; after an error the message is dropped, so its
  fields do not count.
\<close>

fun outcome_sim :: "('m \<Rightarrow> 'm \<Rightarrow> bool) \<Rightarrow> 'm outcome \<Rightarrow> 'm outcome \<Rightarrow> bool" where
  "outcome_sim sim (Move r p) (Move r' p') \<longleftrightarrow> sim r r' \<and> p = p'"
| "outcome_sim sim (Done r p) (Done r' p') \<longleftrightarrow> sim r r' \<and> p = p'"
| "outcome_sim sim (Error _) (Error _) \<longleftrightarrow> True"
| "outcome_sim sim (Enomem r) (Enomem r') \<longleftrightarrow> sim r r'"
| "outcome_sim sim _ _ \<longleftrightarrow> False"

abbreviation outcome_eq :: "'m outcome \<Rightarrow> 'm outcome \<Rightarrow> bool" where
  "outcome_eq \<equiv> outcome_sim (=)"

lemma outcome_eq_refl [simp]: "outcome_eq x x"
  by (cases x) simp_all

lemma outcome_sim_Move:
  "outcome_sim sim x (Move r' p) \<Longrightarrow> \<exists>r. x = Move r p \<and> sim r r'" "outcome_sim sim (Move r p) y \<Longrightarrow> \<exists>r'. y = Move r' p \<and> sim r r'"
  by (cases x; cases y; simp)+

lemma outcome_eq_Move [simp]: "outcome_eq x (Move r p) \<longleftrightarrow> x = Move r p" "outcome_eq (Move r p) x \<longleftrightarrow> x = Move r p"
  by (cases x; auto)+

lemma parse_loop_end [simp]: "\<not> p < e \<Longrightarrow> parse_loop step e r p = Some (Move r p)"
  by (subst parse_loop.simps) simp

lemma parse_loop_step:
  "p < e \<Longrightarrow> parse_loop step e r p =
     (case step r p of Move r' p' \<Rightarrow> parse_loop step e r' p' | out \<Rightarrow> Some out)"
  by (subst parse_loop.simps) (auto split: outcome.splits)

text \<open>The loop on a buffer that holds the bytes \<open>d\<close>.\<close>

definition parse_run :: "(bytes \<Rightarrow> 'm \<Rightarrow> nat \<Rightarrow> 'm outcome) \<Rightarrow> bytes \<Rightarrow> 'm \<Rightarrow> nat \<Rightarrow> 'm outcome option" where
  "parse_run step d = parse_loop (step d) (length d)"

lemma parse_run_end [simp]: "length d \<le> p \<Longrightarrow> parse_run step d r p = Some (Move r p)"
  by (simp add: parse_run_def)

lemma parse_run_step:
  "p < length d \<Longrightarrow> parse_run step d r p =
     (case step d r p of Move r' p' \<Rightarrow> parse_run step d r' p' | out \<Rightarrow> Some out)"
  unfolding parse_run_def by (rule parse_loop_step)

text \<open>
  Input in pieces: the buffer holds \<open>d\<close>, the parser runs to its end, then the next piece is
  read into the same buffer and the parser continues where it stopped.
\<close>

primrec parse_feed ::
  "(bytes \<Rightarrow> 'm \<Rightarrow> nat \<Rightarrow> 'm outcome) \<Rightarrow> bytes \<Rightarrow> 'm \<Rightarrow> nat \<Rightarrow> bytes list \<Rightarrow> 'm outcome option" where
  "parse_feed step d r p [] = parse_run step d r p"
| "parse_feed step d r p (e # es) =
     (case parse_run step d r p of Some (Move r' q) \<Rightarrow> parse_feed step (d @ e) r' q es | out \<Rightarrow> out)"

text \<open>
  \<open>step\<close> is the body of the loop for the buffer contents \<open>d\<close>, \<open>inv\<close> what holds of the
  message at the head of the loop, and \<open>rank\<close> bounds how often the parser can look at the
  same byte again.  Messages related by \<open>sim\<close> differ only in fields the parser will not read
  again.  The fourth law says that a longer buffer changes nothing, except that an iteration
  which ran out of bytes is resumed where the bytes ended.
\<close>

locale parser =
  fixes step :: "bytes \<Rightarrow> 'm \<Rightarrow> nat \<Rightarrow> 'm outcome"
    and inv :: "'m \<Rightarrow> nat \<Rightarrow> bool"
    and rank :: "'m \<Rightarrow> nat"
    and sim :: "'m \<Rightarrow> 'm \<Rightarrow> bool"
  assumes step_inv: "inv r p \<Longrightarrow> p < length d \<Longrightarrow> step d r p = Move r' p' \<Longrightarrow> inv r' p' \<and> p' \<le> length d"
    and step_progress: "inv r p \<Longrightarrow> p < length d \<Longrightarrow> step d r p = Move r' p' \<Longrightarrow>
      p < p' \<or> p' = p \<and> rank r' < rank r"
    and step_done: "inv r p \<Longrightarrow> p < length d \<Longrightarrow> step d r p = Done r' p' \<Longrightarrow> p' = p"
    and step_more: "inv r p \<Longrightarrow> p < length d \<Longrightarrow>
      outcome_sim sim (step (d @ e) r p) (step d r p) \<or>
      (\<exists>r'. step d r p = Move r' (length d) \<and>
        (e \<noteq> [] \<longrightarrow> outcome_sim sim (step (d @ e) r p) (step (d @ e) r' (length d))))"
    and sim_refl: "sim r r" and sim_sym: "sim r r' \<Longrightarrow> sim r' r" and sim_trans: "sim r r' \<Longrightarrow> sim r' r'' \<Longrightarrow> sim r r''"
    and sim_inv: "sim r r' \<Longrightarrow> inv r p \<Longrightarrow> inv r' p"
    and sim_step: "sim r r' \<Longrightarrow> inv r p \<Longrightarrow> p < length d \<Longrightarrow> outcome_sim sim (step d r p) (step d r' p)"
begin

lemma outcome_sim_refl: "outcome_sim sim x x"
  by (cases x) (simp_all add: sim_refl)

lemma outcome_sim_sym: "outcome_sim sim x y \<Longrightarrow> outcome_sim sim y x"
  by (cases x; cases y) (auto intro: sim_sym)

lemma outcome_sim_trans: "outcome_sim sim x y \<Longrightarrow> outcome_sim sim y z \<Longrightarrow> outcome_sim sim x z"
  by (cases x; cases y; cases z) (auto intro: sim_trans)

abbreviation run_sim :: "'m outcome option \<Rightarrow> 'm outcome option \<Rightarrow> bool" where
  "run_sim \<equiv> rel_option (outcome_sim sim)"

lemma run_sim_refl: "run_sim x x"
  by (simp add: option.rel_refl outcome_sim_refl)

lemma run_sim_sym: "run_sim x y \<Longrightarrow> run_sim y x"
  by (auto elim!: option.rel_cases intro: outcome_sim_sym)

lemma run_sim_trans: "run_sim x y \<Longrightarrow> run_sim y z \<Longrightarrow> run_sim x z"
  by (auto elim!: option.rel_cases intro: outcome_sim_trans)

text \<open>Induction along a run: the byte position grows, or the rank falls.\<close>

lemma run_induct [consumes 2, case_names stop jump move]:
  assumes "inv r p" "p \<le> length d"
    and "\<And>r. inv r (length d) \<Longrightarrow> P r (length d)"
    and "\<And>r p. inv r p \<Longrightarrow> p < length d \<Longrightarrow> \<not> moves (step d r p) \<Longrightarrow> P r p"
    and "\<And>r p r' p'. inv r p \<Longrightarrow> p < length d \<Longrightarrow> step d r p = Move r' p' \<Longrightarrow> inv r' p' \<Longrightarrow> P r' p' \<Longrightarrow> P r p"
  shows "P r p"
  using assms(1,2)
proof (induction "(length d - p, rank r)" arbitrary: r p rule: wf_induct_rule [OF wf_lex_prod [OF wf_less wf_less]])
  case (1 r p)
  show ?case
  proof (cases "p < length d")
    case False
    with "1.prems" have "p = length d" by simp
    with "1.prems" assms(3) show ?thesis by simp
  next
    case True
    show ?thesis
    proof (cases "step d r p")
      case (Move r' p')
      note inv' = step_inv [OF "1.prems"(1) True Move]
      from step_progress [OF "1.prems"(1) True Move] True
      have "((length d - p', rank r'), (length d - p, rank r)) \<in> {(x, y). x < y} <*lex*> {(x, y). x < y}"
        by auto
      from "1.hyps" [OF this] inv' have "P r' p'" by simp
      with assms(5) [OF "1.prems"(1) True Move] inv' show ?thesis by simp
    qed (use assms(4) [OF "1.prems"(1) True] in simp_all)
  qed
qed

lemma run_returns:
  assumes "inv r p" "p \<le> length d"
  shows "\<exists>out. parse_run step d r p = Some out \<and> (\<forall>r' q. out = Done r' q \<longrightarrow> q < length d) \<and>
     (\<forall>r' q. out = Move r' q \<longrightarrow> q = length d \<and> inv r' q)"
  using assms
proof (induction rule: run_induct)
  case (jump r p)
  then show ?case using step_done [OF jump(1,2)] by (cases "step d r p") (auto simp: parse_run_step)
qed (simp_all add: parse_run_step)

text \<open>Runs from related messages agree, and so do runs whose first steps agree.\<close>

lemma run_cong:
  assumes "inv r p" "p \<le> length d" "sim r r'"
  shows "run_sim (parse_run step d r p) (parse_run step d r' p)"
  using assms
proof (induction arbitrary: r' rule: run_induct)
  case (stop r)
  then show ?case by simp
next
  case (jump r p)
  then show ?case using sim_step [OF jump(4,1,2)]
    by (cases "step d r p"; cases "step d r' p") (simp_all add: parse_run_step)
next
  case (move r p r1 p1)
  from sim_step [OF move(6,1,2)] move(3) obtain r2 where "step d r' p = Move r2 p1" "sim r1 r2"
    using outcome_sim_Move(2) by metis
  with move show ?case by (simp add: parse_run_step)
qed

lemma run_step_sim:
  assumes "outcome_sim sim (step d r p) (step d r' p')" "p < length d" "p' < length d" "inv r p"
  shows "run_sim (parse_run step d r p) (parse_run step d r' p')"
proof (cases "step d r p")
  case (Move a x)
  with assms(1) obtain b where b: "step d r' p' = Move b x" "sim a b" using outcome_sim_Move(2) by metis
  from step_inv [OF assms(4,2) Move] run_cong [OF _ _ b(2), of x d] Move b(1) assms(2,3) show ?thesis
    by (simp add: parse_run_step)
qed (use assms in \<open>cases "step d r' p'"; simp add: parse_run_step\<close>)+

lemma run_append:
  assumes "inv r p" "p \<le> length d" "e \<noteq> []"
  shows "run_sim (parse_run step (d @ e) r p)
     (case parse_run step d r p of
        Some (Move r' q) \<Rightarrow> parse_run step (d @ e) r' q | out \<Rightarrow> out)"
  using assms(1,2)
proof (induction rule: run_induct)
  case (stop r)
  then show ?case by (simp add: run_sim_refl)
next
  case (jump r p)
  then have "outcome_sim sim (step (d @ e) r p) (step d r p)" using step_more [OF jump(1,2), of e] by auto
  with jump(2,3) show ?case
    by (cases "step d r p"; cases "step (d @ e) r p") (auto simp: parse_run_step)
next
  case (move r p r' p')
  let ?rest = "case parse_run step d r' p' of Some (Move r' q) \<Rightarrow> parse_run step (d @ e) r' q | out \<Rightarrow> out"
  have rest: "(case parse_run step d r p of Some (Move r' q) \<Rightarrow> parse_run step (d @ e) r' q | out \<Rightarrow> out) = ?rest"
    using move(2,3) by (simp add: parse_run_step)
  show ?case
  proof (cases "outcome_sim sim (step (d @ e) r p) (step d r p)")
    case True
    with move(3) obtain r2 where r2: "step (d @ e) r p = Move r2 p'" "sim r2 r'" using outcome_sim_Move(1) by metis
    have "p' \<le> length (d @ e)" using step_inv [OF move(1,2,3)] by simp
    from run_cong [OF sim_inv [OF sim_sym [OF r2(2)] move(4)] this r2(2)]
    have "run_sim (parse_run step (d @ e) r p) (parse_run step (d @ e) r' p')"
      using r2(1) move(2) by (simp add: parse_run_step)
    from run_sim_trans [OF this move(5)] show ?thesis unfolding rest .
  next
    case False
    then obtain r2 where r2: "step d r p = Move r2 (length d)"
      "outcome_sim sim (step (d @ e) r p) (step (d @ e) r2 (length d))"
      using step_more [OF move(1,2), of e] assms(3) by auto
    from run_step_sim [OF this(2) _ _ move(1)] move(2) assms(3)
    have "run_sim (parse_run step (d @ e) r p) (parse_run step (d @ e) r2 (length d))" by simp
    with r2(1) move(2) show ?thesis by (simp add: parse_run_step)
  qed
qed

lemma run_feed:
  assumes "inv r p" "p \<le> length d" "[] \<notin> set es"
  shows "run_sim (parse_feed step d r p es) (parse_run step (d @ concat es) r p)"
  using assms
proof (induction es arbitrary: d r p)
  case (Cons e es)
  obtain out where out: "parse_run step d r p = Some out" "\<And>r' q. out = Move r' q \<Longrightarrow> q = length d \<and> inv r' q"
    using run_returns [OF Cons.prems(1,2)] by auto
  show ?case
  proof (cases out)
    case (Move r' q)
    with out have r': "inv r' (length d)" "q = length d" by auto
    then have "run_sim (parse_feed step (d @ e) r' q es) (parse_run step (d @ e @ concat es) r' q)"
      using Cons.IH [of r' q "d @ e"] Cons.prems(3) by simp
    moreover have "run_sim (parse_run step (d @ e @ concat es) r p) (parse_run step (d @ e @ concat es) r' q)"
      using run_append [OF Cons.prems(1,2), of "e @ concat es"] Cons.prems(3) out(1) Move by auto
    ultimately have "run_sim (parse_feed step (d @ e) r' q es) (parse_run step (d @ e @ concat es) r p)"
      using run_sim_trans [OF _ run_sim_sym] by blast
    then show ?thesis using out(1) Move by simp
  qed (use out run_append [OF Cons.prems(1,2), of "concat (e # es)"] Cons.prems(3) run_sim_sym in auto)
qed (simp add: run_sim_refl)

end

subsection \<open>Pieces of input at the level of messages\<close>

text \<open>
  The receive path reads the next piece into the same buffer while the parser asks for
  more; the buffer is never full here.
\<close>

fun parse_pieces ::
  "(mbuf \<Rightarrow> 'st msg \<Rightarrow> 'st msg option) \<Rightarrow> mbuf \<Rightarrow> 'st msg \<Rightarrow> bytes list \<Rightarrow> 'st msg option" where
  "parse_pieces parse b r [] = parse b r"
| "parse_pieces parse b r (e # es) =
     (case parse b r of
        None \<Rightarrow> None
      | Some r' \<Rightarrow> if result r' = MSG_PARSE_AGAIN then parse_pieces parse (b\<lparr>mdata := mdata b @ e\<rparr>) r' es else Some r')"

lemma parse_pieces_cong:
  assumes "\<And>b' r. mid b' = mid b \<Longrightarrow> f b' r = g b' r"
  shows "parse_pieces f b r es = parse_pieces g b r es"
  using assms by (induction es arbitrary: b r) (auto split: option.split)

text \<open>Two messages agree: the same result, and the same fields that count unless parsing failed.\<close>

definition msg_agree :: "('st msg \<Rightarrow> 'st msg \<Rightarrow> bool) \<Rightarrow> 'st msg \<Rightarrow> 'st msg \<Rightarrow> bool" where
  "msg_agree same r r' \<longleftrightarrow> result r = result r' \<and> (result r \<noteq> MSG_PARSE_ERROR \<longrightarrow> same r r')"

definition mark :: "nat \<Rightarrow> msg_parse_result \<Rightarrow> 'st msg \<Rightarrow> 'st msg" where
  "mark x y r = r\<lparr>pos := x, result := y\<rparr>"

lemma mark_sel [simp]:
  "state (mark x y r) = state r" "token (mark x y r) = token r" "mtype (mark x y r) = mtype r"
  "keys (mark x y r) = keys r" "vlen (mark x y r) = vlen r" "msg_end (mark x y r) = msg_end r"
  "narg_start (mark x y r) = narg_start r" "narg_end (mark x y r) = narg_end r" "narg (mark x y r) = narg r"
  "rnarg (mark x y r) = rnarg r" "rlen (mark x y r) = rlen r" "rinteger (mark x y r) = rinteger r"
  "noforward (mark x y r) = noforward r" "quit (mark x y r) = quit r" "noreply (mark x y r) = noreply r"
  by (simp_all add: mark_def)

lemma mark_upd [simp]:
  "(mark x y r)\<lparr>state := v0\<rparr> = mark x y (r\<lparr>state := v0\<rparr>)"
  "(mark x y r)\<lparr>token := v1\<rparr> = mark x y (r\<lparr>token := v1\<rparr>)"
  "(mark x y r)\<lparr>mtype := v2\<rparr> = mark x y (r\<lparr>mtype := v2\<rparr>)"
  "(mark x y r)\<lparr>keys := v3\<rparr> = mark x y (r\<lparr>keys := v3\<rparr>)"
  "(mark x y r)\<lparr>vlen := v4\<rparr> = mark x y (r\<lparr>vlen := v4\<rparr>)"
  "(mark x y r)\<lparr>msg_end := v5\<rparr> = mark x y (r\<lparr>msg_end := v5\<rparr>)"
  "(mark x y r)\<lparr>narg_start := v6\<rparr> = mark x y (r\<lparr>narg_start := v6\<rparr>)"
  "(mark x y r)\<lparr>narg_end := v7\<rparr> = mark x y (r\<lparr>narg_end := v7\<rparr>)"
  "(mark x y r)\<lparr>narg := v8\<rparr> = mark x y (r\<lparr>narg := v8\<rparr>)"
  "(mark x y r)\<lparr>rnarg := v9\<rparr> = mark x y (r\<lparr>rnarg := v9\<rparr>)"
  "(mark x y r)\<lparr>rlen := v10\<rparr> = mark x y (r\<lparr>rlen := v10\<rparr>)"
  "(mark x y r)\<lparr>rinteger := v11\<rparr> = mark x y (r\<lparr>rinteger := v11\<rparr>)"
  "(mark x y r)\<lparr>noforward := v12\<rparr> = mark x y (r\<lparr>noforward := v12\<rparr>)"
  "(mark x y r)\<lparr>quit := v13\<rparr> = mark x y (r\<lparr>quit := v13\<rparr>)"
  "(mark x y r)\<lparr>noreply := v14\<rparr> = mark x y (r\<lparr>noreply := v14\<rparr>)"
  by (simp_all add: mark_def)

lemma parse_done_mark: "parse_done s (mark x y r) p = parse_done s r p"
  by (simp add: parse_done_def mark_def)

lemma parse_again_more: "mlast b < mend b \<Longrightarrow> parse_again b r p = mark p MSG_PARSE_AGAIN r"
  by (simp add: parse_again_def mark_def Let_def)

text \<open>
  A parser of messages also has its two exits.  The loop ignores the fields \<open>pos\<close> and
  \<open>result\<close>, which the exits set.  \<open>same\<close> relates messages that the users of the parser cannot
  tell apart.
\<close>

locale msg_parser = parser step inv rank sim
  for step :: "bytes \<Rightarrow> 'st msg \<Rightarrow> nat \<Rightarrow> 'st msg outcome" and inv rank sim +
  fixes again :: "mbuf \<Rightarrow> 'st msg \<Rightarrow> nat \<Rightarrow> 'st msg" and finish :: "'st msg \<Rightarrow> nat \<Rightarrow> 'st msg"
    and same :: "'st msg \<Rightarrow> 'st msg \<Rightarrow> bool"
  assumes step_mark: "step d (mark x y r) p = map_outcome (mark x y) (step d r p)"
    and inv_mark: "inv (mark x y r) p = inv r p"
    and again_more: "mlast b < mend b \<Longrightarrow> again b r p = mark p MSG_PARSE_AGAIN r"
    and again_pos: "inv r (mlast b) \<Longrightarrow> pos (again b r (mlast b)) \<le> mlast b"
    and again_inv: "inv r (mlast b) \<Longrightarrow> inv (again b r (mlast b)) (pos (again b r (mlast b)))"
    and again_result: "result (again b r p) \<in> {MSG_PARSE_AGAIN, MSG_PARSE_REPAIR}"
    and finish_mark: "finish (mark x y r) p = finish r p"
    and finish_pos: "pos (finish r p) = p + 1" "result (finish r p) = MSG_PARSE_OK"
    and same_refl: "same r r" and same_trans: "same r r' \<Longrightarrow> same r' r'' \<Longrightarrow> same r r''"
    and sim_mark_same: "sim r r' \<Longrightarrow> same (mark x y r) (mark x y r')"
    and sim_finish_same: "sim r r' \<Longrightarrow> same (finish r p) (finish r' p)"
begin

abbreviation agree :: "'st msg option \<Rightarrow> 'st msg option \<Rightarrow> bool" where
  "agree \<equiv> rel_option (msg_agree same)"

lemma msg_agree_trans: "msg_agree same x y \<Longrightarrow> msg_agree same y z \<Longrightarrow> msg_agree same x z"
  unfolding msg_agree_def using same_trans by metis

lemma agree_trans: "agree x y \<Longrightarrow> agree y z \<Longrightarrow> agree x z"
  by (cases x; cases y; cases z) (auto intro: msg_agree_trans)

lemma agree_refl: "agree x x"
  by (simp add: option.rel_refl msg_agree_def same_refl)

lemma parse_with_run:
  "parse_with step again finish b r = (case parse_run step (mdata b) r (pos r) of
      None \<Rightarrow> None | Some (Move r' p) \<Rightarrow> Some (again b r' p) | Some (Done r' p) \<Rightarrow> Some (finish r' p)
    | Some (Error r') \<Rightarrow> Some (parse_error r') | Some (Enomem r') \<Rightarrow> Some (parse_error r'))"
  by (simp add: parse_with_def parse_run_def)

lemma parse_with_total:
  assumes "inv r (pos r)" "pos r \<le> mlast b"
  shows "\<exists>r'. parse_with step again finish b r = Some r' \<and> (result r' \<noteq> MSG_PARSE_ERROR \<longrightarrow> pos r' \<le> mlast b) \<and>
     (result r' \<in> {MSG_PARSE_AGAIN, MSG_PARSE_REPAIR} \<longrightarrow> inv r' (pos r'))"
proof -
  obtain out where out: "parse_run step (mdata b) r (pos r) = Some out"
    "\<And>r' q. out = Done r' q \<Longrightarrow> q < mlast b" "\<And>r' q. out = Move r' q \<Longrightarrow> q = mlast b \<and> inv r' q"
    using run_returns [OF assms] by auto
  then show ?thesis
    by (cases out) (auto simp: parse_with_run parse_error_def finish_pos Suc_le_eq again_pos again_inv)
qed

lemma run_mark:
  assumes "inv r p" "p \<le> length d"
  shows "parse_run step d (mark x y r) p = map_option (map_outcome (mark x y)) (parse_run step d r p)"
  using assms
proof (induction rule: run_induct)
  case (jump r p)
  then show ?case by (cases "step d r p") (simp_all add: parse_run_step step_mark)
qed (simp_all add: parse_run_step step_mark)

text \<open>What a run leaves for the message when the buffer is not full.\<close>

definition outcome_msg :: "'st msg outcome \<Rightarrow> 'st msg" where
  "outcome_msg out = (case out of Move r' p \<Rightarrow> mark p MSG_PARSE_AGAIN r' | Done r' p \<Rightarrow> finish r' p
     | Error r' \<Rightarrow> parse_error r' | Enomem r' \<Rightarrow> parse_error r')"

lemma parse_with_not_full:
  assumes "mlast b < mend b"
  shows "parse_with step again finish b r = map_option outcome_msg (parse_run step (mdata b) r (pos r))"
  using assms again_more by (auto simp: parse_with_run outcome_msg_def split: option.split outcome.split)

lemma outcome_msg_agree:
  assumes "outcome_sim sim x y"
  shows "msg_agree same (outcome_msg x) (outcome_msg y)"
proof (cases x)
  case (Move r p)
  with assms obtain r' where "y = Move r' p" "sim r r'" using outcome_sim_Move(2) by metis
  with Move sim_mark_same [of r r' p MSG_PARSE_AGAIN] show ?thesis by (simp add: outcome_msg_def msg_agree_def mark_def)
next
  case (Done r p)
  with assms obtain r' where "y = Done r' p" "sim r r'" by (cases y) simp_all
  with Done sim_finish_same [of r r' p] show ?thesis by (simp add: outcome_msg_def msg_agree_def finish_pos)
next
  case (Error r)
  with assms show ?thesis by (cases y) (simp_all add: outcome_msg_def msg_agree_def parse_error_def)
next
  case (Enomem r)
  with assms show ?thesis by (cases y) (simp_all add: outcome_msg_def msg_agree_def parse_error_def)
qed

lemma runs_agree: "run_sim x y \<Longrightarrow> agree (map_option outcome_msg x) (map_option outcome_msg y)"
  by (auto elim!: option.rel_cases intro: outcome_msg_agree)

lemma mark_mark [simp]: "mark x y (mark u v r) = mark x y r"
  by (simp add: mark_def)

lemma outcome_msg_mark: "msg_agree same (outcome_msg (map_outcome (mark x y) out)) (outcome_msg out)"
  by (cases out) (auto simp: outcome_msg_def msg_agree_def finish_mark parse_error_def same_refl)

text \<open>A message left for more input, parsed again on the longer buffer.\<close>

lemma parse_with_again:
  assumes "mlast b < mend b" "inv r q" "q \<le> mlast b"
  shows "agree (parse_with step again finish b (mark q MSG_PARSE_AGAIN r))
    (map_option outcome_msg (parse_run step (mdata b) r q))"
proof -
  have "parse_with step again finish b (mark q MSG_PARSE_AGAIN r)
      = map_option outcome_msg (parse_run step (mdata b) (mark q MSG_PARSE_AGAIN r) q)"
    using parse_with_not_full [OF assms(1)] by (simp add: mark_def)
  also have "\<dots> = map_option (outcome_msg \<circ> map_outcome (mark q MSG_PARSE_AGAIN)) (parse_run step (mdata b) r q)"
    using assms(2,3) by (subst run_mark) (simp_all add: option.map_comp)
  finally show ?thesis
    using outcome_msg_mark by (cases "parse_run step (mdata b) r q") simp_all
qed

lemma parse_pieces_whole:
  assumes "inv r (pos r)" "pos r \<le> mlast b" "[] \<notin> set es" "mlast b + length (concat es) < mend b"
  shows "agree (parse_pieces (parse_with step again finish) b r es)
     (parse_with step again finish (b\<lparr>mdata := mdata b @ concat es\<rparr>) r)"
  using assms
proof (induction es arbitrary: b r)
  case Nil
  then show ?case by (simp add: agree_refl)
next
  case (Cons e es)
  let ?b = "b\<lparr>mdata := mdata b @ e\<rparr>" and ?d = "mdata b @ e @ concat es"
  obtain out where out: "parse_run step (mdata b) r (pos r) = Some out"
    "\<And>r' q. out = Move r' q \<Longrightarrow> q = mlast b \<and> inv r' q"
    using run_returns [OF Cons.prems(1,2)] by auto
  have now: "parse_with step again finish b r = Some (outcome_msg out)"
    using Cons.prems(4) out(1) by (simp add: parse_with_not_full)
  have whole: "parse_with step again finish (b\<lparr>mdata := ?d\<rparr>) r = map_option outcome_msg (parse_run step ?d r (pos r))"
    using Cons.prems(4) by (subst parse_with_not_full) simp_all
  have "e @ concat es \<noteq> []" using Cons.prems(3) by auto
  note app = run_append [OF Cons.prems(1,2) this, unfolded out(1)]
  show ?case
  proof (cases out)
    case (Move r' q)
    with out have r': "inv r' (mlast b)" and q: "q = mlast b" by auto
    let ?r = "mark q MSG_PARSE_AGAIN r'"
    have r: "pos ?r = mlast b" "result ?r = MSG_PARSE_AGAIN" by (simp_all add: mark_def q)
    then have rest: "agree (parse_pieces (parse_with step again finish) ?b ?r es)
        (parse_with step again finish (b\<lparr>mdata := ?d\<rparr>) ?r)"
      using Cons.IH [of ?r ?b] Cons.prems(3,4) r' by (simp add: inv_mark)
    have "agree (parse_with step again finish (b\<lparr>mdata := ?d\<rparr>) ?r) (map_option outcome_msg (parse_run step ?d r' (mlast b)))"
      using parse_with_again [of "b\<lparr>mdata := ?d\<rparr>" r' q] Cons.prems(4) r' q by simp
    moreover have "run_sim (parse_run step ?d r' (mlast b)) (parse_run step ?d r (pos r))"
      using app Move q run_sim_sym by simp
    ultimately have "agree (parse_pieces (parse_with step again finish) ?b ?r es)
        (parse_with step again finish (b\<lparr>mdata := ?d\<rparr>) r)"
      using agree_trans [OF rest] agree_trans runs_agree whole by metis
    then show ?thesis using now Move r(2) by (simp add: outcome_msg_def)
  next
    case (Done r' q)
    then have "parse_pieces (parse_with step again finish) b r (e # es) = map_option outcome_msg (Some out)"
      using now by (simp add: outcome_msg_def finish_pos)
    with runs_agree [OF run_sim_sym [OF app]] whole Done show ?thesis by simp
  next
    case (Error r')
    then have "parse_pieces (parse_with step again finish) b r (e # es) = map_option outcome_msg (Some out)"
      using now by (simp add: outcome_msg_def parse_error_def)
    with runs_agree [OF run_sim_sym [OF app]] whole Error show ?thesis by simp
  next
    case (Enomem r')
    then have "parse_pieces (parse_with step again finish) b r (e # es) = map_option outcome_msg (Some out)"
      using now by (simp add: outcome_msg_def parse_error_def)
    with runs_agree [OF run_sim_sym [OF app]] whole Enomem show ?thesis by simp
  qed
qed

end

end
