(* ===== verification/Wire_Format.thy ===== *)
theory Wire_Format
  imports Msg_Parse
begin

text \<open>
  What the descriptions of both wire protocols share: decimal numbers, tables of words, the
  bytes a key position delimits, and lemmas that follow a parser over a known piece of input.
\<close>

subsection \<open>Decimal numbers\<close>

lemma isdigit_digit_char [simp]: "n < 10 \<Longrightarrow> isdigit (digit_char n)"
  by (simp add: isdigit_def digit_char_def)

lemma dec_digit_digit_char: "k < 10 \<Longrightarrow> dec_digit w (digit_char k) = w * 10 + of_nat k"
proof -
  assume "k < 10"
  then have "(of_char (digit_char k) :: nat) = 48 + k" by (simp add: digit_char_def)
  then have "uchar32 (digit_char k) = of_nat (48 + k)"
    by (metis of_nat_of_char_word uchar32_def)
  then show ?thesis by (simp add: dec_digit_def)
qed

lemma show_nat_digits: "\<forall>c \<in> set (show_nat n). isdigit c"
proof (induction n rule: show_nat.induct)
  case (1 n)
  then show ?case by (subst show_nat.simps) auto
qed

lemma show_nat_value: "foldl dec_digit 0 (show_nat n) = of_nat n"
proof (induction n rule: show_nat.induct)
  case (1 n)
  show ?case
  proof (cases "n < 10")
    case True
    then show ?thesis by (subst show_nat.simps) (simp add: dec_digit_digit_char)
  next
    case False
    have "of_nat (n div 10) * 10 + of_nat (n mod 10) = (of_nat n :: u32)"
      by (metis div_mult_mod_eq of_nat_add of_nat_mult of_nat_numeral)
    with False 1 show ?thesis by (subst show_nat.simps) (simp add: dec_digit_digit_char)
  qed
qed

lemma show_nat_not_Nil [simp]: "show_nat n \<noteq> []" "0 < length (show_nat n)"
  by (subst show_nat.simps, simp)+

lemma not_digit_CR [simp]: "\<not> isdigit CR" "CR \<noteq> LF" "LF \<noteq> CR" "CHR ''$'' \<noteq> CR"
  by (simp_all add: isdigit_def CR_def LF_def)

lemma unat_of_nat_small: "n < 2 ^ 32 \<Longrightarrow> unat (of_nat n :: 32 word) = n"
  by (simp add: unsigned_of_nat take_bit_nat_eq_self)

lemma CR_other [simp]: "CR \<noteq> CHR ''-''" "CR \<noteq> CHR '' ''" "CR \<noteq> CHR ''*''" "CR \<noteq> CHR ''$''"
  "CHR ''-'' \<noteq> CR" "CHR '' '' \<noteq> CR" "CHR ''*'' \<noteq> CR" "LF \<noteq> CHR '' ''" "LF \<noteq> CHR ''-''"
  by (simp_all add: CR_def LF_def)

lemma digit_other: "isdigit c \<Longrightarrow> c \<noteq> CR \<and> c \<noteq> CHR ''-'' \<and> c \<noteq> CHR ''$'' \<and> c \<noteq> CHR ''*''"
  by (auto simp: isdigit_def CR_def)

subsection \<open>Tables of words\<close>

text \<open>The first word of a table that \<open>m\<close> starts with.\<close>

fun first_cmp :: "(bytes \<times> msg_type) list \<Rightarrow> bytes \<Rightarrow> msg_type \<Rightarrow> msg_type" where
  "first_cmp [] m ty = ty"
| "first_cmp ((s, t) # T) m ty = (if strcmp m s then t else first_cmp T m ty)"

lemma first_cmp_append:
  assumes "\<forall>(s, t) \<in> set T. length s \<le> length m"
  shows "first_cmp T (m @ e) ty = first_cmp T m ty"
  using assms by (induction T) (auto simp: strcmp_def)

subsection \<open>Following a parser\<close>

lemma run_Move:
  assumes "drop p d = x # xs" "step d r p = Move r' p'"
  shows "parse_run step d r p = parse_run step d r' p'"
  using dropD [OF assms(1)] assms(2) by (simp add: parse_run_step)

lemma drop_shift: "drop p d = a @ xs \<Longrightarrow> drop (p + length a) d = xs"
  by (metis add.commute append_eq_conv_conj drop_drop)

definition key_bytes :: "bytes \<Rightarrow> keypos \<Rightarrow> bytes" where
  "key_bytes d kp = take (kp_end kp - kp_start kp) (drop (kp_start kp) d)"

text \<open>A buffer of the default size.\<close>

definition example_mbuf :: "bytes \<Rightarrow> mbuf" where
  "example_mbuf d = \<lparr>mid = 7, mpos = 0, mdata = d, mend = 16336\<rparr>"

end
