(* ===== verification/Message.thy ===== *)
theory Message
  imports Wire_Format
begin

text \<open>
  Messages as the proxy keeps them between parsing and sending, \<^verbatim>\<open>nc_message.h\<close> and
  \<^verbatim>\<open>nc_message.c\<close>: the fields of \<open>struct msg\<close> outside the parser, and the operations that
  build the chain of buffers of a message.  A pointer to a message or a connection is a
  number, a key is the bytes its \<open>struct keypos\<close> delimits, and the node in the tree of
  timeouts is the pair of its key and its connection.  The lemmas say what each
  operation does to the bytes of a message.
\<close>

subsection \<open>The message\<close>

record message =
  m_owner :: "nat option"
  m_peer :: "nat option"
  m_tmo :: "(int \<times> nat) option"
  mhdr :: "mbuf list"
  mlen :: u32
  m_type :: msg_type
  m_keys :: "bytes list"
  m_end :: "mptr option"
  m_narg_start :: "mptr option"
  m_narg_end :: "mptr option"
  m_narg :: u32
  m_integer :: u32
  m_frag_owner :: "nat option"
  m_nfrag :: u32
  m_nfrag_done :: u32
  m_frag_id :: u64
  m_frag_seq :: "nat list"
  m_err :: nat
  m_error :: bool
  m_ferror :: bool
  m_request :: bool
  m_quit :: bool
  m_noreply :: bool
  m_noforward :: bool
  m_done :: bool
  m_fdone :: bool
  m_swallow :: bool
  m_redis :: bool

text \<open>The values of \<open>_msg_get\<close>, and the fields \<open>msg_get\<close> sets after it.\<close>

definition msg_init_fields :: message where
  "msg_init_fields = \<lparr>m_owner = None, m_peer = None, m_tmo = None, mhdr = [], mlen = 0, m_type = MSG_UNKNOWN,
     m_keys = [], m_end = None, m_narg_start = None, m_narg_end = None, m_narg = 0, m_integer = 0,
     m_frag_owner = None, m_nfrag = 0, m_nfrag_done = 0, m_frag_id = 0, m_frag_seq = [], m_err = 0,
     m_error = False, m_ferror = False, m_request = False, m_quit = False, m_noreply = False,
     m_noforward = False, m_done = False, m_fdone = False, m_swallow = False, m_redis = False\<rparr>"

definition msg_get :: "nat option \<Rightarrow> bool \<Rightarrow> bool \<Rightarrow> message" where
  "msg_get conn request redis = msg_init_fields\<lparr>m_owner := conn, m_request := request, m_redis := redis\<rparr>"

text \<open>What the parser leaves in a message that is complete.\<close>

definition load_parsed :: "(nat \<Rightarrow> bytes) \<Rightarrow> 'st msg \<Rightarrow> message \<Rightarrow> message" where
  "load_parsed bufs r m = m\<lparr>m_type := mtype r, m_keys := map (\<lambda>k. key_bytes (bufs (kp_buf k)) k) (keys r),
     m_end := msg_end r, m_narg_start := narg_start r, m_narg_end := narg_end r, m_narg := narg r,
     m_integer := rinteger r, m_noforward := noforward r, m_quit := quit r, m_noreply := noreply r\<rparr>"

definition msg_empty :: "message \<Rightarrow> bool" where
  "msg_empty m \<longleftrightarrow> mlen m = 0"

subsection \<open>Building the chain of buffers\<close>

text \<open>\<open>mem n\<close> tells whether the allocation of the \<open>n\<close>-th fresh chunk succeeds.\<close>

definition new_mbuf :: "(nat \<Rightarrow> bool) \<Rightarrow> mbuf_pool \<Rightarrow> mbuf option \<times> mbuf_pool" where
  "new_mbuf mem mp = mbuf_get (mem (next_chunk mp)) mp"

definition msg_ensure_mbuf :: "(nat \<Rightarrow> bool) \<Rightarrow> mbuf list \<Rightarrow> nat \<Rightarrow> mbuf_pool \<Rightarrow> mbuf list option \<times> mbuf_pool" where
  "msg_ensure_mbuf mem h len mp =
     (if h = [] \<or> unat (mbuf_size (last h)) < len then
        (case new_mbuf mem mp of
           (None, mp') \<Rightarrow> (None, mp')
         | (Some b, mp') \<Rightarrow> (Some (mbuf_insert h b), mp'))
      else (Some h, mp))"

definition msg_append :: "(nat \<Rightarrow> bool) \<Rightarrow> bytes \<Rightarrow> message \<Rightarrow> mbuf_pool \<Rightarrow> (rstatus \<times> message \<times> mbuf_pool) option" where
  "msg_append mem src m mp =
     (if mbuf_data_size mp < length src then None
      else (case msg_ensure_mbuf mem (mhdr m) (length src) mp of
              (None, mp') \<Rightarrow> Some (NC_ENOMEM, m, mp')
            | (Some h, mp') \<Rightarrow>
                (case mbuf_copy (last h) src of
                   None \<Rightarrow> None
                 | Some b \<Rightarrow> Some (NC_OK, m\<lparr>mhdr := butlast h @ [b], mlen := mlen m + of_nat (length src)\<rparr>, mp'))))"

definition msg_prepend :: "(nat \<Rightarrow> bool) \<Rightarrow> bytes \<Rightarrow> message \<Rightarrow> mbuf_pool \<Rightarrow> (rstatus \<times> message \<times> mbuf_pool) option" where
  "msg_prepend mem src m mp =
     (case new_mbuf mem mp of
        (None, mp') \<Rightarrow> Some (NC_ENOMEM, m, mp')
      | (Some b, mp') \<Rightarrow>
          (case mbuf_copy b src of
             None \<Rightarrow> None
           | Some b' \<Rightarrow> Some (NC_OK, m\<lparr>mhdr := b' # mhdr m, mlen := mlen m + of_nat (length src)\<rparr>, mp')))"

text \<open>
  \<open>src\<close> is the formatted text; \<open>nc_vsnprintf\<close> returns its length and needs room for a null
  character.  On failure the new buffer stays outside the message and the free queue.
\<close>

definition msg_prepend_format ::
  "(nat \<Rightarrow> bool) \<Rightarrow> bytes \<Rightarrow> message \<Rightarrow> mbuf_pool \<Rightarrow> (rstatus \<times> message \<times> mbuf_pool) option" where
  "msg_prepend_format mem src m mp =
     (case new_mbuf mem mp of
        (None, mp') \<Rightarrow> Some (NC_ENOMEM, m, mp')
      | (Some b, mp') \<Rightarrow>
          if length src = 0 \<or> unat (mbuf_size b) \<le> length src then Some (NC_ERROR, m, mp')
          else Some (NC_OK, m\<lparr>mhdr := b\<lparr>mdata := mdata b @ src\<rparr> # mhdr m, mlen := mlen m + of_nat (length src)\<rparr>, mp'))"

text \<open>\<open>msg_put\<close> returns the buffers of a message to the free queue, first to last.\<close>

definition msg_put_mbufs :: "mbuf list \<Rightarrow> mbuf_pool \<Rightarrow> mbuf_pool" where
  "msg_put_mbufs h mp = foldl (\<lambda>mp b. mbuf_put b mp) mp h"

text \<open>The reply for a request that failed, with the text \<open>strerror\<close> returns for \<open>err\<close>.\<close>

definition msg_error_text :: "(nat \<Rightarrow> bytes) \<Rightarrow> bool \<Rightarrow> nat \<Rightarrow> bytes" where
  "msg_error_text strerror redis err =
     (if redis then ''-ERR'' else ''SERVER_ERROR'') @ '' '' @ (if err \<noteq> 0 then strerror err else ''unknown'') @ [CR, LF]"

text \<open>\<open>nc_scnprintf\<close> cuts the text to one byte less than the room of the buffer.\<close>

definition msg_get_error ::
  "(nat \<Rightarrow> bool) \<Rightarrow> (nat \<Rightarrow> bytes) \<Rightarrow> bool \<Rightarrow> nat \<Rightarrow> mbuf_pool \<Rightarrow> message option \<times> mbuf_pool" where
  "msg_get_error mem strerror redis err mp =
     (case new_mbuf mem mp of
        (None, mp') \<Rightarrow> (None, mp')
      | (Some b, mp') \<Rightarrow>
          let text = take (unat (mbuf_size b) - 1) (msg_error_text strerror redis err) in
          (Some (msg_init_fields\<lparr>m_type := MSG_RSP_MC_SERVER_ERROR, mhdr := [b\<lparr>mdata := mdata b @ text\<rparr>],
             mlen := of_nat (length text)\<rparr>), mp'))"

subsection \<open>What the operations do to the bytes\<close>

abbreviation msg_bytes :: "message \<Rightarrow> bytes" where
  "msg_bytes m \<equiv> chain_bytes (mhdr m)"

definition msg_ok :: "nat \<Rightarrow> message \<Rightarrow> bool" where
  "msg_ok sz m \<longleftrightarrow> (\<forall>b \<in> set (mhdr m). mbuf_ok sz b) \<and> mlen m = of_nat (length (msg_bytes m))"

lemma unread_append [simp]: "mpos b \<le> mlast b \<Longrightarrow> unread (b\<lparr>mdata := mdata b @ src\<rparr>) = unread b @ src"
  by (simp add: unread_def)

text \<open>The sizes of the buffers; whatever is in the free queue, a new buffer has this room.\<close>

definition pool_room :: "mbuf_pool \<Rightarrow> bool" where
  "pool_room mp \<longleftrightarrow> 0 < mbuf_offset mp \<and> mbuf_offset mp < 2 ^ 32"

lemma pool_room_ok: "mbuf_pool_ok mp \<Longrightarrow> pool_room mp"
  by (simp add: pool_room_def mbuf_pool_ok_def)

lemma new_mbuf_cases:
  assumes "pool_room mp"
  obtains (none) "new_mbuf mem mp = (None, mp)" "\<not> mem (next_chunk mp)"
    | (some) b mp' where "new_mbuf mem mp = (Some b, mp')" "pool_room mp'" "mbuf_ok (mbuf_offset mp) b"
      "mdata b = []" "mpos b = 0" "mbuf_offset mp' = mbuf_offset mp" "mbuf_pool_ok mp \<longrightarrow> mbuf_pool_ok mp'"
proof (cases "new_mbuf mem mp")
  case (Pair r mp')
  show ?thesis
  proof (cases r)
    case None
    then show ?thesis using none Pair mbuf_get_None [of "mem (next_chunk mp)" mp mp'] by (simp add: new_mbuf_def)
  next
    case (Some b)
    then have "mbuf_get (mem (next_chunk mp)) mp = (Some b, mp')" using Pair by (simp add: new_mbuf_def)
    then have "mbuf_ok (mbuf_offset mp) b" "mdata b = []" "mpos b = 0" "mbuf_offset mp' = mbuf_offset mp"
      "mbuf_pool_ok mp \<longrightarrow> mbuf_pool_ok mp'"
      using mbuf_get_Some(1) [of mp "mem (next_chunk mp)" b mp']
      by (auto simp: mbuf_get_def mbuf_chunk_get_def mbuf_ok_def split: list.splits if_splits option.splits prod.splits)
    then show ?thesis using some [of b mp'] Pair Some assms by (simp add: pool_room_def)
  qed
qed

lemma ensure_mbuf_room:
  assumes mp: "pool_room mp" and h: "\<forall>b \<in> set h. mbuf_ok (mbuf_offset mp) b" and n: "n \<le> mbuf_offset mp"
  obtains (none) "msg_ensure_mbuf mem h n mp = (None, mp)" "\<not> mem (next_chunk mp)"
    | (some) g mp' where "msg_ensure_mbuf mem h n mp = (Some g, mp')" "g \<noteq> []" "pool_room mp'"
      "mbuf_offset mp' = mbuf_offset mp" "\<forall>b \<in> set g. mbuf_ok (mbuf_offset mp) b"
      "mlast (last g) + n \<le> mbuf_offset mp" "chain_bytes g = chain_bytes h"
proof (cases "h = [] \<or> unat (mbuf_size (last h)) < n")
  case False
  have lt: "mbuf_offset mp < 2 ^ 32" using mp by (simp add: pool_room_def)
  have "mbuf_ok (mbuf_offset mp) (last h)" using h False by simp
  then have "mlast (last h) + n \<le> mbuf_offset mp"
    using False unat_mbuf_size [of "last h"] lt by (auto simp: mbuf_ok_def)
  then show ?thesis using some [of h mp] False h mp by (simp add: msg_ensure_mbuf_def)
next
  case True
  show ?thesis
  proof (cases rule: new_mbuf_cases [OF mp, of mem])
    case 1
    then show ?thesis using none True by (simp add: msg_ensure_mbuf_def)
  next
    case (2 b mp')
    then show ?thesis
      using some [of "h @ [b]" mp'] True h n by (simp add: msg_ensure_mbuf_def mbuf_insert_def unread_def)
  qed
qed

lemma msg_append_cases:
  assumes mp: "pool_room mp" and m: "msg_ok (mbuf_offset mp) m" and n: "length src \<le> mbuf_offset mp"
  obtains (none) "msg_append mem src m mp = Some (NC_ENOMEM, m, mp)" "\<not> mem (next_chunk mp)"
    | (some) h mp' where "msg_append mem src m mp = Some (NC_OK, m\<lparr>mhdr := h, mlen := mlen m + of_nat (length src)\<rparr>, mp')"
      "chain_bytes h = msg_bytes m @ src" "pool_room mp'" "mbuf_offset mp' = mbuf_offset mp"
      "msg_ok (mbuf_offset mp) (m\<lparr>mhdr := h, mlen := mlen m + of_nat (length src)\<rparr>)"
proof -
  have ok: "\<forall>b \<in> set (mhdr m). mbuf_ok (mbuf_offset mp) b" using m by (simp add: msg_ok_def)
  have lt: "mbuf_offset mp < 2 ^ 32" using mp by (simp add: pool_room_def)
  show ?thesis
  proof (cases rule: ensure_mbuf_room [OF mp ok n, of mem])
    case 1
    then show ?thesis using none n by (simp add: msg_append_def mbuf_data_size_def)
  next
    case (2 g mp')
    let ?b = "(last g)\<lparr>mdata := mdata (last g) @ src\<rparr>"
    have last: "mbuf_ok (mbuf_offset mp) (last g)" using 2 by simp
    have "mbuf_copy (last g) src = Some ?b" using mbuf_copy_Some [OF last lt] 2 by simp
    moreover have g: "g = butlast g @ [last g]" using 2 by simp
    then have "chain_bytes g = chain_bytes (butlast g) @ unread (last g)"
      by (metis chain_bytes_Cons chain_bytes_Nil chain_bytes_append append_Nil2)
    then have b: "chain_bytes (butlast g @ [?b]) = msg_bytes m @ src"
      using 2 last by (simp add: mbuf_ok_def)
    moreover have "mbuf_ok (mbuf_offset mp) ?b" using last 2(6) by (auto simp: mbuf_ok_def)
    then have "\<forall>b \<in> set (butlast g @ [?b]). mbuf_ok (mbuf_offset mp) b"
      using 2(5) by (auto dest: in_set_butlastD)
    ultimately show ?thesis
      using some [of "butlast g @ [?b]" mp'] 2 n m by (simp add: msg_append_def mbuf_data_size_def msg_ok_def)
  qed
qed

lemma msg_prepend_cases:
  assumes mp: "pool_room mp" and m: "msg_ok (mbuf_offset mp) m" and n: "length src \<le> mbuf_offset mp"
  obtains (none) "msg_prepend mem src m mp = Some (NC_ENOMEM, m, mp)" "\<not> mem (next_chunk mp)"
    | (some) h mp' where "msg_prepend mem src m mp = Some (NC_OK, m\<lparr>mhdr := h, mlen := mlen m + of_nat (length src)\<rparr>, mp')"
      "chain_bytes h = src @ msg_bytes m" "pool_room mp'" "mbuf_offset mp' = mbuf_offset mp"
      "msg_ok (mbuf_offset mp) (m\<lparr>mhdr := h, mlen := mlen m + of_nat (length src)\<rparr>)"
proof (cases rule: new_mbuf_cases [OF mp, of mem])
  case 1
  then show ?thesis using none by (simp add: msg_prepend_def)
next
  case (2 b mp')
  have lt: "mbuf_offset mp < 2 ^ 32" using mp by (simp add: pool_room_def)
  then have "mbuf_copy b src = Some (b\<lparr>mdata := src\<rparr>)" using mbuf_copy_Some [OF 2(3) lt] 2(4) n by simp
  moreover have "mbuf_ok (mbuf_offset mp) (b\<lparr>mdata := src\<rparr>)" using 2(3-5) n by (simp add: mbuf_ok_def)
  ultimately show ?thesis
    using some [of "b\<lparr>mdata := src\<rparr> # mhdr m" mp'] 2 m by (simp add: msg_prepend_def msg_ok_def unread_def add.commute)
qed

lemma msg_prepend_format_cases:
  assumes mp: "pool_room mp" and m: "msg_ok (mbuf_offset mp) m" and n: "0 < length src" "length src < mbuf_offset mp"
  obtains (none) "msg_prepend_format mem src m mp = Some (NC_ENOMEM, m, mp)" "\<not> mem (next_chunk mp)"
    | (some) h mp' where
      "msg_prepend_format mem src m mp = Some (NC_OK, m\<lparr>mhdr := h, mlen := mlen m + of_nat (length src)\<rparr>, mp')"
      "chain_bytes h = src @ msg_bytes m" "pool_room mp'" "mbuf_offset mp' = mbuf_offset mp"
      "msg_ok (mbuf_offset mp) (m\<lparr>mhdr := h, mlen := mlen m + of_nat (length src)\<rparr>)"
proof (cases rule: new_mbuf_cases [OF mp, of mem])
  case 1
  then show ?thesis using none by (simp add: msg_prepend_format_def)
next
  case (2 b mp')
  have "mend b < 2 ^ 32" using mp 2(3) by (simp add: pool_room_def mbuf_ok_def)
  then have "unat (mbuf_size b) = mbuf_offset mp" using unat_mbuf_size [of b] 2(3,4) by (simp add: mbuf_ok_def)
  moreover have "mbuf_ok (mbuf_offset mp) (b\<lparr>mdata := src\<rparr>)" using 2(3-5) n by (simp add: mbuf_ok_def)
  ultimately show ?thesis
    using some [of "b\<lparr>mdata := src\<rparr> # mhdr m" mp'] 2 m n
    by (simp add: msg_prepend_format_def msg_ok_def unread_def add.commute)
qed

text \<open>The bytes of an error reply: the whole text, if it fits.\<close>

lemma msg_get_error_bytes:
  assumes mp: "pool_room mp" and mem: "mem (next_chunk mp)"
    and n: "length (msg_error_text strerror redis err) < mbuf_offset mp"
  obtains m mp' where "msg_get_error mem strerror redis err mp = (Some m, mp')"
    "msg_bytes m = msg_error_text strerror redis err" "msg_ok (mbuf_offset mp) m" "pool_room mp'" "\<not> m_request m"
    "m_peer m = None"
proof (cases rule: new_mbuf_cases [OF mp, of mem])
  case 1
  then show ?thesis using mem by simp
next
  case (2 b mp')
  have "mend b < 2 ^ 32" using mp 2(3) by (simp add: pool_room_def mbuf_ok_def)
  then have "unat (mbuf_size b) = mbuf_offset mp" using unat_mbuf_size [of b] 2(3,4) by (simp add: mbuf_ok_def)
  moreover define t where "t = msg_error_text strerror redis err"
  ultimately have "msg_get_error mem strerror redis err mp
      = (Some (msg_init_fields\<lparr>m_type := MSG_RSP_MC_SERVER_ERROR, mhdr := [b\<lparr>mdata := t\<rparr>], mlen := of_nat (length t)\<rparr>), mp')"
    using 2 n by (simp add: msg_get_error_def Let_def)
  then show ?thesis
    using that 2 n by (auto simp: t_def [symmetric] msg_ok_def unread_def mbuf_ok_def msg_init_fields_def)
qed

end
