(* ===== verification/Redis_Command.thy ===== *)
theory Redis_Command
  imports Msg_Parse
begin

text \<open>
  The redis commands: the classification by number of arguments and the recognition of
  a command name, \<^verbatim>\<open>proto/nc_redis.c\<close> and the case-insensitive comparison macros of
  \<^verbatim>\<open>proto/nc_proto.h\<close>.  The lemmas show that the nested \<open>switch\<close> is a lookup of the
  lower-case name in the table of documented commands and that the argument classes
  partition that table.
\<close>

subsection \<open>Argument classes\<close>

definition redis_argz :: "'st msg \<Rightarrow> bool" where
  "redis_argz r \<longleftrightarrow> mtype r \<in> {MSG_REQ_REDIS_PING, MSG_REQ_REDIS_QUIT}"

definition redis_arg0 :: "'st msg \<Rightarrow> bool" where
  "redis_arg0 r \<longleftrightarrow> mtype r \<in> {MSG_REQ_REDIS_EXISTS, MSG_REQ_REDIS_PERSIST, MSG_REQ_REDIS_PTTL, MSG_REQ_REDIS_TTL,
     MSG_REQ_REDIS_TYPE, MSG_REQ_REDIS_DUMP, MSG_REQ_REDIS_DECR, MSG_REQ_REDIS_GET,
     MSG_REQ_REDIS_INCR, MSG_REQ_REDIS_STRLEN, MSG_REQ_REDIS_HGETALL, MSG_REQ_REDIS_HKEYS,
     MSG_REQ_REDIS_HLEN, MSG_REQ_REDIS_HVALS, MSG_REQ_REDIS_LLEN, MSG_REQ_REDIS_LPOP,
     MSG_REQ_REDIS_RPOP, MSG_REQ_REDIS_SCARD, MSG_REQ_REDIS_SMEMBERS, MSG_REQ_REDIS_SPOP,
     MSG_REQ_REDIS_ZCARD, MSG_REQ_REDIS_PFCOUNT, MSG_REQ_REDIS_AUTH}"

definition redis_arg1 :: "'st msg \<Rightarrow> bool" where
  "redis_arg1 r \<longleftrightarrow> mtype r \<in> {MSG_REQ_REDIS_EXPIRE, MSG_REQ_REDIS_EXPIREAT, MSG_REQ_REDIS_PEXPIRE,
     MSG_REQ_REDIS_PEXPIREAT, MSG_REQ_REDIS_APPEND, MSG_REQ_REDIS_DECRBY,
     MSG_REQ_REDIS_GETBIT, MSG_REQ_REDIS_GETSET, MSG_REQ_REDIS_INCRBY,
     MSG_REQ_REDIS_INCRBYFLOAT, MSG_REQ_REDIS_SETNX, MSG_REQ_REDIS_HEXISTS,
     MSG_REQ_REDIS_HGET, MSG_REQ_REDIS_LINDEX, MSG_REQ_REDIS_LPUSHX,
     MSG_REQ_REDIS_RPOPLPUSH, MSG_REQ_REDIS_RPUSHX, MSG_REQ_REDIS_SISMEMBER,
     MSG_REQ_REDIS_ZRANK, MSG_REQ_REDIS_ZREVRANK, MSG_REQ_REDIS_ZSCORE}"

definition redis_arg2 :: "'st msg \<Rightarrow> bool" where
  "redis_arg2 r \<longleftrightarrow> mtype r \<in> {MSG_REQ_REDIS_GETRANGE, MSG_REQ_REDIS_PSETEX, MSG_REQ_REDIS_SETBIT,
     MSG_REQ_REDIS_SETEX, MSG_REQ_REDIS_SETRANGE, MSG_REQ_REDIS_HINCRBY,
     MSG_REQ_REDIS_HINCRBYFLOAT, MSG_REQ_REDIS_HSET, MSG_REQ_REDIS_HSETNX,
     MSG_REQ_REDIS_LRANGE, MSG_REQ_REDIS_LREM, MSG_REQ_REDIS_LSET, MSG_REQ_REDIS_LTRIM,
     MSG_REQ_REDIS_SMOVE, MSG_REQ_REDIS_ZCOUNT, MSG_REQ_REDIS_ZLEXCOUNT,
     MSG_REQ_REDIS_ZINCRBY, MSG_REQ_REDIS_ZREMRANGEBYLEX, MSG_REQ_REDIS_ZREMRANGEBYRANK,
     MSG_REQ_REDIS_ZREMRANGEBYSCORE, MSG_REQ_REDIS_RESTORE}"

definition redis_arg3 :: "'st msg \<Rightarrow> bool" where
  "redis_arg3 r \<longleftrightarrow> mtype r \<in> {MSG_REQ_REDIS_LINSERT}"

definition redis_argn :: "'st msg \<Rightarrow> bool" where
  "redis_argn r \<longleftrightarrow> mtype r \<in> {MSG_REQ_REDIS_SORT, MSG_REQ_REDIS_BITCOUNT, MSG_REQ_REDIS_BITPOS, MSG_REQ_REDIS_SET,
     MSG_REQ_REDIS_HDEL, MSG_REQ_REDIS_HMGET, MSG_REQ_REDIS_HMSET, MSG_REQ_REDIS_HSCAN,
     MSG_REQ_REDIS_LPUSH, MSG_REQ_REDIS_RPUSH, MSG_REQ_REDIS_SADD, MSG_REQ_REDIS_SDIFF,
     MSG_REQ_REDIS_SDIFFSTORE, MSG_REQ_REDIS_SINTER, MSG_REQ_REDIS_SINTERSTORE,
     MSG_REQ_REDIS_SREM, MSG_REQ_REDIS_SUNION, MSG_REQ_REDIS_SUNIONSTORE,
     MSG_REQ_REDIS_SRANDMEMBER, MSG_REQ_REDIS_SSCAN, MSG_REQ_REDIS_PFADD,
     MSG_REQ_REDIS_PFMERGE, MSG_REQ_REDIS_ZADD, MSG_REQ_REDIS_ZINTERSTORE,
     MSG_REQ_REDIS_ZRANGE, MSG_REQ_REDIS_ZRANGEBYSCORE, MSG_REQ_REDIS_ZREM,
     MSG_REQ_REDIS_ZREVRANGE, MSG_REQ_REDIS_ZRANGEBYLEX, MSG_REQ_REDIS_ZREVRANGEBYSCORE,
     MSG_REQ_REDIS_ZUNIONSTORE, MSG_REQ_REDIS_ZSCAN}"

definition redis_argx :: "'st msg \<Rightarrow> bool" where
  "redis_argx r \<longleftrightarrow> mtype r \<in> {MSG_REQ_REDIS_MGET, MSG_REQ_REDIS_DEL}"

definition redis_argkvx :: "'st msg \<Rightarrow> bool" where
  "redis_argkvx r \<longleftrightarrow> mtype r \<in> {MSG_REQ_REDIS_MSET}"

definition redis_argeval :: "'st msg \<Rightarrow> bool" where
  "redis_argeval r \<longleftrightarrow> mtype r \<in> {MSG_REQ_REDIS_EVAL, MSG_REQ_REDIS_EVALSHA}"

definition redis_error :: "'st msg \<Rightarrow> bool" where
  "redis_error r \<longleftrightarrow> mtype r \<in> {MSG_RSP_REDIS_ERROR, MSG_RSP_REDIS_ERROR_ERR, MSG_RSP_REDIS_ERROR_OOM,
     MSG_RSP_REDIS_ERROR_BUSY, MSG_RSP_REDIS_ERROR_NOAUTH, MSG_RSP_REDIS_ERROR_LOADING,
     MSG_RSP_REDIS_ERROR_BUSYKEY, MSG_RSP_REDIS_ERROR_MISCONF, MSG_RSP_REDIS_ERROR_NOSCRIPT,
     MSG_RSP_REDIS_ERROR_READONLY, MSG_RSP_REDIS_ERROR_WRONGTYPE,
     MSG_RSP_REDIS_ERROR_EXECABORT, MSG_RSP_REDIS_ERROR_MASTERDOWN,
     MSG_RSP_REDIS_ERROR_NOREPLICAS}"

subsection \<open>Command names\<close>

text \<open>One table per case of \<open>switch (p - m)\<close>, in the order of its comparisons.\<close>

definition redis_cmd3 :: "(bytes \<times> msg_type) list" where
  "redis_cmd3 = [(''get'', MSG_REQ_REDIS_GET), (''set'', MSG_REQ_REDIS_SET),
    (''ttl'', MSG_REQ_REDIS_TTL), (''del'', MSG_REQ_REDIS_DEL)]"

definition redis_cmd4 :: "(bytes \<times> msg_type) list" where
  "redis_cmd4 = [(''pttl'', MSG_REQ_REDIS_PTTL), (''decr'', MSG_REQ_REDIS_DECR),
    (''dump'', MSG_REQ_REDIS_DUMP), (''hdel'', MSG_REQ_REDIS_HDEL),
    (''hget'', MSG_REQ_REDIS_HGET), (''hlen'', MSG_REQ_REDIS_HLEN),
    (''hset'', MSG_REQ_REDIS_HSET), (''incr'', MSG_REQ_REDIS_INCR),
    (''llen'', MSG_REQ_REDIS_LLEN), (''lpop'', MSG_REQ_REDIS_LPOP),
    (''lrem'', MSG_REQ_REDIS_LREM), (''lset'', MSG_REQ_REDIS_LSET),
    (''rpop'', MSG_REQ_REDIS_RPOP), (''sadd'', MSG_REQ_REDIS_SADD),
    (''spop'', MSG_REQ_REDIS_SPOP), (''srem'', MSG_REQ_REDIS_SREM),
    (''type'', MSG_REQ_REDIS_TYPE), (''mget'', MSG_REQ_REDIS_MGET),
    (''mset'', MSG_REQ_REDIS_MSET), (''zadd'', MSG_REQ_REDIS_ZADD),
    (''zrem'', MSG_REQ_REDIS_ZREM), (''eval'', MSG_REQ_REDIS_EVAL),
    (''sort'', MSG_REQ_REDIS_SORT), (''ping'', MSG_REQ_REDIS_PING),
    (''quit'', MSG_REQ_REDIS_QUIT), (''auth'', MSG_REQ_REDIS_AUTH)]"

definition redis_cmd5 :: "(bytes \<times> msg_type) list" where
  "redis_cmd5 = [(''hkeys'', MSG_REQ_REDIS_HKEYS), (''hmget'', MSG_REQ_REDIS_HMGET),
    (''hmset'', MSG_REQ_REDIS_HMSET), (''hvals'', MSG_REQ_REDIS_HVALS),
    (''hscan'', MSG_REQ_REDIS_HSCAN), (''lpush'', MSG_REQ_REDIS_LPUSH),
    (''ltrim'', MSG_REQ_REDIS_LTRIM), (''rpush'', MSG_REQ_REDIS_RPUSH),
    (''scard'', MSG_REQ_REDIS_SCARD), (''sdiff'', MSG_REQ_REDIS_SDIFF),
    (''setex'', MSG_REQ_REDIS_SETEX), (''setnx'', MSG_REQ_REDIS_SETNX),
    (''smove'', MSG_REQ_REDIS_SMOVE), (''sscan'', MSG_REQ_REDIS_SSCAN),
    (''zcard'', MSG_REQ_REDIS_ZCARD), (''zrank'', MSG_REQ_REDIS_ZRANK),
    (''zscan'', MSG_REQ_REDIS_ZSCAN), (''pfadd'', MSG_REQ_REDIS_PFADD)]"

definition redis_cmd6 :: "(bytes \<times> msg_type) list" where
  "redis_cmd6 = [(''append'', MSG_REQ_REDIS_APPEND), (''bitpos'', MSG_REQ_REDIS_BITPOS),
    (''decrby'', MSG_REQ_REDIS_DECRBY), (''exists'', MSG_REQ_REDIS_EXISTS),
    (''expire'', MSG_REQ_REDIS_EXPIRE), (''getbit'', MSG_REQ_REDIS_GETBIT),
    (''getset'', MSG_REQ_REDIS_GETSET), (''psetex'', MSG_REQ_REDIS_PSETEX),
    (''hsetnx'', MSG_REQ_REDIS_HSETNX), (''incrby'', MSG_REQ_REDIS_INCRBY),
    (''lindex'', MSG_REQ_REDIS_LINDEX), (''lpushx'', MSG_REQ_REDIS_LPUSHX),
    (''lrange'', MSG_REQ_REDIS_LRANGE), (''rpushx'', MSG_REQ_REDIS_RPUSHX),
    (''setbit'', MSG_REQ_REDIS_SETBIT), (''sinter'', MSG_REQ_REDIS_SINTER),
    (''strlen'', MSG_REQ_REDIS_STRLEN), (''sunion'', MSG_REQ_REDIS_SUNION),
    (''zcount'', MSG_REQ_REDIS_ZCOUNT), (''zrange'', MSG_REQ_REDIS_ZRANGE),
    (''zscore'', MSG_REQ_REDIS_ZSCORE)]"

definition redis_cmd7 :: "(bytes \<times> msg_type) list" where
  "redis_cmd7 = [(''persist'', MSG_REQ_REDIS_PERSIST), (''pexpire'', MSG_REQ_REDIS_PEXPIRE),
    (''hexists'', MSG_REQ_REDIS_HEXISTS), (''hgetall'', MSG_REQ_REDIS_HGETALL),
    (''hincrby'', MSG_REQ_REDIS_HINCRBY), (''linsert'', MSG_REQ_REDIS_LINSERT),
    (''zincrby'', MSG_REQ_REDIS_ZINCRBY), (''evalsha'', MSG_REQ_REDIS_EVALSHA),
    (''restore'', MSG_REQ_REDIS_RESTORE), (''pfcount'', MSG_REQ_REDIS_PFCOUNT),
    (''pfmerge'', MSG_REQ_REDIS_PFMERGE)]"

definition redis_cmd8 :: "(bytes \<times> msg_type) list" where
  "redis_cmd8 = [(''expireat'', MSG_REQ_REDIS_EXPIREAT), (''bitcount'', MSG_REQ_REDIS_BITCOUNT),
    (''getrange'', MSG_REQ_REDIS_GETRANGE), (''setrange'', MSG_REQ_REDIS_SETRANGE),
    (''smembers'', MSG_REQ_REDIS_SMEMBERS), (''zrevrank'', MSG_REQ_REDIS_ZREVRANK)]"

definition redis_cmd9 :: "(bytes \<times> msg_type) list" where
  "redis_cmd9 = [(''pexpireat'', MSG_REQ_REDIS_PEXPIREAT), (''rpoplpush'', MSG_REQ_REDIS_RPOPLPUSH),
    (''sismember'', MSG_REQ_REDIS_SISMEMBER), (''zrevrange'', MSG_REQ_REDIS_ZREVRANGE),
    (''zlexcount'', MSG_REQ_REDIS_ZLEXCOUNT)]"

definition redis_cmd10 :: "(bytes \<times> msg_type) list" where
  "redis_cmd10 = [(''sdiffstore'', MSG_REQ_REDIS_SDIFFSTORE)]"

definition redis_cmd11 :: "(bytes \<times> msg_type) list" where
  "redis_cmd11 = [(''incrbyfloat'', MSG_REQ_REDIS_INCRBYFLOAT),
    (''sinterstore'', MSG_REQ_REDIS_SINTERSTORE),
    (''srandmember'', MSG_REQ_REDIS_SRANDMEMBER),
    (''sunionstore'', MSG_REQ_REDIS_SUNIONSTORE),
    (''zinterstore'', MSG_REQ_REDIS_ZINTERSTORE),
    (''zunionstore'', MSG_REQ_REDIS_ZUNIONSTORE),
    (''zrangebylex'', MSG_REQ_REDIS_ZRANGEBYLEX)]"

definition redis_cmd12 :: "(bytes \<times> msg_type) list" where
  "redis_cmd12 = [(''hincrbyfloat'', MSG_REQ_REDIS_HINCRBYFLOAT)]"

definition redis_cmd13 :: "(bytes \<times> msg_type) list" where
  "redis_cmd13 = [(''zrangebyscore'', MSG_REQ_REDIS_ZRANGEBYSCORE)]"

definition redis_cmd14 :: "(bytes \<times> msg_type) list" where
  "redis_cmd14 = [(''zremrangebylex'', MSG_REQ_REDIS_ZREMRANGEBYLEX)]"

definition redis_cmd15 :: "(bytes \<times> msg_type) list" where
  "redis_cmd15 = [(''zremrangebyrank'', MSG_REQ_REDIS_ZREMRANGEBYRANK)]"

definition redis_cmd16 :: "(bytes \<times> msg_type) list" where
  "redis_cmd16 = [(''zremrangebyscore'', MSG_REQ_REDIS_ZREMRANGEBYSCORE),
    (''zrevrangebyscore'', MSG_REQ_REDIS_ZREVRANGEBYSCORE)]"

text \<open>The first comparison that succeeds decides; \<open>m\<close> is the buffer from the name on.\<close>

fun first_icmp :: "(bytes \<times> msg_type) list \<Rightarrow> bytes \<Rightarrow> msg_type" where
  "first_icmp [] m = MSG_UNKNOWN"
| "first_icmp ((s, t) # T) m = (if stricmp m s then t else first_icmp T m)"

text \<open>\<open>case 10\<close> has no \<open>break\<close> and continues with the comparisons of \<open>case 11\<close>.\<close>

definition redis_cmd_table :: "nat \<Rightarrow> (bytes \<times> msg_type) list" where
  "redis_cmd_table n =
     (if n = 3 then redis_cmd3 else if n = 4 then redis_cmd4 else if n = 5 then redis_cmd5
      else if n = 6 then redis_cmd6 else if n = 7 then redis_cmd7 else if n = 8 then redis_cmd8
      else if n = 9 then redis_cmd9 else if n = 10 then redis_cmd10 @ redis_cmd11
      else if n = 11 then redis_cmd11 else if n = 12 then redis_cmd12 else if n = 13 then redis_cmd13
      else if n = 14 then redis_cmd14 else if n = 15 then redis_cmd15
      else if n = 16 then redis_cmd16 else [])"

definition redis_cmd_type :: "nat \<Rightarrow> bytes \<Rightarrow> msg_type" where
  "redis_cmd_type n m = first_icmp (redis_cmd_table n) m"

subsection \<open>Recognition is a table lookup\<close>

definition to_lower :: "char \<Rightarrow> char" where
  "to_lower c = (if 65 \<le> (of_char c :: nat) \<and> (of_char c :: nat) \<le> 90 then char_of ((of_char c :: nat) + 32) else c)"

text \<open>
  The commands that \<^verbatim>\<open>notes/redis.md\<close> lists as supported, group by group in its order, each with
  the type that \<^verbatim>\<open>nc_message.h\<close> names after it, and the connection commands, which the notes
  list as not supported but which the proxy answers itself.
\<close>

definition redis_keys_commands :: "(bytes \<times> msg_type) list" where
  "redis_keys_commands = [(''del'', MSG_REQ_REDIS_DEL), (''dump'', MSG_REQ_REDIS_DUMP), (''exists'', MSG_REQ_REDIS_EXISTS),
    (''expire'', MSG_REQ_REDIS_EXPIRE), (''expireat'', MSG_REQ_REDIS_EXPIREAT), (''persist'', MSG_REQ_REDIS_PERSIST),
    (''pexpire'', MSG_REQ_REDIS_PEXPIRE), (''pexpireat'', MSG_REQ_REDIS_PEXPIREAT), (''pttl'', MSG_REQ_REDIS_PTTL),
    (''restore'', MSG_REQ_REDIS_RESTORE), (''sort'', MSG_REQ_REDIS_SORT), (''ttl'', MSG_REQ_REDIS_TTL),
    (''type'', MSG_REQ_REDIS_TYPE)]"

definition redis_strings_commands :: "(bytes \<times> msg_type) list" where
  "redis_strings_commands = [(''append'', MSG_REQ_REDIS_APPEND), (''bitcount'', MSG_REQ_REDIS_BITCOUNT), (''bitpos'', MSG_REQ_REDIS_BITPOS),
    (''decr'', MSG_REQ_REDIS_DECR), (''decrby'', MSG_REQ_REDIS_DECRBY), (''get'', MSG_REQ_REDIS_GET),
    (''getbit'', MSG_REQ_REDIS_GETBIT), (''getrange'', MSG_REQ_REDIS_GETRANGE), (''getset'', MSG_REQ_REDIS_GETSET),
    (''incr'', MSG_REQ_REDIS_INCR), (''incrby'', MSG_REQ_REDIS_INCRBY), (''incrbyfloat'', MSG_REQ_REDIS_INCRBYFLOAT),
    (''mget'', MSG_REQ_REDIS_MGET), (''mset'', MSG_REQ_REDIS_MSET), (''psetex'', MSG_REQ_REDIS_PSETEX),
    (''set'', MSG_REQ_REDIS_SET), (''setbit'', MSG_REQ_REDIS_SETBIT), (''setex'', MSG_REQ_REDIS_SETEX),
    (''setnx'', MSG_REQ_REDIS_SETNX), (''setrange'', MSG_REQ_REDIS_SETRANGE), (''strlen'', MSG_REQ_REDIS_STRLEN)]"

definition redis_hashes_commands :: "(bytes \<times> msg_type) list" where
  "redis_hashes_commands = [(''hdel'', MSG_REQ_REDIS_HDEL), (''hexists'', MSG_REQ_REDIS_HEXISTS), (''hget'', MSG_REQ_REDIS_HGET),
    (''hgetall'', MSG_REQ_REDIS_HGETALL), (''hincrby'', MSG_REQ_REDIS_HINCRBY),
    (''hincrbyfloat'', MSG_REQ_REDIS_HINCRBYFLOAT), (''hkeys'', MSG_REQ_REDIS_HKEYS), (''hlen'', MSG_REQ_REDIS_HLEN),
    (''hmget'', MSG_REQ_REDIS_HMGET), (''hmset'', MSG_REQ_REDIS_HMSET), (''hset'', MSG_REQ_REDIS_HSET),
    (''hsetnx'', MSG_REQ_REDIS_HSETNX), (''hvals'', MSG_REQ_REDIS_HVALS), (''hscan'', MSG_REQ_REDIS_HSCAN)]"

definition redis_lists_commands :: "(bytes \<times> msg_type) list" where
  "redis_lists_commands = [(''lindex'', MSG_REQ_REDIS_LINDEX), (''linsert'', MSG_REQ_REDIS_LINSERT), (''llen'', MSG_REQ_REDIS_LLEN),
    (''lpop'', MSG_REQ_REDIS_LPOP), (''lpush'', MSG_REQ_REDIS_LPUSH), (''lpushx'', MSG_REQ_REDIS_LPUSHX),
    (''lrange'', MSG_REQ_REDIS_LRANGE), (''lrem'', MSG_REQ_REDIS_LREM), (''lset'', MSG_REQ_REDIS_LSET),
    (''ltrim'', MSG_REQ_REDIS_LTRIM), (''rpop'', MSG_REQ_REDIS_RPOP), (''rpoplpush'', MSG_REQ_REDIS_RPOPLPUSH),
    (''rpush'', MSG_REQ_REDIS_RPUSH), (''rpushx'', MSG_REQ_REDIS_RPUSHX)]"

definition redis_sets_commands :: "(bytes \<times> msg_type) list" where
  "redis_sets_commands = [(''sadd'', MSG_REQ_REDIS_SADD), (''scard'', MSG_REQ_REDIS_SCARD), (''sdiff'', MSG_REQ_REDIS_SDIFF),
    (''sdiffstore'', MSG_REQ_REDIS_SDIFFSTORE), (''sinter'', MSG_REQ_REDIS_SINTER),
    (''sinterstore'', MSG_REQ_REDIS_SINTERSTORE), (''sismember'', MSG_REQ_REDIS_SISMEMBER),
    (''smembers'', MSG_REQ_REDIS_SMEMBERS), (''smove'', MSG_REQ_REDIS_SMOVE), (''spop'', MSG_REQ_REDIS_SPOP),
    (''srandmember'', MSG_REQ_REDIS_SRANDMEMBER), (''srem'', MSG_REQ_REDIS_SREM), (''sunion'', MSG_REQ_REDIS_SUNION),
    (''sunionstore'', MSG_REQ_REDIS_SUNIONSTORE), (''sscan'', MSG_REQ_REDIS_SSCAN)]"

definition redis_sorted_sets_commands :: "(bytes \<times> msg_type) list" where
  "redis_sorted_sets_commands = [(''zadd'', MSG_REQ_REDIS_ZADD), (''zcard'', MSG_REQ_REDIS_ZCARD), (''zcount'', MSG_REQ_REDIS_ZCOUNT),
    (''zincrby'', MSG_REQ_REDIS_ZINCRBY), (''zinterstore'', MSG_REQ_REDIS_ZINTERSTORE),
    (''zlexcount'', MSG_REQ_REDIS_ZLEXCOUNT), (''zrange'', MSG_REQ_REDIS_ZRANGE),
    (''zrangebylex'', MSG_REQ_REDIS_ZRANGEBYLEX), (''zrangebyscore'', MSG_REQ_REDIS_ZRANGEBYSCORE),
    (''zrank'', MSG_REQ_REDIS_ZRANK), (''zrem'', MSG_REQ_REDIS_ZREM),
    (''zremrangebylex'', MSG_REQ_REDIS_ZREMRANGEBYLEX), (''zremrangebyrank'', MSG_REQ_REDIS_ZREMRANGEBYRANK),
    (''zremrangebyscore'', MSG_REQ_REDIS_ZREMRANGEBYSCORE), (''zrevrange'', MSG_REQ_REDIS_ZREVRANGE),
    (''zrevrangebyscore'', MSG_REQ_REDIS_ZREVRANGEBYSCORE), (''zrevrank'', MSG_REQ_REDIS_ZREVRANK),
    (''zscore'', MSG_REQ_REDIS_ZSCORE), (''zunionstore'', MSG_REQ_REDIS_ZUNIONSTORE), (''zscan'', MSG_REQ_REDIS_ZSCAN)]"

definition redis_hyperloglog_commands :: "(bytes \<times> msg_type) list" where
  "redis_hyperloglog_commands = [(''pfadd'', MSG_REQ_REDIS_PFADD), (''pfcount'', MSG_REQ_REDIS_PFCOUNT), (''pfmerge'', MSG_REQ_REDIS_PFMERGE)]"

definition redis_scripting_commands :: "(bytes \<times> msg_type) list" where
  "redis_scripting_commands = [(''eval'', MSG_REQ_REDIS_EVAL), (''evalsha'', MSG_REQ_REDIS_EVALSHA)]"

definition redis_connection_commands :: "(bytes \<times> msg_type) list" where
  "redis_connection_commands = [(''auth'', MSG_REQ_REDIS_AUTH), (''ping'', MSG_REQ_REDIS_PING), (''quit'', MSG_REQ_REDIS_QUIT)]"

definition redis_commands :: "(bytes \<times> msg_type) list" where
  "redis_commands = redis_keys_commands @ redis_strings_commands @ redis_hashes_commands @ redis_lists_commands @
     redis_sets_commands @ redis_sorted_sets_commands @ redis_hyperloglog_commands @ redis_scripting_commands @ redis_connection_commands"

lemmas redis_command_defs = redis_commands_def redis_keys_commands_def redis_strings_commands_def redis_hashes_commands_def redis_lists_commands_def
  redis_sets_commands_def redis_sorted_sets_commands_def redis_hyperloglog_commands_def redis_scripting_commands_def redis_connection_commands_def

text \<open>The single-word commands that the notes list as not supported, without those three.\<close>

definition redis_refused :: "bytes list" where
  "redis_refused = [''keys'', ''migrate'', ''move'', ''object'', ''randomkey'', ''rename'', ''renamenx'', ''scan'', ''bitop'',
    ''msetnx'', ''blpop'', ''brpop'', ''brpoplpush'', ''psubscribe'', ''publish'', ''punsubscribe'', ''subscribe'',
    ''unsubscribe'', ''discard'', ''exec'', ''multi'', ''unwatch'', ''watch'', ''echo'', ''select'', ''bgrewriteaof'',
    ''bgsave'', ''dbsize'', ''flushall'', ''flushdb'', ''info'', ''lastsave'', ''monitor'', ''save'', ''shutdown'',
    ''slaveof'', ''slowlog'', ''sync'', ''time'']"

text \<open>The names of the nested \<open>switch\<close>, by its cases.\<close>

definition redis_cmd_tables :: "(nat \<times> (bytes \<times> msg_type) list) list" where
  "redis_cmd_tables = [(3, redis_cmd3), (4, redis_cmd4), (5, redis_cmd5), (6, redis_cmd6), (7, redis_cmd7),
     (8, redis_cmd8), (9, redis_cmd9), (10, redis_cmd10), (11, redis_cmd11), (12, redis_cmd12), (13, redis_cmd13),
     (14, redis_cmd14), (15, redis_cmd15), (16, redis_cmd16)]"

definition redis_cmd_all :: "(bytes \<times> msg_type) list" where
  "redis_cmd_all = concat (map snd redis_cmd_tables)"

lemmas redis_cmd_defs = redis_cmd3_def redis_cmd4_def redis_cmd5_def redis_cmd6_def redis_cmd7_def
  redis_cmd8_def redis_cmd9_def redis_cmd10_def redis_cmd11_def redis_cmd12_def redis_cmd13_def
  redis_cmd14_def redis_cmd15_def redis_cmd16_def

definition lower_letters :: bytes where
  "lower_letters = ''abcdefghijklmnopqrstuvwxyz''"

lemma unat_u8_of [cchar_simps]: "unat (u8_of c) = of_char c"
proof -
  have "u8_of c = of_nat (of_char c)" by (simp add: u8_of_def of_nat_of_char_word)
  then show ?thesis using of_char_less_256 [of c] by (simp add: unsigned_of_nat take_bit_nat_eq_self)
qed

lemma u8_of_nat: "u8_of c = of_nat (of_char c)"
  by (simp add: u8_of_def of_nat_of_char_word)

lemma u8_of_inject [simp]: "u8_of x = u8_of y \<longleftrightarrow> x = y"
  by (metis unat_u8_of of_char_eq_iff)

lemma to_lower_iff:
  assumes "(of_char C :: nat) + 32 = of_char c" "65 \<le> (of_char C :: nat)" "(of_char C :: nat) \<le> 90"
  shows "to_lower x = c \<longleftrightarrow> x = c \<or> x = C"
proof (cases "65 \<le> (of_char x :: nat) \<and> (of_char x :: nat) \<le> 90")
  case True
  then have "x \<noteq> c" using assms by auto
  moreover have "to_lower x = c \<longleftrightarrow> (of_char x :: nat) + 32 = of_char c"
    using True by (auto simp: to_lower_def dest: arg_cong [where f = of_char])
  ultimately show ?thesis using assms(1) by (metis add_right_cancel of_char_eq_iff)
next
  case False
  then show ?thesis using assms by (auto simp: to_lower_def)
qed

lemma letter_cases:
  "list_all (\<lambda>c. u8_of c XOR 0x20 = of_nat ((of_char c :: nat) - 32) \<and>
     (of_char (char_of ((of_char c :: nat) - 32) :: char) :: nat) + 32 = of_char c \<and>
     65 \<le> (of_char (char_of ((of_char c :: nat) - 32) :: char) :: nat) \<and>
     (of_char (char_of ((of_char c :: nat) - 32) :: char) :: nat) \<le> 90) lower_letters"
  by (simp add: lower_letters_def u8_of_def)

lemma icmp_letter:
  assumes "c \<in> set lower_letters"
  shows "x = c \<or> u8_of x = u8_of c XOR 0x20 \<longleftrightarrow> to_lower x = c"
proof -
  define C where "C = (char_of ((of_char c :: nat) - 32) :: char)"
  have "u8_of c XOR 0x20 = of_nat ((of_char c :: nat) - 32)" "(of_char C :: nat) + 32 = of_char c" "65 \<le> (of_char C :: nat)"
    "(of_char C :: nat) \<le> 90"
    using letter_cases assms by (simp_all add: list_all_iff C_def)
  moreover from this have "u8_of c XOR 0x20 = u8_of C" by (metis add_diff_cancel_right' u8_of_nat)
  ultimately show ?thesis using to_lower_iff [of C c x] by (metis u8_of_inject)
qed

lemma stricmp_lower:
  assumes "set s \<subseteq> set lower_letters" "length s = length w"
  shows "stricmp (w @ rest) s \<longleftrightarrow> map to_lower w = s"
proof -
  have "list_all2 (\<lambda>x c. x = c \<or> u8_of x = u8_of c XOR 0x20) w s \<longleftrightarrow> list_all2 (\<lambda>x c. to_lower x = c) w s"
    using assms(1) by (intro list.rel_cong refl) (auto simp: icmp_letter subset_iff)
  also have "\<dots> \<longleftrightarrow> map to_lower w = s"
    by (simp add: list_all2_map1 [of "(=)", symmetric] list.rel_eq)
  finally show ?thesis using assms(2) by (simp add: stricmp_def)
qed

lemma first_icmp_map_of:
  assumes "\<forall>(s, t) \<in> set T. set s \<subseteq> set lower_letters \<and> length s = length w"
  shows "first_icmp T (w @ rest) = (case map_of T (map to_lower w) of Some t \<Rightarrow> t | None \<Rightarrow> MSG_UNKNOWN)"
  using assms
proof (induction T)
  case (Cons a T)
  then show ?case by (cases a) (auto simp: stricmp_lower)
qed simp

text \<open>Every entry is a lower-case name of the length of its case.\<close>

definition cmd_names :: "nat \<Rightarrow> (bytes \<times> msg_type) list \<Rightarrow> bool" where
  "cmd_names n T \<longleftrightarrow> list_all (\<lambda>(s, t). list_all (\<lambda>c. c \<in> set lower_letters) s \<and> length s = n) T"

lemma redis_cmd_names:
  "cmd_names 3 redis_cmd3" "cmd_names 4 redis_cmd4" "cmd_names 5 redis_cmd5" "cmd_names 6 redis_cmd6"
  "cmd_names 7 redis_cmd7" "cmd_names 8 redis_cmd8" "cmd_names 9 redis_cmd9" "cmd_names 10 redis_cmd10"
  "cmd_names 11 redis_cmd11" "cmd_names 12 redis_cmd12" "cmd_names 13 redis_cmd13"
  "cmd_names 14 redis_cmd14" "cmd_names 15 redis_cmd15" "cmd_names 16 redis_cmd16"
  by (simp_all add: cmd_names_def redis_cmd_defs lower_letters_def)

lemma cmd_names_mem:
  "cmd_names n T \<Longrightarrow> (s, t) \<in> set T \<Longrightarrow> set s \<subseteq> set lower_letters \<and> length s = n"
  by (auto simp: cmd_names_def list_all_iff)

lemma cmd_names_lookup:
  assumes "cmd_names n T"
  shows "length w = n \<Longrightarrow> first_icmp T (w @ rest) = (case map_of T (map to_lower w) of Some t \<Rightarrow> t | None \<Rightarrow> MSG_UNKNOWN)"
    and "length w \<noteq> n \<Longrightarrow> map_of T (map to_lower w) = None"
proof -
  show "first_icmp T (w @ rest) = (case map_of T (map to_lower w) of Some t \<Rightarrow> t | None \<Rightarrow> MSG_UNKNOWN)"
    if "length w = n"
    using cmd_names_mem [OF assms] that by (intro first_icmp_map_of) auto
  show "map_of T (map to_lower w) = None" if "length w \<noteq> n"
    using cmd_names_mem [OF assms] that by (fastforce simp: map_of_eq_None_iff)
qed

lemma first_icmp_unknown: "\<forall>(s, t) \<in> set T. \<not> stricmp m s \<Longrightarrow> first_icmp T m = MSG_UNKNOWN"
  by (induction T) auto

lemma first_icmp_append:
  "first_icmp (S @ T) m = (if \<exists>(s, t) \<in> set S. stricmp m s then first_icmp S m else first_icmp T m)"
  by (induction S) auto

text \<open>The fall-through into the names of length 11 is harmless: the byte after the name is a CR.\<close>

lemma redis_cmd_fall_through:
  assumes "length w = 10"
  shows "first_icmp (redis_cmd10 @ redis_cmd11) (w @ CR # rest) = first_icmp redis_cmd10 (w @ CR # rest)"
proof -
  have "\<not> stricmp ((w @ [CR]) @ rest) s" if "(s, t) \<in> set redis_cmd11" for s t
  proof -
    have s: "set s \<subseteq> set lower_letters" "length s = 11"
      using cmd_names_mem [OF redis_cmd_names(9) that] by auto
    then have "last s \<in> set lower_letters" by (cases s) auto
    then have "last s \<noteq> to_lower CR" by (auto simp: lower_letters_def to_lower_def CR_def)
    then show ?thesis using stricmp_lower [OF s(1), of "w @ [CR]" rest] s(2) assms by auto
  qed
  then have "first_icmp redis_cmd11 (w @ CR # rest) = MSG_UNKNOWN" by (intro first_icmp_unknown) auto
  then show ?thesis
    unfolding first_icmp_append using first_icmp_unknown [of redis_cmd10 "w @ CR # rest"] by (auto split: prod.splits)
qed

lemmas redis_cmd_other = redis_cmd_names [THEN cmd_names_lookup(2)]
lemmas redis_cmd_same = redis_cmd_names [THEN cmd_names_lookup(1)]

lemma redis_cmd_tables_names: "list_all (\<lambda>(n, T). cmd_names n T \<and> distinct (map fst T)) redis_cmd_tables"
proof -
  have "list_all (\<lambda>(n, T). distinct (map fst T)) redis_cmd_tables"
    by (simp add: redis_cmd_tables_def redis_cmd_defs)
  moreover have "list_all (\<lambda>(n, T). cmd_names n T) redis_cmd_tables"
    by (simp add: redis_cmd_tables_def redis_cmd_names)
  ultimately show ?thesis by (auto simp: list_all_iff)
qed

lemma redis_cmd_tables_case: "(n, T) \<in> set redis_cmd_tables \<Longrightarrow> set T \<subseteq> set (redis_cmd_table n)"
  by (auto simp: redis_cmd_tables_def redis_cmd_table_def)

lemma redis_cmd_all_table:
  "(n, t) \<in> set redis_cmd_all \<longleftrightarrow> (n, t) \<in> set (redis_cmd_table (length n))"
proof
  assume "(n, t) \<in> set redis_cmd_all"
  then obtain k T where T: "(k, T) \<in> set redis_cmd_tables" "(n, t) \<in> set T" by (auto simp: redis_cmd_all_def)
  moreover from this have "length n = k"
    using redis_cmd_tables_names cmd_names_mem [of k T n t] by (auto simp: list_all_iff)
  ultimately show "(n, t) \<in> set (redis_cmd_table (length n))" using redis_cmd_tables_case by blast
qed (auto simp: redis_cmd_all_def redis_cmd_tables_def redis_cmd_table_def split: if_splits)

lemma distinct_tables:
  assumes "list_all (\<lambda>(n, T). cmd_names n T \<and> distinct (map fst T)) Ts" "distinct (map fst Ts)"
  shows "distinct (map fst (concat (map snd Ts)))"
  using assms
proof (induction Ts)
  case (Cons x Ts)
  obtain n T where x: "x = (n, T)" by (cases x)
  have "length s = n" if "(s, t) \<in> set T" for s t using cmd_names_mem [OF _ that] Cons.prems(1) x by auto
  moreover have "length s \<noteq> n" if "(s, t) \<in> set (concat (map snd Ts))" for s t
  proof -
    obtain m U where U: "(m, U) \<in> set Ts" "(s, t) \<in> set U" using \<open>(s, t) \<in> set (concat (map snd Ts))\<close> by auto
    then have "length s = m" using Cons.prems(1) cmd_names_mem [OF _ U(2)] by (auto simp: list_all_iff)
    moreover have "m \<noteq> n" using Cons.prems(2) U(1) x by force
    ultimately show ?thesis by simp
  qed
  ultimately have "fst ` set T \<inter> fst ` set (concat (map snd Ts)) = {}" by fastforce
  then show ?case using Cons x by (simp add: image_Union)
qed simp

lemma redis_cmd_all_distinct: "distinct (map fst redis_cmd_all)"
  unfolding redis_cmd_all_def by (rule distinct_tables [OF redis_cmd_tables_names]) (simp add: redis_cmd_tables_def)

lemma redis_commands_names: "distinct (map fst redis_commands)" "length redis_commands = 105"
  by (simp_all add: redis_command_defs)

text \<open>The documented names and those of the \<open>switch\<close> are the same.\<close>

lemma redis_commands_same: "map_of redis_commands = map_of redis_cmd_all"
proof -
  have "list_all (\<lambda>(n, t). (n, t) \<in> set (redis_cmd_table (length n))) redis_commands"
    by (simp add: redis_command_defs redis_cmd_table_def redis_cmd_defs)
  then have sub: "set redis_commands \<subseteq> set redis_cmd_all" by (auto simp: list_all_iff redis_cmd_all_table)
  have "length redis_cmd_all = 105" by (simp add: redis_cmd_all_def redis_cmd_tables_def redis_cmd_defs)
  then have "card (set redis_commands) = card (set redis_cmd_all)"
    using redis_commands_names redis_cmd_all_distinct by (simp add: distinct_card distinct_map)
  then have "set redis_commands = set redis_cmd_all" using sub by (intro card_subset_eq) simp_all
  then show ?thesis using map_of_inject_set [OF redis_commands_names(1) redis_cmd_all_distinct] by blast
qed

lemma redis_cmd_type_all:
  "redis_cmd_type (length w) (w @ CR # rest)
    = (case map_of redis_cmd_all (map to_lower w) of Some t \<Rightarrow> t | None \<Rightarrow> MSG_UNKNOWN)"
proof (cases "length w \<in> {3, 4, 5, 6, 7, 8, 9, 10, 11, 12, 13, 14, 15, 16}")
  case True
  then show ?thesis
    by (elim insertE emptyE)
      (simp_all add: redis_cmd_type_def redis_cmd_table_def redis_cmd_all_def redis_cmd_tables_def map_add_def
        redis_cmd_other redis_cmd_same redis_cmd_fall_through split: option.split)
next
  case False
  then show ?thesis
    by (simp add: redis_cmd_type_def redis_cmd_table_def redis_cmd_all_def redis_cmd_tables_def map_add_def redis_cmd_other)
qed

lemma redis_cmd_type_lookup:
  "redis_cmd_type (length w) (w @ CR # rest)
    = (case map_of redis_commands (map to_lower w) of Some t \<Rightarrow> t | None \<Rightarrow> MSG_UNKNOWN)"
  unfolding redis_commands_same by (rule redis_cmd_type_all)

lemma redis_refused_unknown:
  "list_all (\<lambda>n. map_of redis_commands n = None \<and> map to_lower n = n) redis_refused"
proof -
  have "list_all (\<lambda>n. n \<notin> set (map fst (redis_cmd_table (length n)))) redis_refused"
    by (simp add: redis_refused_def redis_cmd_table_def redis_cmd_defs)
  then have "list_all (\<lambda>n. n \<notin> set (map fst redis_cmd_all)) redis_refused"
    by (force simp: list_all_iff redis_cmd_all_table)
  moreover have "list_all (\<lambda>n. map to_lower n = n) redis_refused" by code_simp
  ultimately show ?thesis by (auto simp: list_all_iff map_of_eq_None_iff redis_commands_same)
qed

text \<open>
  C24: command recognition agrees with the documentation, exactly and case-insensitively.
  For a name of any length followed by a CR, the nested comparisons give the type that the
  table of the 105 documented commands assigns to the lower-case name, and \<open>MSG_UNKNOWN\<close> if
  it is not in the table; in particular each command documented as not supported is
  refused.  The missing \<open>break\<close> after the names of length 10 has no effect.
\<close>
theorem redis_command_recognition:
  "redis_cmd_type (length w) (w @ CR # rest)
      = (case map_of redis_commands (map to_lower w) of Some t \<Rightarrow> t | None \<Rightarrow> MSG_UNKNOWN) \<and>
   list_all (\<lambda>n. redis_cmd_type (length n) (n @ CR # rest) = MSG_UNKNOWN) redis_refused"
  using redis_refused_unknown by (auto simp: redis_cmd_type_lookup list_all_iff)

definition redis_classes :: "msg_type \<Rightarrow> bool list" where
  "redis_classes t = (let r = (fresh_msg ())\<lparr>mtype := t\<rparr> in
     [redis_argz r, redis_arg0 r, redis_arg1 r, redis_arg2 r, redis_arg3 r, redis_argn r, redis_argx r,
      redis_argkvx r, redis_argeval r])"

lemmas redis_class_defs = redis_argz_def redis_arg0_def redis_arg1_def redis_arg2_def redis_arg3_def
  redis_argn_def redis_argx_def redis_argkvx_def redis_argeval_def

lemma redis_classes_one: "list_all (\<lambda>(s, t). length (filter id (redis_classes t)) = 1) redis_commands"
  by (simp add: redis_command_defs redis_classes_def redis_class_defs)

text \<open>
  C25: the argument classes partition the supported commands: the 105 names are distinct and
  every command belongs to exactly one of the nine classes, so the final \<open>goto error\<close> of the
  state after a key is never taken for lack of a class.
\<close>
theorem redis_argument_classes:
  "list_all (\<lambda>(s, t). length (filter id (redis_classes t)) = 1) redis_commands \<and>
   length redis_commands = 105 \<and> distinct (map fst redis_commands)"
  using redis_classes_one redis_commands_names by simp

end
