(* ===== verification/Redis_Request.thy ===== *)
theory Redis_Request
  imports Redis_Command Wire_Format
begin

text \<open>
  \<open>redis_parse_req\<close> of \<^verbatim>\<open>proto/nc_redis.c\<close>: one definition per state of its \<open>switch\<close>.  The
  argument \<open>sz\<close> is \<open>mbuf_data_size()\<close>, \<open>mem n\<close> tells whether the push of the \<open>n\<close>th key finds
  memory, \<open>bid\<close> is the buffer being parsed and \<open>d\<close> its bytes up to \<open>last\<close>.
\<close>

subsection \<open>The states\<close>

datatype redis_req_state =
    SW_START | SW_NARG | SW_NARG_LF | SW_REQ_TYPE_LEN | SW_REQ_TYPE_LEN_LF | SW_REQ_TYPE | SW_REQ_TYPE_LF
  | SW_KEY_LEN | SW_KEY_LEN_LF | SW_KEY | SW_KEY_LF
  | SW_ARG1_LEN | SW_ARG1_LEN_LF | SW_ARG1 | SW_ARG1_LF
  | SW_ARG2_LEN | SW_ARG2_LEN_LF | SW_ARG2 | SW_ARG2_LF
  | SW_ARG3_LEN | SW_ARG3_LEN_LF | SW_ARG3 | SW_ARG3_LF
  | SW_ARGN_LEN | SW_ARGN_LEN_LF | SW_ARGN | SW_ARGN_LF

type_synonym redis_req = "redis_req_state msg"

definition redis_req_narg :: "nat \<Rightarrow> char \<Rightarrow> redis_req \<Rightarrow> nat \<Rightarrow> redis_req outcome" where
  "redis_req_narg bid ch r p =
     (if token r = None then
        if ch \<noteq> CHR ''*'' then Error r
        else Move (r\<lparr>token := Some p, narg_start := Some (bid, p), rnarg := 0, state := SW_NARG\<rparr>) (p + 1)
      else if isdigit ch then Move (r\<lparr>rnarg := dec_digit (rnarg r) ch\<rparr>) (p + 1)
      else if ch = CR then
        if rnarg r = 0 then Error r
        else Move (r\<lparr>narg := rnarg r, narg_end := Some (bid, p), token := None, state := SW_NARG_LF\<rparr>) (p + 1)
      else Error r)"

text \<open>The states that expect one LF.\<close>

definition lf_step :: "'st \<Rightarrow> char \<Rightarrow> 'st msg \<Rightarrow> nat \<Rightarrow> 'st msg outcome" where
  "lf_step nxt ch r p = (if ch = LF then Move (r\<lparr>state := nxt\<rparr>) (p + 1) else Error r)"

text \<open>The states that read \<open>$<length> CR\<close>; they differ in what they refuse at the CR.\<close>

definition len_step :: "('st msg \<Rightarrow> nat \<Rightarrow> bool) \<Rightarrow> 'st \<Rightarrow> char \<Rightarrow> 'st msg \<Rightarrow> nat \<Rightarrow> 'st msg outcome" where
  "len_step bad nxt ch r p =
     (if token r = None then
        if ch \<noteq> CHR ''$'' then Error r else Move (r\<lparr>token := Some p, rlen := 0\<rparr>) (p + 1)
      else if isdigit ch then Move (r\<lparr>rlen := dec_digit (rlen r) ch\<rparr>) (p + 1)
      else if ch = CR then
        if bad r p then Error r
        else Move (r\<lparr>rnarg := rnarg r - 1, token := None, state := nxt\<rparr>) (p + 1)
      else Error r)"

text \<open>The states that skip the \<open>rlen\<close> bytes of an argument without remembering them.\<close>

definition skip_step :: "'st \<Rightarrow> bytes \<Rightarrow> 'st msg \<Rightarrow> nat \<Rightarrow> 'st msg outcome" where
  "skip_step nxt d r p =
     (let m = p + unat (rlen r) in
      if length d \<le> m then Move (r\<lparr>rlen := rlen r - of_nat (length d - p)\<rparr>) (length d)
      else if d ! m \<noteq> CR then Error r
      else Move (r\<lparr>rlen := 0, state := nxt\<rparr>) (m + 1))"

definition redis_req_narg_lf :: "char \<Rightarrow> redis_req \<Rightarrow> nat \<Rightarrow> redis_req outcome" where
  "redis_req_narg_lf = lf_step SW_REQ_TYPE_LEN"

definition redis_req_type_len :: "char \<Rightarrow> redis_req \<Rightarrow> nat \<Rightarrow> redis_req outcome" where
  "redis_req_type_len = len_step (\<lambda>r p. rlen r = 0 \<or> rnarg r = 0) SW_REQ_TYPE_LEN_LF"

definition redis_req_type_len_lf :: "char \<Rightarrow> redis_req \<Rightarrow> nat \<Rightarrow> redis_req outcome" where
  "redis_req_type_len_lf = lf_step SW_REQ_TYPE"

definition redis_req_type :: "bytes \<Rightarrow> redis_req \<Rightarrow> nat \<Rightarrow> redis_req outcome" where
  "redis_req_type d r p =
     (let t = (case token r of None \<Rightarrow> p | Some t \<Rightarrow> t);
          m = t + unat (rlen r) in
      if length d \<le> m then Move (r\<lparr>token := Some t\<rparr>) (length d)
      else if d ! m \<noteq> CR then Error (r\<lparr>token := Some t\<rparr>)
      else
        let ty = redis_cmd_type (m - t) (drop t d);
            r' = r\<lparr>rlen := 0, token := None, mtype := ty,
                   noforward := noforward r \<or> ty \<in> {MSG_REQ_REDIS_PING, MSG_REQ_REDIS_AUTH},
                   quit := quit r \<or> ty = MSG_REQ_REDIS_QUIT\<rparr> in
        if ty = MSG_UNKNOWN then Error r' else Move (r'\<lparr>state := SW_REQ_TYPE_LF\<rparr>) (m + 1))"

definition redis_req_type_lf :: "char \<Rightarrow> redis_req \<Rightarrow> nat \<Rightarrow> redis_req outcome" where
  "redis_req_type_lf ch r p =
     (if ch \<noteq> LF then Error r
      else if redis_argz r then Done r p
      else if narg r = 1 then Error r
      else if redis_argeval r then Move (r\<lparr>state := SW_ARG1_LEN\<rparr>) (p + 1)
      else Move (r\<lparr>state := SW_KEY_LEN\<rparr>) (p + 1))"

definition redis_req_key_len :: "nat \<Rightarrow> char \<Rightarrow> redis_req \<Rightarrow> nat \<Rightarrow> redis_req outcome" where
  "redis_req_key_len sz = len_step (\<lambda>r p. sz \<le> unat (rlen r) \<or> rnarg r = 0) SW_KEY_LEN_LF"

definition redis_req_key_len_lf :: "char \<Rightarrow> redis_req \<Rightarrow> nat \<Rightarrow> redis_req outcome" where
  "redis_req_key_len_lf = lf_step SW_KEY"

definition redis_req_key :: "(nat \<Rightarrow> bool) \<Rightarrow> nat \<Rightarrow> bytes \<Rightarrow> redis_req \<Rightarrow> nat \<Rightarrow> redis_req outcome" where
  "redis_req_key mem bid d r p =
     (let t = (case token r of None \<Rightarrow> p | Some t \<Rightarrow> t);
          m = t + unat (rlen r) in
      if length d \<le> m then Move (r\<lparr>token := Some t\<rparr>) (length d)
      else if d ! m \<noteq> CR then Error (r\<lparr>token := Some t\<rparr>)
      else
        let r' = r\<lparr>rlen := 0, token := None\<rparr> in
        if mem (length (keys r))
        then Move (r'\<lparr>keys := keys r @ [\<lparr>kp_buf = bid, kp_start = t, kp_end = m\<rparr>], state := SW_KEY_LF\<rparr>) (m + 1)
        else Enomem r')"

definition redis_req_key_lf :: "char \<Rightarrow> redis_req \<Rightarrow> nat \<Rightarrow> redis_req outcome" where
  "redis_req_key_lf ch r p =
     (if ch \<noteq> LF then Error r
      else if redis_arg0 r then if rnarg r \<noteq> 0 then Error r else Done r p
      else if redis_arg1 r then if rnarg r \<noteq> 1 then Error r else Move (r\<lparr>state := SW_ARG1_LEN\<rparr>) (p + 1)
      else if redis_arg2 r then if rnarg r \<noteq> 2 then Error r else Move (r\<lparr>state := SW_ARG1_LEN\<rparr>) (p + 1)
      else if redis_arg3 r then if rnarg r \<noteq> 3 then Error r else Move (r\<lparr>state := SW_ARG1_LEN\<rparr>) (p + 1)
      else if redis_argn r then if rnarg r = 0 then Done r p else Move (r\<lparr>state := SW_ARG1_LEN\<rparr>) (p + 1)
      else if redis_argx r then if rnarg r = 0 then Done r p else Move (r\<lparr>state := SW_KEY_LEN\<rparr>) (p + 1)
      else if redis_argkvx r then
        if narg r mod 2 = 0 then Error r else Move (r\<lparr>state := SW_ARG1_LEN\<rparr>) (p + 1)
      else if redis_argeval r then if rnarg r = 0 then Done r p else Move (r\<lparr>state := SW_ARGN_LEN\<rparr>) (p + 1)
      else Error r)"

text \<open>The guard \<open>(p - r->token) <= 1 || r->rnarg == 0\<close> of the argument lengths.\<close>

definition bad_arg_len :: "'st msg \<Rightarrow> nat \<Rightarrow> bool" where
  "bad_arg_len r p \<longleftrightarrow> p - the (token r) \<le> 1 \<or> rnarg r = 0"

definition redis_req_arg1_len :: "char \<Rightarrow> redis_req \<Rightarrow> nat \<Rightarrow> redis_req outcome" where
  "redis_req_arg1_len = len_step bad_arg_len SW_ARG1_LEN_LF"

definition redis_req_arg1_len_lf :: "char \<Rightarrow> redis_req \<Rightarrow> nat \<Rightarrow> redis_req outcome" where
  "redis_req_arg1_len_lf = lf_step SW_ARG1"

definition redis_req_arg1 :: "bytes \<Rightarrow> redis_req \<Rightarrow> nat \<Rightarrow> redis_req outcome" where
  "redis_req_arg1 = skip_step SW_ARG1_LF"

definition redis_req_arg1_lf :: "char \<Rightarrow> redis_req \<Rightarrow> nat \<Rightarrow> redis_req outcome" where
  "redis_req_arg1_lf ch r p =
     (if ch \<noteq> LF then Error r
      else if redis_arg1 r then if rnarg r \<noteq> 0 then Error r else Done r p
      else if redis_arg2 r then if rnarg r \<noteq> 1 then Error r else Move (r\<lparr>state := SW_ARG2_LEN\<rparr>) (p + 1)
      else if redis_arg3 r then if rnarg r \<noteq> 2 then Error r else Move (r\<lparr>state := SW_ARG2_LEN\<rparr>) (p + 1)
      else if redis_argn r then if rnarg r = 0 then Done r p else Move (r\<lparr>state := SW_ARGN_LEN\<rparr>) (p + 1)
      else if redis_argeval r then if rnarg r < 2 then Error r else Move (r\<lparr>state := SW_ARG2_LEN\<rparr>) (p + 1)
      else if redis_argkvx r then if rnarg r = 0 then Done r p else Move (r\<lparr>state := SW_KEY_LEN\<rparr>) (p + 1)
      else Error r)"

definition redis_req_arg2_len :: "char \<Rightarrow> redis_req \<Rightarrow> nat \<Rightarrow> redis_req outcome" where
  "redis_req_arg2_len = len_step bad_arg_len SW_ARG2_LEN_LF"

definition redis_req_arg2_len_lf :: "char \<Rightarrow> redis_req \<Rightarrow> nat \<Rightarrow> redis_req outcome" where
  "redis_req_arg2_len_lf = lf_step SW_ARG2"

text \<open>The number of keys of an \<open>EVAL\<close>: every byte must be a digit.\<close>

fun eval_nkey :: "u32 \<Rightarrow> bytes \<Rightarrow> u32 option" where
  "eval_nkey nkey [] = Some nkey"
| "eval_nkey nkey (c # cs) = (if isdigit c then eval_nkey (dec_digit nkey c) cs else None)"

definition redis_req_arg2 :: "bytes \<Rightarrow> redis_req \<Rightarrow> nat \<Rightarrow> redis_req outcome" where
  "redis_req_arg2 d r p =
     (let r0 = (if token r = None \<and> redis_argeval r then r\<lparr>token := Some p\<rparr> else r);
          m = p + unat (rlen r0) in
      if length d \<le> m then Move (r0\<lparr>rlen := rlen r0 - of_nat (length d - p)\<rparr>) (length d)
      else if d ! m \<noteq> CR then Error r0
      else
        let r1 = r0\<lparr>rlen := 0\<rparr> in
        if redis_argeval r1 then
          let t = the (token r1) in
          if m - t < 1 then Error r1
          else case eval_nkey 0 (take (m - t) (drop t d)) of
              None \<Rightarrow> Error r1
            | Some nkey \<Rightarrow> if nkey = 0 then Error r1 else Move (r1\<lparr>token := None, state := SW_ARG2_LF\<rparr>) (m + 1)
        else Move (r1\<lparr>state := SW_ARG2_LF\<rparr>) (m + 1))"

definition redis_req_arg2_lf :: "char \<Rightarrow> redis_req \<Rightarrow> nat \<Rightarrow> redis_req outcome" where
  "redis_req_arg2_lf ch r p =
     (if ch \<noteq> LF then Error r
      else if redis_arg2 r then if rnarg r \<noteq> 0 then Error r else Done r p
      else if redis_arg3 r then if rnarg r \<noteq> 1 then Error r else Move (r\<lparr>state := SW_ARG3_LEN\<rparr>) (p + 1)
      else if redis_argn r then if rnarg r = 0 then Done r p else Move (r\<lparr>state := SW_ARGN_LEN\<rparr>) (p + 1)
      else if redis_argeval r then if rnarg r < 1 then Error r else Move (r\<lparr>state := SW_KEY_LEN\<rparr>) (p + 1)
      else Error r)"

definition redis_req_arg3_len :: "char \<Rightarrow> redis_req \<Rightarrow> nat \<Rightarrow> redis_req outcome" where
  "redis_req_arg3_len = len_step bad_arg_len SW_ARG3_LEN_LF"

definition redis_req_arg3_len_lf :: "char \<Rightarrow> redis_req \<Rightarrow> nat \<Rightarrow> redis_req outcome" where
  "redis_req_arg3_len_lf = lf_step SW_ARG3"

definition redis_req_arg3 :: "bytes \<Rightarrow> redis_req \<Rightarrow> nat \<Rightarrow> redis_req outcome" where
  "redis_req_arg3 = skip_step SW_ARG3_LF"

definition redis_req_arg3_lf :: "char \<Rightarrow> redis_req \<Rightarrow> nat \<Rightarrow> redis_req outcome" where
  "redis_req_arg3_lf ch r p =
     (if ch \<noteq> LF then Error r
      else if redis_arg3 r then if rnarg r \<noteq> 0 then Error r else Done r p
      else if redis_argn r then if rnarg r = 0 then Done r p else Move (r\<lparr>state := SW_ARGN_LEN\<rparr>) (p + 1)
      else Error r)"

definition redis_req_argn_len :: "char \<Rightarrow> redis_req \<Rightarrow> nat \<Rightarrow> redis_req outcome" where
  "redis_req_argn_len = len_step bad_arg_len SW_ARGN_LEN_LF"

definition redis_req_argn_len_lf :: "char \<Rightarrow> redis_req \<Rightarrow> nat \<Rightarrow> redis_req outcome" where
  "redis_req_argn_len_lf = lf_step SW_ARGN"

definition redis_req_argn :: "bytes \<Rightarrow> redis_req \<Rightarrow> nat \<Rightarrow> redis_req outcome" where
  "redis_req_argn = skip_step SW_ARGN_LF"

definition redis_req_argn_lf :: "char \<Rightarrow> redis_req \<Rightarrow> nat \<Rightarrow> redis_req outcome" where
  "redis_req_argn_lf ch r p =
     (if ch \<noteq> LF then Error r
      else if redis_argn r \<or> redis_argeval r then
        if rnarg r = 0 then Done r p else Move (r\<lparr>state := SW_ARGN_LEN\<rparr>) (p + 1)
      else Error r)"

subsection \<open>The parser\<close>

definition redis_req_step ::
  "nat \<Rightarrow> (nat \<Rightarrow> bool) \<Rightarrow> nat \<Rightarrow> bytes \<Rightarrow> redis_req \<Rightarrow> nat \<Rightarrow> redis_req outcome" where
  "redis_req_step sz mem bid d r p =
     (let ch = d ! p in
      case state r of
        SW_START \<Rightarrow> redis_req_narg bid ch r p
      | SW_NARG \<Rightarrow> redis_req_narg bid ch r p
      | SW_NARG_LF \<Rightarrow> redis_req_narg_lf ch r p
      | SW_REQ_TYPE_LEN \<Rightarrow> redis_req_type_len ch r p
      | SW_REQ_TYPE_LEN_LF \<Rightarrow> redis_req_type_len_lf ch r p
      | SW_REQ_TYPE \<Rightarrow> redis_req_type d r p
      | SW_REQ_TYPE_LF \<Rightarrow> redis_req_type_lf ch r p
      | SW_KEY_LEN \<Rightarrow> redis_req_key_len sz ch r p
      | SW_KEY_LEN_LF \<Rightarrow> redis_req_key_len_lf ch r p
      | SW_KEY \<Rightarrow> redis_req_key mem bid d r p
      | SW_KEY_LF \<Rightarrow> redis_req_key_lf ch r p
      | SW_ARG1_LEN \<Rightarrow> redis_req_arg1_len ch r p
      | SW_ARG1_LEN_LF \<Rightarrow> redis_req_arg1_len_lf ch r p
      | SW_ARG1 \<Rightarrow> redis_req_arg1 d r p
      | SW_ARG1_LF \<Rightarrow> redis_req_arg1_lf ch r p
      | SW_ARG2_LEN \<Rightarrow> redis_req_arg2_len ch r p
      | SW_ARG2_LEN_LF \<Rightarrow> redis_req_arg2_len_lf ch r p
      | SW_ARG2 \<Rightarrow> redis_req_arg2 d r p
      | SW_ARG2_LF \<Rightarrow> redis_req_arg2_lf ch r p
      | SW_ARG3_LEN \<Rightarrow> redis_req_arg3_len ch r p
      | SW_ARG3_LEN_LF \<Rightarrow> redis_req_arg3_len_lf ch r p
      | SW_ARG3 \<Rightarrow> redis_req_arg3 d r p
      | SW_ARG3_LF \<Rightarrow> redis_req_arg3_lf ch r p
      | SW_ARGN_LEN \<Rightarrow> redis_req_argn_len ch r p
      | SW_ARGN_LEN_LF \<Rightarrow> redis_req_argn_len_lf ch r p
      | SW_ARGN \<Rightarrow> redis_req_argn d r p
      | SW_ARGN_LF \<Rightarrow> redis_req_argn_lf ch r p)"

definition redis_parse_req :: "nat \<Rightarrow> (nat \<Rightarrow> bool) \<Rightarrow> mbuf \<Rightarrow> redis_req \<Rightarrow> redis_req option" where
  "redis_parse_req sz mem b = parse_with (redis_req_step sz mem (mid b)) parse_again (parse_done SW_START) b"

lemmas redis_req_lf_defs = redis_req_narg_lf_def redis_req_type_len_lf_def redis_req_key_len_lf_def
  redis_req_arg1_len_lf_def redis_req_arg2_len_lf_def redis_req_arg3_len_lf_def redis_req_argn_len_lf_def
  lf_step_def

lemmas redis_req_len_defs = redis_req_type_len_def redis_req_key_len_def redis_req_arg1_len_def
  redis_req_arg2_len_def redis_req_arg3_len_def redis_req_argn_len_def len_step_def

lemmas redis_req_skip_defs = redis_req_arg1_def redis_req_arg3_def redis_req_argn_def skip_step_def

lemmas redis_req_end_defs = redis_req_type_lf_def redis_req_key_lf_def redis_req_arg1_lf_def
  redis_req_arg2_lf_def redis_req_arg3_lf_def redis_req_argn_lf_def

subsection \<open>The parser keeps its contract\<close>

text \<open>
  The token is set only while a length, a name, a key or the key count of an \<open>EVAL\<close> is
  being read, and lies before \<open>p\<close>; a name or a key extends at least to \<open>p\<close>.
\<close>

definition redis_req_inv :: "redis_req \<Rightarrow> nat \<Rightarrow> bool" where
  "redis_req_inv r p \<longleftrightarrow> (case token r of
     None \<Rightarrow> True
   | Some t \<Rightarrow> t \<le> p \<and>
       (if state r \<in> {SW_REQ_TYPE, SW_KEY} then p \<le> t + unat (rlen r)
        else if state r = SW_ARG2 then redis_argeval r
        else state r \<in> {SW_START, SW_NARG, SW_REQ_TYPE_LEN, SW_KEY_LEN, SW_ARG1_LEN, SW_ARG2_LEN,
          SW_ARG3_LEN, SW_ARGN_LEN}))"

lemma skip_rlen:
  assumes "p < n" "n \<le> p + unat (w :: u32)"
  shows "n + unat (w - of_nat (n - p)) = p + unat w"
proof -
  have "n - p \<le> unat w" using assms by simp
  then have "unat (of_nat (n - p) :: u32) = n - p"
    using unat_less_pow [of w] by (simp add: unsigned_of_nat take_bit_nat_eq_self)
  then have "unat (w - of_nat (n - p)) = unat w - (n - p)"
    using \<open>n - p \<le> unat w\<close> by (simp add: unat_sub word_le_nat_alt)
  then show ?thesis using assms by simp
qed

lemma redis_req_inv_None [simp]: "token r = None \<Longrightarrow> redis_req_inv r p"
  by (simp add: redis_req_inv_def)

text \<open>A state that looks at one LF only changes the state.\<close>

lemma redis_req_end_Move:
  "redis_req_type_lf ch r p = Move r' p' \<Longrightarrow> \<exists>s. r' = r\<lparr>state := s\<rparr> \<and> p' = p + 1"
  "redis_req_key_lf ch r p = Move r' p' \<Longrightarrow> \<exists>s. r' = r\<lparr>state := s\<rparr> \<and> p' = p + 1"
  "redis_req_arg1_lf ch r p = Move r' p' \<Longrightarrow> \<exists>s. r' = r\<lparr>state := s\<rparr> \<and> p' = p + 1"
  "redis_req_arg2_lf ch r p = Move r' p' \<Longrightarrow> \<exists>s. r' = r\<lparr>state := s\<rparr> \<and> p' = p + 1"
  "redis_req_arg3_lf ch r p = Move r' p' \<Longrightarrow> \<exists>s. r' = r\<lparr>state := s\<rparr> \<and> p' = p + 1"
  "redis_req_argn_lf ch r p = Move r' p' \<Longrightarrow> \<exists>s. r' = r\<lparr>state := s\<rparr> \<and> p' = p + 1"
  "lf_step nxt ch r p = Move r' p' \<Longrightarrow> \<exists>s. r' = r\<lparr>state := s\<rparr> \<and> p' = p + 1"
  by (auto simp: redis_req_end_defs lf_step_def split: if_splits)

lemma redis_req_end_Done:
  "redis_req_type_lf ch r p = Done r' p' \<Longrightarrow> p' = p" "redis_req_key_lf ch r p = Done r' p' \<Longrightarrow> p' = p"
  "redis_req_arg1_lf ch r p = Done r' p' \<Longrightarrow> p' = p" "redis_req_arg2_lf ch r p = Done r' p' \<Longrightarrow> p' = p"
  "redis_req_arg3_lf ch r p = Done r' p' \<Longrightarrow> p' = p" "redis_req_argn_lf ch r p = Done r' p' \<Longrightarrow> p' = p"
  by (auto simp: redis_req_end_defs split: if_splits)

lemma len_step_Move:
  assumes "len_step bad nxt ch r p = Move r' p'"
  shows "p' = p + 1 \<and> (token r' = None \<or> state r' = state r \<and> (token r' = token r \<or> token r' = Some p))"
  using assms by (auto simp: len_step_def split: if_splits)

lemma len_step_Done: "len_step bad nxt ch r p \<noteq> Done r' p'"
  by (simp add: len_step_def)

lemma lf_step_Done: "lf_step nxt ch r p \<noteq> Done r' p'"
  by (simp add: lf_step_def)

lemma skip_step_Move:
  assumes "skip_step nxt d r p = Move r' p'" "p < length d"
  shows "token r' = token r \<and> p < p' \<and> p' \<le> length d"
  using assms by (auto simp: skip_step_def Let_def split: if_splits)

lemma skip_step_Done: "skip_step nxt d r p \<noteq> Done r' p'"
  by (simp add: skip_step_def Let_def)

lemmas redis_req_simple_defs = redis_req_narg_lf_def redis_req_type_len_lf_def redis_req_key_len_lf_def
  redis_req_arg1_len_lf_def redis_req_arg2_len_lf_def redis_req_arg3_len_lf_def redis_req_argn_len_lf_def
  redis_req_type_len_def redis_req_key_len_def redis_req_arg1_len_def redis_req_arg2_len_def
  redis_req_arg3_len_def redis_req_argn_len_def redis_req_arg1_def redis_req_arg3_def redis_req_argn_def

lemma redis_req_narg_Move:
  assumes "redis_req_narg bid ch r p = Move r' p'"
  shows "p' = p + 1 \<and> (token r' = None \<or> (state r' = state r \<or> state r' = SW_NARG) \<and> (token r' = token r \<or> token r' = Some p))"
  using assms by (auto simp: redis_req_narg_def split: if_splits)

lemma redis_req_type_Move:
  assumes "redis_req_type d r p = Move r' p'" "p < length d" "state r = SW_REQ_TYPE" "redis_req_inv r p"
  shows "redis_req_inv r' p' \<and> p < p' \<and> p' \<le> length d"
  using assms by (auto simp: redis_req_type_def redis_req_inv_def Let_def split: if_splits option.splits)

lemma redis_req_key_Move:
  assumes "redis_req_key mem bid d r p = Move r' p'" "p < length d" "state r = SW_KEY" "redis_req_inv r p"
  shows "redis_req_inv r' p' \<and> p < p' \<and> p' \<le> length d"
  using assms by (auto simp: redis_req_key_def redis_req_inv_def Let_def split: if_splits option.splits)

lemma redis_req_arg2_Move:
  assumes "redis_req_arg2 d r p = Move r' p'" "p < length d" "state r = SW_ARG2" "redis_req_inv r p"
  shows "redis_req_inv r' p' \<and> p < p' \<and> p' \<le> length d"
  using assms
  by (auto simp: redis_req_arg2_def redis_req_inv_def redis_argeval_def Let_def split: if_splits option.splits)

definition redis_len_states :: "redis_req_state set" where
  "redis_len_states = {SW_REQ_TYPE_LEN, SW_KEY_LEN, SW_ARG1_LEN, SW_ARG2_LEN, SW_ARG3_LEN, SW_ARGN_LEN}"

definition redis_lf_states :: "redis_req_state set" where
  "redis_lf_states = {SW_NARG_LF, SW_REQ_TYPE_LEN_LF, SW_REQ_TYPE_LF, SW_KEY_LEN_LF, SW_KEY_LF, SW_ARG1_LEN_LF,
     SW_ARG1_LF, SW_ARG2_LEN_LF, SW_ARG2_LF, SW_ARG3_LEN_LF, SW_ARG3_LF, SW_ARGN_LEN_LF, SW_ARGN_LF}"

lemma redis_req_state_cases:
  obtains (narg) "state r \<in> {SW_START, SW_NARG}" | (len) "state r \<in> redis_len_states"
    | (lf) "state r \<in> redis_lf_states" | (skip) "state r \<in> {SW_ARG1, SW_ARG3, SW_ARGN}"
    | (type) "state r = SW_REQ_TYPE" | (key) "state r = SW_KEY" | (arg2) "state r = SW_ARG2"
  by (cases "state r") (simp_all add: redis_len_states_def redis_lf_states_def)

lemma redis_req_step_narg:
  "state r \<in> {SW_START, SW_NARG} \<Longrightarrow> redis_req_step sz mem bid d r p = redis_req_narg bid (d ! p) r p"
  by (auto simp: redis_req_step_def)

lemma redis_req_step_len:
  assumes "state r \<in> redis_len_states"
  obtains bad nxt where "\<And>d p. redis_req_step sz mem bid d r p = len_step bad nxt (d ! p) r p"
  using assms unfolding redis_len_states_def
  by (elim insertE emptyE) (simp_all add: redis_req_step_def redis_req_simple_defs)

lemma redis_req_step_skip:
  assumes "state r \<in> {SW_ARG1, SW_ARG3, SW_ARGN}"
  obtains nxt where "\<And>d p. redis_req_step sz mem bid d r p = skip_step nxt d r p"
  using assms by (elim insertE emptyE) (simp_all add: redis_req_step_def redis_req_simple_defs)

lemma redis_req_step_lf:
  assumes "state r \<in> redis_lf_states" "redis_req_step sz mem bid d r p = Move r' p'"
  shows "\<exists>s. r' = r\<lparr>state := s\<rparr> \<and> p' = p + 1"
  using assms unfolding redis_lf_states_def
  by (elim insertE emptyE)
    (simp_all add: redis_req_step_def redis_req_simple_defs, (drule redis_req_end_Move, simp)+)

lemma redis_req_inv_len:
  assumes "state r \<in> redis_len_states \<union> {SW_START, SW_NARG}" "\<And>t. token r = Some t \<Longrightarrow> t \<le> p"
  shows "redis_req_inv r p"
  using assms unfolding redis_req_inv_def redis_len_states_def by (auto split: option.split)

lemma redis_req_inv_token: "redis_req_inv r p \<Longrightarrow> token r = Some t \<Longrightarrow> t \<le> p"
  by (simp add: redis_req_inv_def)

lemma redis_req_inv_none:
  assumes "redis_req_inv r p" "state r \<in> redis_lf_states \<union> {SW_ARG1, SW_ARG3, SW_ARGN}"
  shows "token r = None"
  using assms unfolding redis_req_inv_def redis_lf_states_def by (auto split: option.splits)

lemma redis_req_inv_next:
  assumes "redis_req_inv r p"
    and "token r' = None \<or> state r' \<in> redis_len_states \<union> {SW_START, SW_NARG} \<and> (token r' = token r \<or> token r' = Some p)"
  shows "redis_req_inv r' (p + 1)"
proof (cases "token r' = None")
  case False
  then have "t \<le> p + 1" if "token r' = Some t" for t
    using assms(2) redis_req_inv_token [OF assms(1), of t] that by auto
  with False assms(2) show ?thesis by (intro redis_req_inv_len) auto
qed simp

lemma redis_req_step_Move:
  assumes inv: "redis_req_inv r p" and p: "p < length d" and mv: "redis_req_step sz mem bid d r p = Move r' p'"
  shows "redis_req_inv r' p' \<and> p < p' \<and> p' \<le> length d"
proof (cases r rule: redis_req_state_cases)
  case narg
  then have "redis_req_narg bid (d ! p) r p = Move r' p'" using mv by (simp add: redis_req_step_narg)
  from redis_req_narg_Move [OF this] narg redis_req_inv_next [OF inv, of r'] p show ?thesis by auto
next
  case len
  then obtain bad nxt where "len_step bad nxt (d ! p) r p = Move r' p'"
    using mv by (metis redis_req_step_len)
  from len_step_Move [OF this] len redis_req_inv_next [OF inv, of r'] p show ?thesis by auto
next
  case lf
  then have "token r = None" using redis_req_inv_none [OF inv] by simp
  then show ?thesis using redis_req_step_lf [OF lf mv] p by auto
next
  case skip
  then obtain nxt where sk: "skip_step nxt d r p = Move r' p'" using mv by (metis redis_req_step_skip)
  have "token r = None" using redis_req_inv_none [OF inv] skip by blast
  with skip_step_Move [OF sk p] show ?thesis by simp
next
  case type
  then show ?thesis using mv by (intro redis_req_type_Move [OF _ p _ inv]) (simp_all add: redis_req_step_def)
next
  case key
  then show ?thesis using mv by (intro redis_req_key_Move [OF _ p _ inv]) (simp_all add: redis_req_step_def)
next
  case arg2
  then show ?thesis using mv by (intro redis_req_arg2_Move [OF _ p _ inv]) (simp_all add: redis_req_step_def)
qed

lemma redis_req_data_Done:
  "redis_req_type d r p \<noteq> Done r' p'" "redis_req_key mem bid d r p \<noteq> Done r' p'" "redis_req_arg2 d r p \<noteq> Done r' p'"
  by (simp_all add: redis_req_type_def redis_req_key_def redis_req_arg2_def Let_def split: option.split)

lemma redis_req_step_Done:
  assumes "redis_req_step sz mem bid d r p = Done r' p'"
  shows "p' = p"
proof (cases r rule: redis_req_state_cases)
  case narg
  with assms show ?thesis by (auto simp: redis_req_step_narg redis_req_narg_def split: if_splits)
next
  case len
  with assms show ?thesis by (metis redis_req_step_len len_step_Done)
next
  case skip
  with assms show ?thesis by (metis redis_req_step_skip skip_step_Done)
next
  case lf
  with assms show ?thesis unfolding redis_lf_states_def
    by (elim insertE emptyE)
      (simp_all add: redis_req_step_def redis_req_simple_defs lf_step_Done, (drule redis_req_end_Done, simp)+)
qed (use assms redis_req_data_Done in \<open>simp_all add: redis_req_step_def\<close>)

text \<open>Reading on after an interruption.\<close>

lemma redis_req_step_byte:
  assumes "state r \<notin> {SW_REQ_TYPE, SW_KEY, SW_ARG1, SW_ARG2, SW_ARG3, SW_ARGN}" "p < length d"
  shows "redis_req_step sz mem bid (d @ e) r p = redis_req_step sz mem bid d r p"
  using assms by (cases "state r") (simp_all add: redis_req_step_def nth_append)

lemma skip_step_more:
  assumes "p < length d"
  shows "skip_step nxt (d @ e) r p = skip_step nxt d r p \<or>
    (\<exists>r'. skip_step nxt d r p = Move r' (length d) \<and> state r' = state r \<and>
      (e \<noteq> [] \<longrightarrow> outcome_eq (skip_step nxt (d @ e) r p) (skip_step nxt (d @ e) r' (length d))))"
proof (cases "length d \<le> p + unat (rlen r)")
  case True
  from skip_rlen [OF assms True] assms True show ?thesis
    by (auto simp: skip_step_def Let_def nth_append algebra_simps)
next
  case False
  then show ?thesis by (simp add: skip_step_def Let_def nth_append)
qed

lemma redis_cmd_table_length: "(s, t) \<in> set (redis_cmd_table n) \<Longrightarrow> length s \<le> n + 1"
  by (auto simp: redis_cmd_table_def split: if_splits dest: redis_cmd_names [THEN cmd_names_mem])

lemma stricmp_append: "length s \<le> length m \<Longrightarrow> stricmp (m @ e) s = stricmp m s"
  by (simp add: stricmp_def)

lemma first_icmp_append_bytes:
  "\<forall>(s, t) \<in> set T. length s \<le> length m \<Longrightarrow> first_icmp T (m @ e) = first_icmp T m"
  by (induction T) (auto simp: stricmp_append)

lemma redis_cmd_type_append: "n < length m \<Longrightarrow> redis_cmd_type n (m @ e) = redis_cmd_type n m"
  unfolding redis_cmd_type_def
  by (intro first_icmp_append_bytes) (auto dest: redis_cmd_table_length)

lemma redis_req_type_more:
  assumes "p < length d" "state r = SW_REQ_TYPE"
  shows "redis_req_type (d @ e) r p = redis_req_type d r p \<or>
    (\<exists>r'. redis_req_type d r p = Move r' (length d) \<and> state r' = SW_REQ_TYPE \<and>
      redis_req_type (d @ e) r p = redis_req_type (d @ e) r' (length d))"
proof -
  define t where "t = (case token r of None \<Rightarrow> p | Some t \<Rightarrow> t)"
  show ?thesis
  proof (cases "length d \<le> t + unat (rlen r)")
    case True
    then show ?thesis using assms(2) by (simp add: redis_req_type_def Let_def t_def [symmetric])
  next
    case False
    then show ?thesis
      using redis_cmd_type_append [of "unat (rlen r)" "drop t d" e]
      by (simp add: redis_req_type_def Let_def t_def [symmetric] nth_append)
  qed
qed

lemma redis_req_key_more:
  assumes "p < length d" "state r = SW_KEY"
  shows "redis_req_key mem bid (d @ e) r p = redis_req_key mem bid d r p \<or>
    (\<exists>r'. redis_req_key mem bid d r p = Move r' (length d) \<and> state r' = SW_KEY \<and>
      redis_req_key mem bid (d @ e) r p = redis_req_key mem bid (d @ e) r' (length d))"
proof -
  define t where "t = (case token r of None \<Rightarrow> p | Some t \<Rightarrow> t)"
  show ?thesis
    using assms(2) by (cases "length d \<le> t + unat (rlen r)")
      (simp_all add: redis_req_key_def Let_def t_def [symmetric] nth_append)
qed

lemma redis_argeval_upd [simp]:
  "redis_argeval (r\<lparr>token := x\<rparr>) = redis_argeval r" "redis_argeval (r\<lparr>rlen := y\<rparr>) = redis_argeval r"
  by (simp_all add: redis_argeval_def)

lemma redis_req_arg2_more:
  assumes p: "p < length d" and st: "state r = SW_ARG2" and inv: "redis_req_inv r p"
  shows "redis_req_arg2 (d @ e) r p = redis_req_arg2 d r p \<or>
    (\<exists>r'. redis_req_arg2 d r p = Move r' (length d) \<and> state r' = SW_ARG2 \<and>
      (e \<noteq> [] \<longrightarrow> outcome_eq (redis_req_arg2 (d @ e) r p) (redis_req_arg2 (d @ e) r' (length d))))"
proof -
  define r0 where "r0 = (if token r = None \<and> redis_argeval r then r\<lparr>token := Some p\<rparr> else r)"
  have r0: "rlen r0 = rlen r" "redis_argeval r0 = redis_argeval r" "state r0 = SW_ARG2"
    "token r0 = None \<longleftrightarrow> token r = None \<and> \<not> redis_argeval r" "\<And>t. token r0 = Some t \<Longrightarrow> t \<le> p"
    using st redis_req_inv_token [OF inv] by (auto simp: r0_def split: if_splits)
  have fold: "redis_req_arg2 x r p = redis_req_arg2 x r0 p" for x
  proof (cases "token r = None \<and> redis_argeval r")
    case True
    then show ?thesis by (simp add: redis_req_arg2_def r0_def Let_def)
  qed (simp only: r0_def if_False)
  show ?thesis
  proof (cases "length d \<le> p + unat (rlen r)")
    case True
    define r' where "r' = r0\<lparr>rlen := rlen r0 - of_nat (length d - p)\<rparr>"
    have "redis_req_arg2 d r p = Move r' (length d)"
      using True r0(1) by (simp add: redis_req_arg2_def r0_def [symmetric] r'_def Let_def)
    moreover have "e \<noteq> [] \<longrightarrow> outcome_eq (redis_req_arg2 (d @ e) r0 p) (redis_req_arg2 (d @ e) r' (length d))"
      using skip_rlen [OF p True] p True r0
      by (auto simp: redis_req_arg2_def r'_def Let_def nth_append algebra_simps split: option.split)
    ultimately show ?thesis using r0(3) unfolding fold by (auto simp: r'_def)
  next
    case False
    then show ?thesis using r0 unfolding fold
      by (auto simp: redis_req_arg2_def Let_def nth_append split: option.split)
  qed
qed

lemma redis_req_step_more:
  assumes inv: "redis_req_inv r p" and p: "p < length d"
  shows "outcome_eq (redis_req_step sz mem bid (d @ e) r p) (redis_req_step sz mem bid d r p) \<or>
    (\<exists>r'. redis_req_step sz mem bid d r p = Move r' (length d) \<and>
      (e \<noteq> [] \<longrightarrow> outcome_eq (redis_req_step sz mem bid (d @ e) r p)
        (redis_req_step sz mem bid (d @ e) r' (length d))))"
proof (cases "state r \<in> {SW_REQ_TYPE, SW_KEY, SW_ARG1, SW_ARG2, SW_ARG3, SW_ARGN}")
  case True
  then consider "state r \<in> {SW_ARG1, SW_ARG3, SW_ARGN}" | "state r = SW_REQ_TYPE" | "state r = SW_KEY" | "state r = SW_ARG2"
    by auto
  then show ?thesis
  proof cases
    case 1
    then obtain nxt where s: "\<And>d p r'. state r' = state r \<Longrightarrow> redis_req_step sz mem bid d r' p = skip_step nxt d r' p"
      by (auto simp: redis_req_step_def redis_req_simple_defs)
    from skip_step_more [OF p, of nxt e r] show ?thesis by (auto simp: s)
  next
    case 2
    from redis_req_type_more [OF p 2, of e] 2 show ?thesis by (auto simp: redis_req_step_def)
  next
    case 3
    from redis_req_key_more [OF p 3, of mem bid e] 3 show ?thesis by (auto simp: redis_req_step_def)
  next
    case 4
    from redis_req_arg2_more [OF p 4 inv, of e] 4 show ?thesis by (auto simp: redis_req_step_def)
  qed
qed (simp add: redis_req_step_byte p)


subsection \<open>The parser on messages\<close>

lemma redis_class_mark [simp]:
  "redis_argz (mark x y r) = redis_argz r" "redis_arg0 (mark x y r) = redis_arg0 r" "redis_arg1 (mark x y r) = redis_arg1 r"
  "redis_arg2 (mark x y r) = redis_arg2 r" "redis_arg3 (mark x y r) = redis_arg3 r" "redis_argn (mark x y r) = redis_argn r"
  "redis_argx (mark x y r) = redis_argx r" "redis_argkvx (mark x y r) = redis_argkvx r"
  "redis_argeval (mark x y r) = redis_argeval r"
  by (simp_all add: redis_class_defs)

lemma len_step_mark:
  assumes "\<And>r p. bad (mark x y r) p = bad r p"
  shows "len_step bad nxt ch (mark x y r) p = map_outcome (mark x y) (len_step bad nxt ch r p)"
  using assms by (simp add: len_step_def)

lemma lf_step_mark: "lf_step nxt ch (mark x y r) p = map_outcome (mark x y) (lf_step nxt ch r p)"
  by (simp add: lf_step_def)

lemma skip_step_mark: "skip_step nxt d (mark x y r) p = map_outcome (mark x y) (skip_step nxt d r p)"
  by (simp add: skip_step_def Let_def)

lemma redis_req_data_mark:
  "redis_req_type d (mark x y r) p = map_outcome (mark x y) (redis_req_type d r p)"
  "redis_req_key mem bid d (mark x y r) p = map_outcome (mark x y) (redis_req_key mem bid d r p)"
  "redis_req_arg2 d (mark x y r) p = map_outcome (mark x y) (redis_req_arg2 d r p)"
  "redis_req_narg bid ch (mark x y r) p = map_outcome (mark x y) (redis_req_narg bid ch r p)"
  by (simp_all add: redis_req_type_def redis_req_key_def redis_req_arg2_def redis_req_narg_def Let_def split: option.split)

lemma redis_req_end_mark:
  "redis_req_type_lf ch (mark x y r) p = map_outcome (mark x y) (redis_req_type_lf ch r p)"
  "redis_req_key_lf ch (mark x y r) p = map_outcome (mark x y) (redis_req_key_lf ch r p)"
  "redis_req_arg1_lf ch (mark x y r) p = map_outcome (mark x y) (redis_req_arg1_lf ch r p)"
  "redis_req_arg2_lf ch (mark x y r) p = map_outcome (mark x y) (redis_req_arg2_lf ch r p)"
  "redis_req_arg3_lf ch (mark x y r) p = map_outcome (mark x y) (redis_req_arg3_lf ch r p)"
  "redis_req_argn_lf ch (mark x y r) p = map_outcome (mark x y) (redis_req_argn_lf ch r p)"
  by (simp_all add: redis_req_end_defs)

lemma redis_req_step_mark:
  "redis_req_step sz mem bid d (mark x y r) p = map_outcome (mark x y) (redis_req_step sz mem bid d r p)"
  by (cases "state r")
    (simp_all add: redis_req_step_def redis_req_simple_defs redis_req_end_mark redis_req_data_mark lf_step_mark
      skip_step_mark len_step_mark bad_arg_len_def)

lemma redis_req_inv_mark: "redis_req_inv (mark x y r) p = redis_req_inv r p"
  by (cases "token r") (simp_all add: redis_req_inv_def)

interpretation redis_req: msg_parser "redis_req_step sz mem bid" redis_req_inv "\<lambda>r. 0" "(=)"
  parse_again "parse_done SW_START" "(=)" for sz mem bid
proof unfold_locales
  fix r :: redis_req and p and d e :: bytes
  assume "redis_req_inv r p" "p < length d"
  then show "outcome_eq (redis_req_step sz mem bid (d @ e) r p) (redis_req_step sz mem bid d r p) \<or>
    (\<exists>r'. redis_req_step sz mem bid d r p = Move r' (length d) \<and>
      (e \<noteq> [] \<longrightarrow> outcome_eq (redis_req_step sz mem bid (d @ e) r p)
        (redis_req_step sz mem bid (d @ e) r' (length d))))"
    by (rule redis_req_step_more)
next
  fix b :: mbuf and r :: redis_req
  assume "redis_req_inv r (mlast b)"
  then show "pos (parse_again b r (mlast b)) \<le> mlast b"
    using redis_req_inv_token [of r "mlast b"] by (auto simp: parse_again_def Let_def)
  assume "redis_req_inv r (mlast b)"
  then show "redis_req_inv (parse_again b r (mlast b)) (pos (parse_again b r (mlast b)))"
    using redis_req_inv_mark [of "mlast b" MSG_PARSE_AGAIN r "mlast b"] by (simp add: parse_again_def mark_def Let_def)
next
  fix b :: mbuf and r :: redis_req and p
  show "result (parse_again b r p) \<in> {MSG_PARSE_AGAIN, MSG_PARSE_REPAIR}" by (simp add: parse_again_def Let_def)
qed (simp_all add: redis_req_step_mark redis_req_inv_mark parse_done_mark parse_again_more parse_done_def,
    (blast dest: redis_req_step_Move redis_req_step_Done)+)

text \<open>
  C3: the redis request parser always returns.  From a fresh message, or from one that an
  earlier call left for more input, the loop ends, the parse position stays within the
  buffer unless the request is refused, and a message that wants more input can be parsed
  again.
\<close>
theorem redis_parse_req_total:
  assumes "redis_req_inv r (pos r)" "pos r \<le> mlast b"
  shows "\<exists>r'. redis_parse_req sz mem b r = Some r' \<and> (result r' \<noteq> MSG_PARSE_ERROR \<longrightarrow> pos r' \<le> mlast b) \<and>
     (result r' \<in> {MSG_PARSE_AGAIN, MSG_PARSE_REPAIR} \<longrightarrow> redis_req_inv r' (pos r'))"
  unfolding redis_parse_req_def by (rule redis_req.parse_with_total [OF assms])

theorem redis_parse_req_total_witness:
  "\<exists>r'. redis_parse_req 16336 (\<lambda>n. True) (example_mbuf ''*1'') (fresh_msg SW_START) = Some r' \<and>
     (result r' \<noteq> MSG_PARSE_ERROR \<longrightarrow> pos r' \<le> mlast (example_mbuf ''*1'')) \<and>
     (result r' \<in> {MSG_PARSE_AGAIN, MSG_PARSE_REPAIR} \<longrightarrow> redis_req_inv r' (pos r'))"
  by (rule redis_parse_req_total) (simp_all add: fresh_msg_def)

text \<open>
  C2: requests may arrive in pieces.  However the bytes of a request are cut into reads, as
  long as they fit the buffer, the parser reaches the result it reaches on all bytes at
  once, with the same message unless the request is refused.
\<close>
theorem redis_parse_req_pieces:
  assumes "redis_req_inv r (pos r)" "pos r \<le> mlast b" "[] \<notin> set es" "mlast b + length (concat es) < mend b"
  shows "rel_option (msg_agree (=)) (parse_pieces (redis_parse_req sz mem) b r es)
     (redis_parse_req sz mem (b\<lparr>mdata := mdata b @ concat es\<rparr>) r)"
proof -
  have "parse_pieces (redis_parse_req sz mem) b r es
      = parse_pieces (parse_with (redis_req_step sz mem (mid b)) parse_again (parse_done SW_START)) b r es"
    by (rule parse_pieces_cong) (simp add: redis_parse_req_def)
  then show ?thesis
    using redis_req.parse_pieces_whole [OF assms, of sz mem "mid b"] by (simp add: redis_parse_req_def)
qed

theorem redis_parse_req_pieces_witness:
  "rel_option (msg_agree (=))
     (parse_pieces (redis_parse_req 16336 (\<lambda>n. True)) (example_mbuf ''*2'') (fresh_msg SW_START) [[CR], [LF, CHR ''$'']])
     (redis_parse_req 16336 (\<lambda>n. True) ((example_mbuf ''*2'')\<lparr>mdata := ''*2'' @ concat [[CR], [LF, CHR ''$'']]\<rparr>)
       (fresh_msg SW_START))"
  using redis_parse_req_pieces [of "fresh_msg SW_START" "example_mbuf ''*2''" "[[CR], [LF, CHR ''$'']]" 16336 "\<lambda>n. True"]
  by (simp add: fresh_msg_def example_mbuf_def)

end
