(* ===== verification/Redis_Encoding.thy ===== *)
theory Redis_Encoding
  imports Redis_Request
begin

text \<open>
  The unified redis protocol and the request parser: what \<open>redis_parse_req\<close> makes of an
  encoded command.  The encoding is the one the comment before the parser describes
  (number of arguments, then every argument with its length).
\<close>

subsection \<open>The encoding\<close>

definition redis_len_line :: "nat \<Rightarrow> bytes" where
  "redis_len_line n = CHR ''$'' # show_nat n @ [CR, LF]"

definition redis_bulk :: "bytes \<Rightarrow> bytes" where
  "redis_bulk a = redis_len_line (length a) @ a @ [CR, LF]"

definition redis_encode :: "bytes list \<Rightarrow> bytes" where
  "redis_encode args = CHR ''*'' # show_nat (length args) @ [CR, LF] @ concat (map redis_bulk args)"

subsection \<open>Running over one line\<close>

lemma run_digits:
  assumes "drop p d = ds @ rest" "\<forall>c \<in> set ds. isdigit c"
    and "\<And>r p. state r = S \<Longrightarrow> step d r p = len_step bad nxt (d ! p) r p" "state r = S" "token r = Some t"
  shows "parse_run step d r p = parse_run step d (r\<lparr>rlen := foldl dec_digit (rlen r) ds\<rparr>) (p + length ds)"
  using assms(1,2,4,5)
proof (induction ds arbitrary: r p)
  case (Cons c ds)
  then have at: "drop p d = c # ds @ rest" by simp
  have "step d r p = Move (r\<lparr>rlen := dec_digit (rlen r) c\<rparr>) (p + 1)"
    using Cons.prems assms(3) dropD [OF at] by (simp add: len_step_def)
  from run_Move [where step = step, OF at this] Cons.IH [of "p + 1" "r\<lparr>rlen := dec_digit (rlen r) c\<rparr>"] Cons.prems dropD [OF at]
  show ?case by simp
qed simp

lemma run_len:
  assumes at: "drop p d = redis_len_line n @ rest"
    and len: "\<And>r p. state r = S \<Longrightarrow> step d r p = len_step bad S1 (d ! p) r p"
    and lf: "\<And>r p. state r = S1 \<Longrightarrow> step d r p = lf_step S2 (d ! p) r p"
    and r: "state r = S" "token r = None"
    and ok: "\<not> bad (r\<lparr>token := Some p, rlen := of_nat n\<rparr>) (p + 1 + length (show_nat n))"
  shows "parse_run step d r p =
     parse_run step d (r\<lparr>rlen := of_nat n, rnarg := rnarg r - 1, token := None, state := S2\<rparr>)
       (p + length (redis_len_line n))"
proof -
  let ?r1 = "r\<lparr>token := Some p, rlen := 0\<rparr>" and ?r2 = "r\<lparr>token := Some p, rlen := of_nat n\<rparr>"
  let ?r3 = "r\<lparr>rlen := of_nat n, rnarg := rnarg r - 1, token := None, state := S1\<rparr>"
  let ?q = "p + 1 + length (show_nat n)"
  have at1: "drop (p + 1) d = show_nat n @ [CR, LF] @ rest" and p: "d ! p = CHR ''$''"
    using at dropD [of p d "CHR ''$''"] by (simp_all add: redis_len_line_def)
  have at2: "drop ?q d = CR # LF # rest" using at1 by (metis append_Cons append_Nil append_eq_conv_conj drop_drop add.commute)
  have at3: "drop (?q + 1) d = LF # rest" using dropD(3) [OF at2] by simp
  have "parse_run step d r p = parse_run step d ?r1 (p + 1)"
    using at p r len by (intro run_Move [where step = step and x = "CHR ''$''"]) (simp_all add: redis_len_line_def len_step_def)
  also have "\<dots> = parse_run step d ?r2 ?q"
    using run_digits [where step = step and S = S and bad = bad and nxt = S1, OF at1 show_nat_digits len, of ?r1 p] r(1) by (simp add: show_nat_value)
  also have "\<dots> = parse_run step d ?r3 (?q + 1)"
    using dropD [OF at2] r(1) ok by (intro run_Move [where step = step, OF at2]) (simp add: len len_step_def)
  also have "\<dots> = parse_run step d (?r3\<lparr>state := S2\<rparr>) (?q + 2)"
    using dropD [OF at3] by (intro run_Move [where step = step, OF at3]) (simp add: lf lf_step_def)
  finally show ?thesis by (simp add: redis_len_line_def)
qed

lemma run_skip:
  assumes at: "drop p d = a @ CR # rest" and skip: "\<And>r p. state r = S \<Longrightarrow> step d r p = skip_step nxt d r p"
    and r: "state r = S" "rlen r = of_nat (length a)" and len: "length a < 2 ^ 32"
  shows "parse_run step d r p = parse_run step d (r\<lparr>rlen := 0, state := nxt\<rparr>) (p + length a + 1)"
proof -
  have u: "unat (rlen r) = length a" using r(2) len by (simp add: unsigned_of_nat take_bit_nat_eq_self)
  have at2: "drop (p + length a) d = CR # rest"
    using at by (metis append_eq_conv_conj drop_drop add.commute)
  have "p < length d" using at by (metis append_is_Nil_conv drop_all leI list.distinct(1))
  then show ?thesis
    using u skip [OF r(1)] dropD [OF at2] by (simp add: parse_run_step skip_step_def Let_def)
qed

subsection \<open>The parts of a request\<close>

lemma u32_of_nat_eq: "n < 2 ^ 32 \<Longrightarrow> m < 2 ^ 32 \<Longrightarrow> (of_nat n :: u32) = of_nat m \<longleftrightarrow> n = m"
  by (simp add: word_unat_eq_iff unsigned_of_nat take_bit_nat_eq_self)

lemma u32_of_nat_0: "n < 2 ^ 32 \<Longrightarrow> (of_nat n :: u32) = 0 \<longleftrightarrow> n = 0"
  using u32_of_nat_eq [of n 0] by simp

lemma unat_of_nat_u32 [simp]: "n < 2 ^ 32 \<Longrightarrow> unat (of_nat n :: u32) = n"
  by (simp add: unsigned_of_nat take_bit_nat_eq_self)

lemma length_redis_bulk: "length (redis_bulk a) = length (redis_len_line (length a)) + length a + 2"
  by (simp add: redis_bulk_def)

lemma redis_bulk_drop:
  assumes "drop p d = redis_bulk a @ rest"
  shows "drop p d = redis_len_line (length a) @ a @ CR # LF # rest"
    and "drop (p + length (redis_len_line (length a))) d = a @ CR # LF # rest"
    and "drop (p + length (redis_bulk a) - 1) d = LF # rest"
    and "drop (p + length (redis_bulk a)) d = rest"
proof -
  show at: "drop p d = redis_len_line (length a) @ a @ CR # LF # rest"
    using assms by (simp add: redis_bulk_def)
  show at2: "drop (p + length (redis_len_line (length a))) d = a @ CR # LF # rest"
    by (metis at append_eq_conv_conj drop_drop add.commute)
  then have "drop (p + length (redis_len_line (length a)) + length a) d = CR # LF # rest"
    by (metis append_eq_conv_conj drop_drop add.commute)
  then show lf: "drop (p + length (redis_bulk a) - 1) d = LF # rest"
    by (simp add: length_redis_bulk dropD(3) add.assoc)
  then show "drop (p + length (redis_bulk a)) d = rest"
    using dropD(3) [OF lf] by (simp add: length_redis_bulk)
qed

text \<open>An argument that is skipped.\<close>

lemma run_bulk_skip:
  assumes at: "drop p d = redis_bulk a @ rest"
    and len: "\<And>r p. state r = S \<Longrightarrow> step d r p = len_step bad_arg_len S1 (d ! p) r p"
    and lf: "\<And>r p. state r = S1 \<Longrightarrow> step d r p = lf_step S2 (d ! p) r p"
    and skip: "\<And>p. state r' = S2 \<Longrightarrow> step d r' p = skip_step S3 d r' p"
    and r': "r' = r\<lparr>rlen := of_nat (length a), rnarg := rnarg r - 1, token := None, state := S2\<rparr>"
    and r: "state r = S" "token r = None" "rnarg r \<noteq> 0" and a: "length a < 2 ^ 32"
  shows "parse_run step d r p =
     parse_run step d (r\<lparr>rnarg := rnarg r - 1, token := None, rlen := 0, state := S3\<rparr>) (p + length (redis_bulk a) - 1)"
proof -
  note at' = redis_bulk_drop [OF at]
  let ?q = "p + length (redis_len_line (length a))"
  have "parse_run step d r p = parse_run step d r' ?q"
    using r unfolding r' by (intro run_len [where step = step, OF at'(1) len lf]) (auto simp: bad_arg_len_def)
  also have "\<dots> = parse_run step d (r'\<lparr>rlen := 0, state := S3\<rparr>) (?q + length a + 1)"
  proof -
    have s: "step d r' ?q = skip_step S3 d r' ?q" by (rule skip) (simp add: r')
    have "drop (?q + length a) d = CR # LF # rest"
      using at'(2) by (metis append_eq_conv_conj drop_drop add.commute)
    from dropD [OF this] s a at'(2) show ?thesis
      by (subst parse_run_step) (auto simp: skip_step_def Let_def r')
  qed
  finally show ?thesis by (simp add: r' length_redis_bulk add.assoc)
qed

lemma run_narg_digits:
  assumes "drop p d = ds @ rest" "\<forall>c \<in> set ds. isdigit c" "state r = SW_NARG" "token r = Some t"
  shows "parse_run (redis_req_step sz mem bid) d r p =
     parse_run (redis_req_step sz mem bid) d (r\<lparr>rnarg := foldl dec_digit (rnarg r) ds\<rparr>) (p + length ds)"
  using assms
proof (induction ds arbitrary: r p)
  case (Cons c ds)
  then have at: "drop p d = c # ds @ rest" by simp
  have "redis_req_step sz mem bid d r p = Move (r\<lparr>rnarg := dec_digit (rnarg r) c\<rparr>) (p + 1)"
    using Cons.prems dropD [OF at] by (simp add: redis_req_step_def redis_req_narg_def)
  from run_Move [where step = "redis_req_step sz mem bid", OF at this]
    Cons.IH [of "p + 1" "r\<lparr>rnarg := dec_digit (rnarg r) c\<rparr>"] Cons.prems dropD [OF at]
  show ?case by simp
qed simp

lemma run_narg:
  assumes at: "drop p d = CHR ''*'' # show_nat n @ [CR, LF] @ rest" and n: "0 < n" "n < 2 ^ 32"
    and r: "state r = SW_START" "token r = None"
  shows "parse_run (redis_req_step sz mem bid) d r p =
     parse_run (redis_req_step sz mem bid) d
       (r\<lparr>narg_start := Some (bid, p), rnarg := of_nat n, narg := of_nat n,
          narg_end := Some (bid, p + 1 + length (show_nat n)), token := None, state := SW_REQ_TYPE_LEN\<rparr>)
       (p + length (show_nat n) + 3)"
proof -
  let ?R = "redis_req_step sz mem bid"
  let ?r1 = "r\<lparr>token := Some p, narg_start := Some (bid, p), rnarg := 0, state := SW_NARG\<rparr>"
  let ?r2 = "r\<lparr>token := Some p, narg_start := Some (bid, p), state := SW_NARG, rnarg := of_nat n\<rparr>"
  let ?q = "p + 1 + length (show_nat n)"
  let ?r3 = "r\<lparr>narg_start := Some (bid, p), rnarg := of_nat n, narg := of_nat n,
          narg_end := Some (bid, ?q), token := None, state := SW_NARG_LF\<rparr>"
  have at1: "drop (p + 1) d = show_nat n @ [CR, LF] @ rest" using dropD(3) [OF at] by simp
  then have at2: "drop ?q d = CR # LF # rest"
    by (metis append_Cons append_Nil append_eq_conv_conj drop_drop add.commute)
  have at3: "drop (?q + 1) d = LF # rest" using dropD(3) [OF at2] by simp
  have "parse_run ?R d r p = parse_run ?R d ?r1 (p + 1)"
    using r dropD [OF at] by (intro run_Move [where step = ?R, OF at]) (simp add: redis_req_step_def redis_req_narg_def)
  also have "\<dots> = parse_run ?R d ?r2 ?q"
    using run_narg_digits [OF at1 show_nat_digits, of ?r1 p sz mem bid] by (simp add: show_nat_value)
  also have "\<dots> = parse_run ?R d ?r3 (?q + 1)"
    using dropD [OF at2] n u32_of_nat_0 [OF n(2)]
    by (intro run_Move [where step = ?R, OF at2]) (simp add: redis_req_step_def redis_req_narg_def)
  also have "\<dots> = parse_run ?R d (?r3\<lparr>state := SW_REQ_TYPE_LEN\<rparr>) (?q + 2)"
    using dropD [OF at3]
    by (intro run_Move [where step = ?R, OF at3]) (simp add: redis_req_step_def redis_req_simple_defs lf_step_def)
  finally show ?thesis by (simp add: numeral_3_eq_3)
qed

lemma redis_commands_known: "map_of redis_commands s = Some t \<Longrightarrow> t \<noteq> MSG_UNKNOWN"
proof -
  have "list_all (\<lambda>(s, t). t \<noteq> MSG_UNKNOWN) redis_commands"
    by (simp add: redis_command_defs)
  moreover assume "map_of redis_commands s = Some t"
  then have "(s, t) \<in> set redis_commands" by (rule map_of_SomeD)
  ultimately show ?thesis by (auto simp: list_all_iff)
qed

definition with_type :: "msg_type \<Rightarrow> redis_req \<Rightarrow> redis_req" where
  "with_type t r = r\<lparr>mtype := t, noforward := noforward r \<or> t \<in> {MSG_REQ_REDIS_PING, MSG_REQ_REDIS_AUTH},
     quit := quit r \<or> t = MSG_REQ_REDIS_QUIT\<rparr>"

lemma run_type:
  assumes at: "drop p d = redis_bulk w @ rest" and w: "w \<noteq> []" "length w < 2 ^ 32"
    and t: "map_of redis_commands (map to_lower w) = Some t"
    and r: "state r = SW_REQ_TYPE_LEN" "token r = None" "rnarg r \<noteq> 0"
  shows "parse_run (redis_req_step sz mem bid) d r p =
     parse_run (redis_req_step sz mem bid) d
       ((with_type t (r\<lparr>rnarg := rnarg r - 1, rlen := 0, token := None\<rparr>))\<lparr>state := SW_REQ_TYPE_LF\<rparr>)
       (p + length (redis_bulk w) - 1)"
proof -
  let ?R = "redis_req_step sz mem bid"
  let ?q = "p + length (redis_len_line (length w))"
  let ?r1 = "r\<lparr>rlen := of_nat (length w), rnarg := rnarg r - 1, token := None, state := SW_REQ_TYPE\<rparr>"
  let ?r2 = "(with_type t (r\<lparr>rnarg := rnarg r - 1, rlen := 0, token := None\<rparr>))\<lparr>state := SW_REQ_TYPE_LF\<rparr>"
  note at' = redis_bulk_drop [OF at]
  have "parse_run ?R d r p = parse_run ?R d ?r1 ?q"
    using r w u32_of_nat_0 [OF w(2)]
    by (intro run_len [where step = ?R and bad = "\<lambda>r p. rlen r = 0 \<or> rnarg r = 0" and S = SW_REQ_TYPE_LEN
          and ?S1.0 = SW_REQ_TYPE_LEN_LF, OF at'(1)])
      (simp_all add: redis_req_step_def redis_req_simple_defs)
  also have "\<dots> = parse_run ?R d ?r2 (?q + length w + 1)"
  proof -
    have cr: "drop (?q + length w) d = CR # LF # rest"
      using at'(2) by (metis append_eq_conv_conj drop_drop add.commute)
    have "redis_cmd_type (length w) (drop ?q d) = t"
      using redis_cmd_type_lookup [of w "LF # rest"] t at'(2) by simp
    then show ?thesis
      using dropD [OF cr] w redis_commands_known [OF t]
      by (subst parse_run_step) (auto simp: redis_req_step_def redis_req_type_def Let_def with_type_def)
  qed
  finally show ?thesis by (simp add: length_redis_bulk add.assoc)
qed

text \<open>A key: where it is found in the buffer.\<close>

definition key_at :: "nat \<Rightarrow> nat \<Rightarrow> bytes \<Rightarrow> keypos" where
  "key_at bid p a = \<lparr>kp_buf = bid, kp_start = p + length (redis_len_line (length a)),
     kp_end = p + length (redis_len_line (length a)) + length a\<rparr>"

lemma run_key:
  assumes at: "drop p d = redis_bulk k @ rest" and k: "length k < sz" "length k < 2 ^ 32"
    and mem: "mem (length (keys r))"
    and r: "state r = SW_KEY_LEN" "token r = None" "rnarg r \<noteq> 0"
  shows "parse_run (redis_req_step sz mem bid) d r p =
     parse_run (redis_req_step sz mem bid) d
       (r\<lparr>rnarg := rnarg r - 1, rlen := 0, token := None, keys := keys r @ [key_at bid p k], state := SW_KEY_LF\<rparr>)
       (p + length (redis_bulk k) - 1)"
proof -
  let ?R = "redis_req_step sz mem bid"
  let ?q = "p + length (redis_len_line (length k))"
  let ?r1 = "r\<lparr>rlen := of_nat (length k), rnarg := rnarg r - 1, token := None, state := SW_KEY\<rparr>"
  let ?r2 = "r\<lparr>rnarg := rnarg r - 1, rlen := 0, token := None, keys := keys r @ [key_at bid p k], state := SW_KEY_LF\<rparr>"
  note at' = redis_bulk_drop [OF at]
  have "parse_run ?R d r p = parse_run ?R d ?r1 ?q"
    using r k
    by (intro run_len [where step = ?R and bad = "\<lambda>r p. sz \<le> unat (rlen r) \<or> rnarg r = 0" and S = SW_KEY_LEN
          and ?S1.0 = SW_KEY_LEN_LF, OF at'(1)])
      (simp_all add: redis_req_step_def redis_req_simple_defs)
  also have "\<dots> = parse_run ?R d ?r2 (?q + length k + 1)"
  proof -
    have cr: "drop (?q + length k) d = CR # LF # rest"
      using at'(2) by (metis append_eq_conv_conj drop_drop add.commute)
    then show ?thesis
      using dropD [OF cr] k mem
      by (subst parse_run_step) (auto simp: redis_req_step_def redis_req_key_def Let_def key_at_def)
  qed
  finally show ?thesis by (simp add: length_redis_bulk add.assoc)
qed

subsection \<open>The argument classes exclude each other\<close>

lemma redis_class_excl:
  "redis_argz r \<Longrightarrow> \<not> redis_arg0 r \<and> \<not> redis_arg1 r \<and> \<not> redis_arg2 r \<and> \<not> redis_arg3 r \<and> \<not> redis_argn r \<and> \<not> redis_argx r \<and> \<not> redis_argkvx r \<and> \<not> redis_argeval r"
  "redis_arg0 r \<Longrightarrow> \<not> redis_argz r \<and> \<not> redis_arg1 r \<and> \<not> redis_arg2 r \<and> \<not> redis_arg3 r \<and> \<not> redis_argn r \<and> \<not> redis_argx r \<and> \<not> redis_argkvx r \<and> \<not> redis_argeval r"
  "redis_arg1 r \<Longrightarrow> \<not> redis_argz r \<and> \<not> redis_arg0 r \<and> \<not> redis_arg2 r \<and> \<not> redis_arg3 r \<and> \<not> redis_argn r \<and> \<not> redis_argx r \<and> \<not> redis_argkvx r \<and> \<not> redis_argeval r"
  "redis_arg2 r \<Longrightarrow> \<not> redis_argz r \<and> \<not> redis_arg0 r \<and> \<not> redis_arg1 r \<and> \<not> redis_arg3 r \<and> \<not> redis_argn r \<and> \<not> redis_argx r \<and> \<not> redis_argkvx r \<and> \<not> redis_argeval r"
  "redis_arg3 r \<Longrightarrow> \<not> redis_argz r \<and> \<not> redis_arg0 r \<and> \<not> redis_arg1 r \<and> \<not> redis_arg2 r \<and> \<not> redis_argn r \<and> \<not> redis_argx r \<and> \<not> redis_argkvx r \<and> \<not> redis_argeval r"
  "redis_argn r \<Longrightarrow> \<not> redis_argz r \<and> \<not> redis_arg0 r \<and> \<not> redis_arg1 r \<and> \<not> redis_arg2 r \<and> \<not> redis_arg3 r \<and> \<not> redis_argx r \<and> \<not> redis_argkvx r \<and> \<not> redis_argeval r"
  "redis_argx r \<Longrightarrow> \<not> redis_argz r \<and> \<not> redis_arg0 r \<and> \<not> redis_arg1 r \<and> \<not> redis_arg2 r \<and> \<not> redis_arg3 r \<and> \<not> redis_argn r \<and> \<not> redis_argkvx r \<and> \<not> redis_argeval r"
  "redis_argkvx r \<Longrightarrow> \<not> redis_argz r \<and> \<not> redis_arg0 r \<and> \<not> redis_arg1 r \<and> \<not> redis_arg2 r \<and> \<not> redis_arg3 r \<and> \<not> redis_argn r \<and> \<not> redis_argx r \<and> \<not> redis_argeval r"
  "redis_argeval r \<Longrightarrow> \<not> redis_argz r \<and> \<not> redis_arg0 r \<and> \<not> redis_arg1 r \<and> \<not> redis_arg2 r \<and> \<not> redis_arg3 r \<and> \<not> redis_argn r \<and> \<not> redis_argx r \<and> \<not> redis_argkvx r"
  unfolding redis_class_defs by (elim insertE emptyE; simp)+

lemma redis_class_upd [simp]:
  "redis_argz (r\<lparr>rnarg := x0\<rparr>) = redis_argz r"
  "redis_argz (r\<lparr>token := x1\<rparr>) = redis_argz r"
  "redis_argz (r\<lparr>rlen := x2\<rparr>) = redis_argz r"
  "redis_argz (r\<lparr>state := x3\<rparr>) = redis_argz r"
  "redis_argz (r\<lparr>keys := x4\<rparr>) = redis_argz r"
  "redis_arg0 (r\<lparr>rnarg := x0\<rparr>) = redis_arg0 r"
  "redis_arg0 (r\<lparr>token := x1\<rparr>) = redis_arg0 r"
  "redis_arg0 (r\<lparr>rlen := x2\<rparr>) = redis_arg0 r"
  "redis_arg0 (r\<lparr>state := x3\<rparr>) = redis_arg0 r"
  "redis_arg0 (r\<lparr>keys := x4\<rparr>) = redis_arg0 r"
  "redis_arg1 (r\<lparr>rnarg := x0\<rparr>) = redis_arg1 r"
  "redis_arg1 (r\<lparr>token := x1\<rparr>) = redis_arg1 r"
  "redis_arg1 (r\<lparr>rlen := x2\<rparr>) = redis_arg1 r"
  "redis_arg1 (r\<lparr>state := x3\<rparr>) = redis_arg1 r"
  "redis_arg1 (r\<lparr>keys := x4\<rparr>) = redis_arg1 r"
  "redis_arg2 (r\<lparr>rnarg := x0\<rparr>) = redis_arg2 r"
  "redis_arg2 (r\<lparr>token := x1\<rparr>) = redis_arg2 r"
  "redis_arg2 (r\<lparr>rlen := x2\<rparr>) = redis_arg2 r"
  "redis_arg2 (r\<lparr>state := x3\<rparr>) = redis_arg2 r"
  "redis_arg2 (r\<lparr>keys := x4\<rparr>) = redis_arg2 r"
  "redis_arg3 (r\<lparr>rnarg := x0\<rparr>) = redis_arg3 r"
  "redis_arg3 (r\<lparr>token := x1\<rparr>) = redis_arg3 r"
  "redis_arg3 (r\<lparr>rlen := x2\<rparr>) = redis_arg3 r"
  "redis_arg3 (r\<lparr>state := x3\<rparr>) = redis_arg3 r"
  "redis_arg3 (r\<lparr>keys := x4\<rparr>) = redis_arg3 r"
  "redis_argn (r\<lparr>rnarg := x0\<rparr>) = redis_argn r"
  "redis_argn (r\<lparr>token := x1\<rparr>) = redis_argn r"
  "redis_argn (r\<lparr>rlen := x2\<rparr>) = redis_argn r"
  "redis_argn (r\<lparr>state := x3\<rparr>) = redis_argn r"
  "redis_argn (r\<lparr>keys := x4\<rparr>) = redis_argn r"
  "redis_argx (r\<lparr>rnarg := x0\<rparr>) = redis_argx r"
  "redis_argx (r\<lparr>token := x1\<rparr>) = redis_argx r"
  "redis_argx (r\<lparr>rlen := x2\<rparr>) = redis_argx r"
  "redis_argx (r\<lparr>state := x3\<rparr>) = redis_argx r"
  "redis_argx (r\<lparr>keys := x4\<rparr>) = redis_argx r"
  "redis_argkvx (r\<lparr>rnarg := x0\<rparr>) = redis_argkvx r"
  "redis_argkvx (r\<lparr>token := x1\<rparr>) = redis_argkvx r"
  "redis_argkvx (r\<lparr>rlen := x2\<rparr>) = redis_argkvx r"
  "redis_argkvx (r\<lparr>state := x3\<rparr>) = redis_argkvx r"
  "redis_argkvx (r\<lparr>keys := x4\<rparr>) = redis_argkvx r"
  "redis_argeval (r\<lparr>rnarg := x0\<rparr>) = redis_argeval r"
  "redis_argeval (r\<lparr>state := x3\<rparr>) = redis_argeval r"
  "redis_argeval (r\<lparr>keys := x4\<rparr>) = redis_argeval r"
  by (simp_all add: redis_class_defs)

subsection \<open>The arguments, class by class\<close>

lemma run_arg:
  assumes "drop p d = redis_bulk a @ rest" "token r = None" "rnarg r \<noteq> 0" "length a < 2 ^ 32"
  shows "state r = SW_ARG1_LEN \<Longrightarrow> parse_run (redis_req_step sz mem bid) d r p = parse_run (redis_req_step sz mem bid) d
       (r\<lparr>rnarg := rnarg r - 1, token := None, rlen := 0, state := SW_ARG1_LF\<rparr>) (p + length (redis_bulk a) - 1)"
    and "state r = SW_ARG2_LEN \<Longrightarrow> \<not> redis_argeval r \<Longrightarrow>
       parse_run (redis_req_step sz mem bid) d r p = parse_run (redis_req_step sz mem bid) d
       (r\<lparr>rnarg := rnarg r - 1, token := None, rlen := 0, state := SW_ARG2_LF\<rparr>) (p + length (redis_bulk a) - 1)"
    and "state r = SW_ARG3_LEN \<Longrightarrow> parse_run (redis_req_step sz mem bid) d r p = parse_run (redis_req_step sz mem bid) d
       (r\<lparr>rnarg := rnarg r - 1, token := None, rlen := 0, state := SW_ARG3_LF\<rparr>) (p + length (redis_bulk a) - 1)"
    and "state r = SW_ARGN_LEN \<Longrightarrow> parse_run (redis_req_step sz mem bid) d r p = parse_run (redis_req_step sz mem bid) d
       (r\<lparr>rnarg := rnarg r - 1, token := None, rlen := 0, state := SW_ARGN_LF\<rparr>) (p + length (redis_bulk a) - 1)"
  subgoal
    by (rule run_bulk_skip [where S = SW_ARG1_LEN and ?S1.0 = SW_ARG1_LEN_LF and ?S2.0 = SW_ARG1, OF assms(1) _ _ _ refl _ assms(2-4)])
      (simp_all add: redis_req_step_def redis_req_simple_defs)
  subgoal
    by (rule run_bulk_skip [where S = SW_ARG2_LEN and ?S1.0 = SW_ARG2_LEN_LF and ?S2.0 = SW_ARG2, OF assms(1) _ _ _ refl _ assms(2-4)])
      (simp_all add: redis_req_step_def redis_req_simple_defs redis_req_arg2_def skip_step_def Let_def)
  subgoal
    by (rule run_bulk_skip [where S = SW_ARG3_LEN and ?S1.0 = SW_ARG3_LEN_LF and ?S2.0 = SW_ARG3, OF assms(1) _ _ _ refl _ assms(2-4)])
      (simp_all add: redis_req_step_def redis_req_simple_defs)
  subgoal
    by (rule run_bulk_skip [where S = SW_ARGN_LEN and ?S1.0 = SW_ARGN_LEN_LF and ?S2.0 = SW_ARGN, OF assms(1) _ _ _ refl _ assms(2-4)])
      (simp_all add: redis_req_step_def redis_req_simple_defs)
  done

text \<open>
  \<open>parsed r p ks q\<close>: from the message \<open>r\<close> and position \<open>p\<close> the parser succeeds at the LF at
  \<open>q\<close> and has found the further keys \<open>ks\<close>.
\<close>

definition hdr :: "redis_req \<Rightarrow> msg_type \<times> u32 \<times> bool \<times> bool" where
  "hdr r = (mtype r, narg r, noforward r, quit r)"

definition parsed ::
  "nat \<Rightarrow> (nat \<Rightarrow> bool) \<Rightarrow> nat \<Rightarrow> bytes \<Rightarrow> redis_req \<Rightarrow> nat \<Rightarrow> keypos list \<Rightarrow> nat \<Rightarrow> bool" where
  "parsed sz mem bid d r p ks q \<longleftrightarrow>
     (\<exists>r'. parse_run (redis_req_step sz mem bid) d r p = Some (Done r' q) \<and> keys r' = keys r @ ks \<and> hdr r' = hdr r)"

lemma hdr_upd [simp]:
  "hdr (r\<lparr>rnarg := a\<rparr>) = hdr r" "hdr (r\<lparr>token := b\<rparr>) = hdr r" "hdr (r\<lparr>rlen := c\<rparr>) = hdr r"
  "hdr (r\<lparr>state := s\<rparr>) = hdr r" "hdr (r\<lparr>keys := ks\<rparr>) = hdr r"
  by (simp_all add: hdr_def)

lemma parsed_eq:
  assumes "parse_run (redis_req_step sz mem bid) d r p = parse_run (redis_req_step sz mem bid) d r1 p1"
    and "hdr r1 = hdr r" "keys r1 = keys r @ ks1" "parsed sz mem bid d r1 p1 ks2 q"
  shows "parsed sz mem bid d r p (ks1 @ ks2) q"
  using assms by (auto simp: parsed_def)

lemma parsed_move:
  assumes "redis_req_step sz mem bid d r p = Move r1 p1" "p < length d" "hdr r1 = hdr r" "keys r1 = keys r"
    "parsed sz mem bid d r1 p1 ks q"
  shows "parsed sz mem bid d r p ks q"
  using parsed_eq [where ?ks1.0 = "[]", of sz mem bid d r p r1 p1 ks q] assms by (simp add: parse_run_step)

lemma parsed_done:
  assumes "redis_req_step sz mem bid d r p = Done r p" "p < length d"
  shows "parsed sz mem bid d r p [] p"
  using assms by (simp add: parsed_def parse_run_step)

definition bulks :: "bytes list \<Rightarrow> bytes" where
  "bulks as = concat (map redis_bulk as)"

lemma bulks_simps [simp]: "bulks [] = []" "bulks (a # as) = redis_bulk a @ bulks as"
  by (simp_all add: bulks_def)

lemma redis_bulk_pos [simp]: "0 < length (redis_bulk a)" "redis_bulk a \<noteq> []"
  by (simp_all add: redis_bulk_def)

lemma lf_at:
  assumes "drop p d = redis_bulk a @ rest"
  shows "p + length (redis_bulk a) - 1 < length d" "d ! (p + length (redis_bulk a) - 1) = LF"
  using dropD [OF redis_bulk_drop(3) [OF assms]] by simp_all

definition short :: "bytes list \<Rightarrow> bool" where
  "short as \<longleftrightarrow> (\<forall>a \<in> set as. length a < 2 ^ 32) \<and> length as < 2 ^ 32"

lemma short_Cons [simp]: "short (a # as) \<longleftrightarrow> length a < 2 ^ 32 \<and> short as \<and> Suc (length as) < 2 ^ 32"
  by (auto simp: short_def)

definition after_arg :: "redis_req_state \<Rightarrow> redis_req \<Rightarrow> redis_req" where
  "after_arg s r = r\<lparr>rnarg := rnarg r - 1, token := None, rlen := 0, state := s\<rparr>"

lemma after_arg_sel [simp]:
  "state (after_arg s r) = s" "token (after_arg s r) = None" "hdr (after_arg s r) = hdr r"
  "rnarg (after_arg s r) = rnarg r - 1" "keys (after_arg s r) = keys r" "narg (after_arg s r) = narg r"
  "mtype (after_arg s r) = mtype r"
  by (simp_all add: after_arg_def)

lemma after_arg_class [simp]:
  "redis_argz (after_arg s r) = redis_argz r" "redis_arg0 (after_arg s r) = redis_arg0 r"
  "redis_arg1 (after_arg s r) = redis_arg1 r" "redis_arg2 (after_arg s r) = redis_arg2 r"
  "redis_arg3 (after_arg s r) = redis_arg3 r" "redis_argn (after_arg s r) = redis_argn r"
  "redis_argx (after_arg s r) = redis_argx r" "redis_argkvx (after_arg s r) = redis_argkvx r"
  "redis_argeval (after_arg s r) = redis_argeval r"
  by (simp_all add: redis_class_defs)

lemma parsed_arg:
  assumes "drop p d = redis_bulk a @ rest" "token r = None" "rnarg r \<noteq> 0" "length a < 2 ^ 32"
  shows "state r = SW_ARG1_LEN \<Longrightarrow>
       parsed sz mem bid d (after_arg SW_ARG1_LF r)
         (p + length (redis_bulk a) - 1) ks q \<Longrightarrow> parsed sz mem bid d r p ks q"
    and "state r = SW_ARG2_LEN \<Longrightarrow> \<not> redis_argeval r \<Longrightarrow>
       parsed sz mem bid d (after_arg SW_ARG2_LF r)
         (p + length (redis_bulk a) - 1) ks q \<Longrightarrow> parsed sz mem bid d r p ks q"
    and "state r = SW_ARG3_LEN \<Longrightarrow>
       parsed sz mem bid d (after_arg SW_ARG3_LF r)
         (p + length (redis_bulk a) - 1) ks q \<Longrightarrow> parsed sz mem bid d r p ks q"
    and "state r = SW_ARGN_LEN \<Longrightarrow>
       parsed sz mem bid d (after_arg SW_ARGN_LF r)
         (p + length (redis_bulk a) - 1) ks q \<Longrightarrow> parsed sz mem bid d r p ks q"
  by (simp_all add: parsed_def after_arg_def run_arg [OF assms])

text \<open>The arguments after the first argument of a command with any number of them.\<close>

lemma parsed_argn:
  assumes "redis_argn r \<or> redis_argeval r" "as \<noteq> []" "short as" "drop p d = bulks as @ rest"
    and "state r = SW_ARGN_LEN" "token r = None" "rnarg r = of_nat (length as)"
  shows "parsed sz mem bid d r p [] (p + length (bulks as) - 1)"
  using assms
proof (induction as arbitrary: r p)
  case (Cons a as)
  let ?q = "p + length (redis_bulk a) - 1"
  let ?r1 = "after_arg SW_ARGN_LF r"
  have at: "drop p d = redis_bulk a @ bulks as @ rest" using Cons.prems(4) by simp
  have n0: "rnarg r \<noteq> 0" using Cons.prems(3,7) u32_of_nat_0 [of "Suc (length as)"] by simp
  have r1: "rnarg ?r1 = of_nat (length as)" using Cons.prems(7) by simp
  have "parsed sz mem bid d ?r1 ?q [] (p + length (bulks (a # as)) - 1)"
  proof (cases "as = []")
    case True
    then show ?thesis
      using Cons.prems(1,7) lf_at [OF at] r1
      by (auto intro!: parsed_done simp: redis_req_step_def redis_req_argn_lf_def)
  next
    case False
    then have "rnarg ?r1 \<noteq> 0" using r1 Cons.prems(3) u32_of_nat_0 [of "length as"] by (simp add: short_def)
    then have mv: "redis_req_step sz mem bid d ?r1 ?q = Move (?r1\<lparr>state := SW_ARGN_LEN\<rparr>) (?q + 1)"
      using Cons.prems(1) lf_at [OF at] by (simp add: redis_req_step_def redis_req_argn_lf_def)
    have rest: "parsed sz mem bid d (?r1\<lparr>state := SW_ARGN_LEN\<rparr>) (?q + 1) [] (p + length (bulks (a # as)) - 1)"
      using Cons.IH [of "?r1\<lparr>state := SW_ARGN_LEN\<rparr>" "?q + 1"] False Cons.prems(1,3) r1 redis_bulk_drop(4) [OF at]
      by (simp add: add.assoc)
    show ?thesis by (rule parsed_move [OF mv lf_at(1) [OF at] _ _ rest]) simp_all
  qed
  moreover have "length a < 2 ^ 32" using Cons.prems(3) by simp
  ultimately show ?case using parsed_arg(4) [OF at Cons.prems(6) n0 _ Cons.prems(5)] by blast
qed simp

fun keys_at :: "nat \<Rightarrow> nat \<Rightarrow> bytes list \<Rightarrow> keypos list" where
  "keys_at bid p [] = []"
| "keys_at bid p (k # ks) = key_at bid p k # keys_at bid (p + length (redis_bulk k)) ks"

text \<open>A key followed by the LF state; \<open>after\<close> is the message in front of the LF.\<close>

definition after_key :: "nat \<Rightarrow> nat \<Rightarrow> bytes \<Rightarrow> redis_req \<Rightarrow> redis_req" where
  "after_key bid p k r = r\<lparr>rnarg := rnarg r - 1, rlen := 0, token := None, keys := keys r @ [key_at bid p k], state := SW_KEY_LF\<rparr>"

lemma after_key_sel [simp]:
  "state (after_key bid p k r) = SW_KEY_LF" "token (after_key bid p k r) = None" "hdr (after_key bid p k r) = hdr r"
  "rnarg (after_key bid p k r) = rnarg r - 1" "keys (after_key bid p k r) = keys r @ [key_at bid p k]"
  "narg (after_key bid p k r) = narg r" "mtype (after_key bid p k r) = mtype r"
  by (simp_all add: after_key_def)

lemma after_key_class [simp]:
  "redis_argz (after_key bid p k r) = redis_argz r" "redis_arg0 (after_key bid p k r) = redis_arg0 r"
  "redis_arg1 (after_key bid p k r) = redis_arg1 r" "redis_arg2 (after_key bid p k r) = redis_arg2 r"
  "redis_arg3 (after_key bid p k r) = redis_arg3 r" "redis_argn (after_key bid p k r) = redis_argn r"
  "redis_argx (after_key bid p k r) = redis_argx r" "redis_argkvx (after_key bid p k r) = redis_argkvx r"
  "redis_argeval (after_key bid p k r) = redis_argeval r"
  by (simp_all add: redis_class_defs)

lemma parsed_key:
  assumes "drop p d = redis_bulk k @ rest" "length k < sz" "length k < 2 ^ 32" "mem (length (keys r))"
    and "state r = SW_KEY_LEN" "token r = None" "rnarg r \<noteq> 0"
    and "parsed sz mem bid d (after_key bid p k r) (p + length (redis_bulk k) - 1) ks q"
  shows "parsed sz mem bid d r p (key_at bid p k # ks) q"
proof -
  have "parse_run (redis_req_step sz mem bid) d r p
      = parse_run (redis_req_step sz mem bid) d (after_key bid p k r) (p + length (redis_bulk k) - 1)"
    using run_key [where mem = mem and r = r, OF assms(1-7)] by (simp add: after_key_def)
  from parsed_eq [OF this, where ?ks1.0 = "[key_at bid p k]" and ?ks2.0 = ks and q = q] assms(8) show ?thesis by simp
qed

lemma parsed_argx:
  assumes "redis_argx r" "ks \<noteq> []" "short ks" "\<forall>k \<in> set ks. length k < sz" "drop p d = bulks ks @ rest"
    and "\<And>n. mem n" "state r = SW_KEY_LEN" "token r = None" "rnarg r = of_nat (length ks)"
  shows "parsed sz mem bid d r p (keys_at bid p ks) (p + length (bulks ks) - 1)"
  using assms(1-5,7-9)
proof (induction ks arbitrary: r p)
  case (Cons k ks)
  let ?q = "p + length (redis_bulk k) - 1" and ?r1 = "after_key bid p k r"
  have at: "drop p d = redis_bulk k @ bulks ks @ rest" using Cons.prems(5) by simp
  have n0: "rnarg r \<noteq> 0" using Cons.prems(3,8) u32_of_nat_0 [of "Suc (length ks)"] by simp
  have r1: "rnarg ?r1 = of_nat (length ks)" using Cons.prems(8) by simp
  note excl = redis_class_excl(7) [OF Cons.prems(1)]
  have "parsed sz mem bid d ?r1 ?q (keys_at bid (p + length (redis_bulk k)) ks) (p + length (bulks (k # ks)) - 1)"
  proof (cases "ks = []")
    case True
    then show ?thesis
      using Cons.prems(1) lf_at [OF at] r1 excl
      by (auto intro!: parsed_done simp: redis_req_step_def redis_req_key_lf_def)
  next
    case False
    then have "rnarg ?r1 \<noteq> 0" using r1 Cons.prems(3) u32_of_nat_0 [of "length ks"] by (simp add: short_def)
    then have mv: "redis_req_step sz mem bid d ?r1 ?q = Move (?r1\<lparr>state := SW_KEY_LEN\<rparr>) (?q + 1)"
      using Cons.prems(1) lf_at [OF at] excl by (simp add: redis_req_step_def redis_req_key_lf_def)
    have rest: "parsed sz mem bid d (?r1\<lparr>state := SW_KEY_LEN\<rparr>) (?q + 1) (keys_at bid (p + length (redis_bulk k)) ks)
        (p + length (bulks (k # ks)) - 1)"
      using Cons.IH [of "?r1\<lparr>state := SW_KEY_LEN\<rparr>" "?q + 1"] False Cons.prems(1,3,4) r1 redis_bulk_drop(4) [OF at]
      by (simp add: add.assoc)
    show ?thesis by (rule parsed_move [OF mv lf_at(1) [OF at] _ _ rest]) simp_all
  qed
  then show ?case
    using parsed_key [where mem = mem and sz = sz, OF at _ _ assms(6) Cons.prems(6,7) n0] Cons.prems(3,4) by simp
qed simp

fun kv_keys_at :: "nat \<Rightarrow> nat \<Rightarrow> bytes list \<Rightarrow> keypos list" where
  "kv_keys_at bid p (k # v # as) =
     key_at bid p k # kv_keys_at bid (p + length (redis_bulk k) + length (redis_bulk v)) as"
| "kv_keys_at bid p as = []"

fun evens :: "'a list \<Rightarrow> 'a list" where
  "evens (k # v # as) = k # evens as"
| "evens as = []"

lemma parsed_argkvx:
  assumes "redis_argkvx r" "as \<noteq> []" "even (length as)" "short as" "\<forall>k \<in> set (evens as). length k < sz"
    and "drop p d = bulks as @ rest" "\<And>n. mem n" "odd (unat (narg r))"
    and "state r = SW_KEY_LEN" "token r = None" "rnarg r = of_nat (length as)"
  shows "parsed sz mem bid d r p (kv_keys_at bid p as) (p + length (bulks as) - 1)"
  using assms(1-6,8-11)
proof (induction bid p as arbitrary: r rule: kv_keys_at.induct)
  case (1 bid p k v as)
  let ?q = "p + length (redis_bulk k) - 1" and ?r1 = "(after_key bid p k r)\<lparr>state := SW_ARG1_LEN\<rparr>"
  let ?q2 = "p + length (redis_bulk k) + length (redis_bulk v) - 1" and ?r2 = "after_arg SW_ARG1_LF ?r1"
  note excl = redis_class_excl(8) [OF "1.prems"(1)]
  have at: "drop p d = redis_bulk k @ redis_bulk v @ bulks as @ rest" using "1.prems"(6) by simp
  have at2: "drop (p + length (redis_bulk k)) d = redis_bulk v @ bulks as @ rest" by (rule redis_bulk_drop(4) [OF at])
  have n: "rnarg r = of_nat (Suc (Suc (length as)))" "Suc (Suc (length as)) < 2 ^ 32"
    using "1.prems"(4,10) by simp_all
  have n0: "rnarg r \<noteq> 0" "rnarg ?r1 \<noteq> 0" "rnarg ?r2 = of_nat (length as)"
    using n u32_of_nat_0 [of "Suc (Suc (length as))"] u32_of_nat_0 [of "Suc (length as)"] by simp_all
  have odd: "narg r mod 2 \<noteq> 0" using "1.prems"(7) by (simp add: word_unat_eq_iff unat_mod odd_iff_mod_2_eq_one)
  have "parsed sz mem bid d ?r2 ?q2 (kv_keys_at bid (p + length (redis_bulk k) + length (redis_bulk v)) as)
      (p + length (bulks (k # v # as)) - 1)"
  proof (cases "as = []")
    case True
    have "parsed sz mem bid d ?r2 ?q2 [] ?q2"
      using lf_at [OF at2] n0(3) excl "1.prems"(1) True
      by (intro parsed_done) (simp_all add: redis_req_step_def redis_req_arg1_lf_def)
    then show ?thesis using True by (simp add: add.assoc)
  next
    case False
    then have "rnarg ?r2 \<noteq> 0" using n0(3) n(2) u32_of_nat_0 [of "length as"] by simp
    then have mv: "redis_req_step sz mem bid d ?r2 ?q2 = Move (?r2\<lparr>state := SW_KEY_LEN\<rparr>) (?q2 + 1)"
      using lf_at [OF at2] excl "1.prems"(1) by (simp add: redis_req_step_def redis_req_arg1_lf_def)
    have rest: "parsed sz mem bid d (?r2\<lparr>state := SW_KEY_LEN\<rparr>) (?q2 + 1)
        (kv_keys_at bid (p + length (redis_bulk k) + length (redis_bulk v)) as) (p + length (bulks (k # v # as)) - 1)"
      using "1.IH" [of "?r2\<lparr>state := SW_KEY_LEN\<rparr>"] False "1.prems"(1,3,4,5,7) n0(3) redis_bulk_drop(4) [OF at2]
      by (simp add: add.assoc)
    show ?thesis by (rule parsed_move [OF mv lf_at(1) [OF at2] _ _ rest]) simp_all
  qed
  then have rest: "parsed sz mem bid d ?r1 (?q + 1)
      (kv_keys_at bid (p + length (redis_bulk k) + length (redis_bulk v)) as) (p + length (bulks (k # v # as)) - 1)"
    using "1.prems"(4) parsed_arg(1) [OF at2 _ n0(2)] by simp
  have mv: "redis_req_step sz mem bid d (after_key bid p k r) ?q = Move ?r1 (?q + 1)"
    using lf_at [OF at] excl "1.prems"(1) odd by (simp add: redis_req_step_def redis_req_key_lf_def)
  have "parsed sz mem bid d (after_key bid p k r) ?q
      (kv_keys_at bid (p + length (redis_bulk k) + length (redis_bulk v)) as) (p + length (bulks (k # v # as)) - 1)"
    by (rule parsed_move [OF mv lf_at(1) [OF at] _ _ rest]) simp_all
  then show ?case
    using parsed_key [where mem = mem and sz = sz, OF at _ _ assms(7) "1.prems"(8,9) n0(1)] "1.prems"(4,5) by simp
qed simp_all

text \<open>One argument and the LF behind it.\<close>

lemma parsed_arg_done:
  assumes at: "drop p d = redis_bulk a @ rest" and r: "token r = None" "rnarg r \<noteq> 0" "length a < 2 ^ 32"
  shows "state r = SW_ARG1_LEN \<Longrightarrow>
      redis_req_arg1_lf LF (after_arg SW_ARG1_LF r) (p + length (redis_bulk a) - 1) = Done (after_arg SW_ARG1_LF r) (p + length (redis_bulk a) - 1) \<Longrightarrow>
      parsed sz mem bid d r p [] (p + length (redis_bulk a) - 1)"
    and "state r = SW_ARG2_LEN \<Longrightarrow> \<not> redis_argeval r \<Longrightarrow>
      redis_req_arg2_lf LF (after_arg SW_ARG2_LF r) (p + length (redis_bulk a) - 1) = Done (after_arg SW_ARG2_LF r) (p + length (redis_bulk a) - 1) \<Longrightarrow>
      parsed sz mem bid d r p [] (p + length (redis_bulk a) - 1)"
    and "state r = SW_ARG3_LEN \<Longrightarrow>
      redis_req_arg3_lf LF (after_arg SW_ARG3_LF r) (p + length (redis_bulk a) - 1) = Done (after_arg SW_ARG3_LF r) (p + length (redis_bulk a) - 1) \<Longrightarrow>
      parsed sz mem bid d r p [] (p + length (redis_bulk a) - 1)"
  subgoal by (rule parsed_arg(1) [OF assms]) (simp, rule parsed_done, simp_all add: redis_req_step_def lf_at [OF at, simplified])
  subgoal by (rule parsed_arg(2) [OF assms]) (simp, simp, rule parsed_done, simp_all add: redis_req_step_def lf_at [OF at, simplified])
  subgoal by (rule parsed_arg(3) [OF assms]) (simp, rule parsed_done, simp_all add: redis_req_step_def lf_at [OF at, simplified])
  done

lemma parsed_arg_move:
  assumes at: "drop p d = redis_bulk a @ rest" and r: "token r = None" "rnarg r \<noteq> 0" "length a < 2 ^ 32"
  shows "state r = SW_ARG1_LEN \<Longrightarrow>
      redis_req_arg1_lf LF (after_arg SW_ARG1_LF r) (p + length (redis_bulk a) - 1) = Move ((after_arg SW_ARG1_LF r)\<lparr>state := s\<rparr>) (p + length (redis_bulk a)) \<Longrightarrow>
      parsed sz mem bid d ((after_arg SW_ARG1_LF r)\<lparr>state := s\<rparr>) (p + length (redis_bulk a)) ks q \<Longrightarrow> parsed sz mem bid d r p ks q"
    and "state r = SW_ARG2_LEN \<Longrightarrow> \<not> redis_argeval r \<Longrightarrow>
      redis_req_arg2_lf LF (after_arg SW_ARG2_LF r) (p + length (redis_bulk a) - 1) = Move ((after_arg SW_ARG2_LF r)\<lparr>state := s\<rparr>) (p + length (redis_bulk a)) \<Longrightarrow>
      parsed sz mem bid d ((after_arg SW_ARG2_LF r)\<lparr>state := s\<rparr>) (p + length (redis_bulk a)) ks q \<Longrightarrow> parsed sz mem bid d r p ks q"
  subgoal by (rule parsed_arg(1) [OF assms], assumption, rule parsed_move)
      (auto simp: redis_req_step_def lf_at [OF at, simplified])
  subgoal by (rule parsed_arg(2) [OF assms], assumption, assumption, rule parsed_move)
      (auto simp: redis_req_step_def lf_at [OF at, simplified])
  done

lemma u32_Suc: "Suc n < 2 ^ 32 \<Longrightarrow> (of_nat (Suc n) :: u32) \<noteq> 0" "n < 2 ^ 32 \<Longrightarrow> n \<noteq> 0 \<Longrightarrow> (of_nat n :: u32) \<noteq> 0"
  using u32_of_nat_0 by blast+

lemma parsed_arg1:
  assumes "redis_arg1 r" "short [a]" "drop p d = bulks [a] @ rest"
    and "state r = SW_ARG1_LEN" "token r = None" "rnarg r = 1"
  shows "parsed sz mem bid d r p [] (p + length (bulks [a]) - 1)"
  using assms parsed_arg_done(1) [of p d a rest r] redis_class_excl(3) [OF assms(1)]
  by (simp add: redis_req_arg1_lf_def)

lemma parsed_arg2:
  assumes c: "redis_arg2 r" and s: "short [a, b]" and at: "drop p d = bulks [a, b] @ rest"
    and r: "state r = SW_ARG1_LEN" "token r = None" "rnarg r = 2"
  shows "parsed sz mem bid d r p [] (p + length (bulks [a, b]) - 1)"
proof -
  note excl = redis_class_excl(4) [OF c]
  have a1: "drop p d = redis_bulk a @ redis_bulk b @ rest" using at by simp
  let ?r = "(after_arg SW_ARG1_LF r)\<lparr>state := SW_ARG2_LEN\<rparr>"
  have "parsed sz mem bid d ?r (p + length (redis_bulk a)) [] (p + length (bulks [a, b]) - 1)"
    using parsed_arg_done(2) [OF redis_bulk_drop(4) [OF a1], of ?r] excl c s r(3)
    by (simp add: redis_req_arg2_lf_def add.assoc)
  then show ?thesis
    using parsed_arg_move(1) [OF a1 r(2) _ _ r(1), of SW_ARG2_LEN] excl c s r(3)
    by (simp add: redis_req_arg1_lf_def)
qed

lemma parsed_arg3:
  assumes c: "redis_arg3 r" and s: "short [a, b, e]" and at: "drop p d = bulks [a, b, e] @ rest"
    and r: "state r = SW_ARG1_LEN" "token r = None" "rnarg r = 3"
  shows "parsed sz mem bid d r p [] (p + length (bulks [a, b, e]) - 1)"
proof -
  note excl = redis_class_excl(5) [OF c]
  have a1: "drop p d = redis_bulk a @ redis_bulk b @ redis_bulk e @ rest" using at by simp
  note a2 = redis_bulk_drop(4) [OF a1]
  let ?r = "(after_arg SW_ARG1_LF r)\<lparr>state := SW_ARG2_LEN\<rparr>"
  let ?s = "(after_arg SW_ARG2_LF ?r)\<lparr>state := SW_ARG3_LEN\<rparr>"
  have "parsed sz mem bid d ?s (p + length (redis_bulk a) + length (redis_bulk b)) [] (p + length (bulks [a, b, e]) - 1)"
    using parsed_arg_done(3) [OF redis_bulk_drop(4) [OF a2], of ?s] excl c s r(3)
    by (simp add: redis_req_arg3_lf_def add.assoc)
  then have "parsed sz mem bid d ?r (p + length (redis_bulk a)) [] (p + length (bulks [a, b, e]) - 1)"
    using parsed_arg_move(2) [OF a2, of ?r SW_ARG3_LEN] excl c s r(3)
    by (simp add: redis_req_arg2_lf_def)
  then show ?thesis
    using parsed_arg_move(1) [OF a1 r(2) _ _ r(1), of SW_ARG2_LEN] excl c s r(3)
    by (simp add: redis_req_arg1_lf_def)
qed

lemma parsed_arg1_argn:
  assumes c: "redis_argn r" and s: "short (a # as)" and at: "drop p d = bulks (a # as) @ rest"
    and r: "state r = SW_ARG1_LEN" "token r = None" "rnarg r = of_nat (length (a # as))"
  shows "parsed sz mem bid d r p [] (p + length (bulks (a # as)) - 1)"
proof -
  note excl = redis_class_excl(6) [OF c]
  have a1: "drop p d = redis_bulk a @ bulks as @ rest" using at by simp
  have n: "rnarg r \<noteq> 0" "length a < 2 ^ 32" using s r(3) u32_Suc [of "length as"] by simp_all
  show ?thesis
  proof (cases "as = []")
    case True
    then show ?thesis
      using parsed_arg_done(1) [OF a1 r(2) n r(1)] excl c r(3) by (simp add: redis_req_arg1_lf_def)
  next
    case False
    let ?r = "(after_arg SW_ARG1_LF r)\<lparr>state := SW_ARGN_LEN\<rparr>"
    have "rnarg ?r = of_nat (length as)" "rnarg ?r \<noteq> 0"
      using r(3) u32_Suc(2) [of "length as"] s False by (simp_all add: short_def)
    moreover have "parsed sz mem bid d ?r (p + length (redis_bulk a)) [] (p + length (bulks (a # as)) - 1)"
      using parsed_argn [of ?r as "p + length (redis_bulk a)" d rest sz mem bid] redis_bulk_drop(4) [OF a1] s c False
        calculation(1) by (simp add: add.assoc)
    ultimately show ?thesis
      using parsed_arg_move(1) [OF a1 r(2) n r(1), of SW_ARGN_LEN] excl c by (simp add: redis_req_arg1_lf_def)
  qed
qed

text \<open>\<open>EVAL\<close>: the script, the number of keys, one key and any further arguments.\<close>

lemma run_arg2_eval:
  assumes at: "drop p d = redis_bulk n @ rest" and r: "token r = None" "rnarg r \<noteq> 0" "state r = SW_ARG2_LEN"
    and c: "redis_argeval r" and n: "length n < 2 ^ 32" "n \<noteq> []" "eval_nkey 0 n = Some v" "v \<noteq> 0"
  shows "parse_run (redis_req_step sz mem bid) d r p =
     parse_run (redis_req_step sz mem bid) d (r\<lparr>rnarg := rnarg r - 1, rlen := 0, token := None, state := SW_ARG2_LF\<rparr>)
       (p + length (redis_bulk n) - 1)"
proof -
  let ?R = "redis_req_step sz mem bid" and ?q = "p + length (redis_len_line (length n))"
  let ?r1 = "r\<lparr>rlen := of_nat (length n), rnarg := rnarg r - 1, token := None, state := SW_ARG2\<rparr>"
  note at' = redis_bulk_drop [OF at]
  have "parse_run ?R d r p = parse_run ?R d ?r1 ?q"
    using r
    by (intro run_len [where step = ?R and bad = bad_arg_len and S = SW_ARG2_LEN and ?S1.0 = SW_ARG2_LEN_LF, OF at'(1)])
      (simp_all add: redis_req_step_def redis_req_simple_defs bad_arg_len_def)
  also have "\<dots> = parse_run ?R d (r\<lparr>rnarg := rnarg r - 1, rlen := 0, token := None, state := SW_ARG2_LF\<rparr>) (?q + length n + 1)"
  proof -
    have cr: "drop (?q + length n) d = CR # LF # rest"
      using at'(2) by (metis append_eq_conv_conj drop_drop add.commute)
    have "take (length n) (drop ?q d) = n" using at'(2) by simp
    then show ?thesis
      using dropD [OF cr] n c
      by (subst parse_run_step) (auto simp: redis_req_step_def redis_req_arg2_def Let_def)
  qed
  finally show ?thesis by (simp add: length_redis_bulk add.assoc)
qed

lemma parsed_eval_key:
  assumes c: "redis_argeval r" and s: "short (k # as)" and at: "drop p d = bulks (k # as) @ rest"
    and k: "length k < sz" "mem (length (keys r))"
    and r: "state r = SW_KEY_LEN" "token r = None" "rnarg r = of_nat (length (k # as))"
  shows "parsed sz mem bid d r p [key_at bid p k] (p + length (bulks (k # as)) - 1)"
proof -
  let ?q = "p + length (redis_bulk k) - 1" and ?r = "(after_key bid p k r)\<lparr>state := SW_ARGN_LEN\<rparr>"
  note excl = redis_class_excl(9) [OF c]
  have a1: "drop p d = redis_bulk k @ bulks as @ rest" using at by simp
  have n: "rnarg r \<noteq> 0" "length k < 2 ^ 32" "rnarg ?r = of_nat (length as)"
    using s r(3) u32_Suc [of "length as"] by simp_all
  have "parsed sz mem bid d (after_key bid p k r) ?q [] (p + length (bulks (k # as)) - 1)"
  proof (cases "as = []")
    case True
    then show ?thesis
      using parsed_done [of sz mem bid d "after_key bid p k r" ?q] lf_at [OF a1] excl c n(3)
      by (simp add: redis_req_step_def redis_req_key_lf_def)
  next
    case False
    then have "rnarg ?r \<noteq> 0" using n(3) u32_Suc(2) [of "length as"] s by (simp add: short_def)
    then have mv: "redis_req_step sz mem bid d (after_key bid p k r) ?q = Move ?r (p + length (redis_bulk k))"
      using lf_at [OF a1] excl c by (simp add: redis_req_step_def redis_req_key_lf_def)
    have rest: "parsed sz mem bid d ?r (p + length (redis_bulk k)) [] (p + length (bulks (k # as)) - 1)"
      using parsed_argn [of ?r as "p + length (redis_bulk k)" d rest sz mem bid] redis_bulk_drop(4) [OF a1] s c False n(3)
      by (simp add: add.assoc)
    show ?thesis by (rule parsed_move [OF mv lf_at(1) [OF a1] _ _ rest]) simp_all
  qed
  then show ?thesis by (rule parsed_key [where mem = mem and sz = sz, OF a1 k(1) n(2) k(2) r(1,2) n(1)])
qed

lemma parsed_argeval:
  assumes c: "redis_argeval r" and s: "short (scr # n # k # as)" and at: "drop p d = bulks (scr # n # k # as) @ rest"
    and k: "length k < sz" "mem (length (keys r))" and n: "n \<noteq> []" "eval_nkey 0 n = Some v" "v \<noteq> 0"
    and r: "state r = SW_ARG1_LEN" "token r = None" "rnarg r = of_nat (length (scr # n # k # as))"
  shows "parsed sz mem bid d r p [key_at bid (p + length (redis_bulk scr) + length (redis_bulk n)) k]
     (p + length (bulks (scr # n # k # as)) - 1)"
proof -
  note excl = redis_class_excl(9) [OF c]
  have a1: "drop p d = redis_bulk scr @ redis_bulk n @ bulks (k # as) @ rest" using at by simp
  note a2 = redis_bulk_drop(4) [OF a1]
  let ?p1 = "p + length (redis_bulk scr)" and ?p2 = "p + length (redis_bulk scr) + length (redis_bulk n)"
  let ?m = "length as"
  let ?r1 = "(after_arg SW_ARG1_LF r)\<lparr>state := SW_ARG2_LEN\<rparr>"
  let ?r2 = "?r1\<lparr>rnarg := rnarg ?r1 - 1, rlen := 0, token := None, state := SW_ARG2_LF\<rparr>"
  have len: "Suc (Suc (Suc ?m)) < 2 ^ 32" "length scr < 2 ^ 32" "length n < 2 ^ 32" using s by auto
  have rn: "rnarg r = of_nat (Suc (Suc (Suc ?m)))" "rnarg ?r1 = of_nat (Suc (Suc ?m))" "rnarg ?r2 = of_nat (Suc ?m)"
    using r(3) by simp_all
  have nz4: "\<not> rnarg ?r2 < 1"
    unfolding rn(3) word_less_nat_alt using len(1) by (simp add: unsigned_of_nat take_bit_nat_eq_self del: of_nat_Suc)
  have nz: "rnarg r \<noteq> 0" "rnarg ?r1 \<noteq> 0" "\<not> rnarg ?r1 < 2"
    unfolding rn word_less_nat_alt using len(1) u32_Suc(1) [of "Suc (Suc ?m)"] u32_Suc(1) [of "Suc ?m"]
    by (simp_all add: unsigned_of_nat take_bit_nat_eq_self del: of_nat_Suc)
  have "parsed sz mem bid d (?r2\<lparr>state := SW_KEY_LEN\<rparr>) ?p2 [key_at bid ?p2 k] (p + length (bulks (scr # n # k # as)) - 1)"
    using parsed_eval_key [of "?r2\<lparr>state := SW_KEY_LEN\<rparr>" k as ?p2 d rest sz mem bid] redis_bulk_drop(4) [OF a2] c s k rn(3)
    by (simp add: add.assoc)
  then have "parsed sz mem bid d ?r2 (?p2 - 1) [key_at bid ?p2 k] (p + length (bulks (scr # n # k # as)) - 1)"
    using lf_at [OF a2] excl c nz4
    by (rule_tac parsed_move [where ?r1.0 = "?r2\<lparr>state := SW_KEY_LEN\<rparr>" and ?p1.0 = ?p2])
      (simp_all add: redis_req_step_def redis_req_arg2_lf_def)
  then have "parsed sz mem bid d ?r1 ?p1 [key_at bid ?p2 k] (p + length (bulks (scr # n # k # as)) - 1)"
    using run_arg2_eval [OF a2 _ nz(2) _ _ len(3) n, of sz mem bid] c by (simp add: parsed_def)
  then show ?thesis
    using parsed_arg_move(1) [OF a1 r(2) nz(1) len(2) r(1), of SW_ARG2_LEN sz mem bid] excl c nz(3)
    by (simp add: redis_req_arg1_lf_def)
qed

subsection \<open>What a command's keys are\<close>

text \<open>
  The keys of a command with the arguments \<open>args\<close>, or \<open>None\<close> if their number does not fit
  the command: the contract of the parser.
\<close>

definition redis_req_keys :: "redis_req \<Rightarrow> bytes list \<Rightarrow> bytes list option" where
  "redis_req_keys r args =
     (if redis_argz r then (if args = [] then Some [] else None)
      else if redis_arg0 r then (if length args = 1 then Some [hd args] else None)
      else if redis_arg1 r then (if length args = 2 then Some [hd args] else None)
      else if redis_arg2 r then (if length args = 3 then Some [hd args] else None)
      else if redis_arg3 r then (if length args = 4 then Some [hd args] else None)
      else if redis_argn r then (if args \<noteq> [] then Some [hd args] else None)
      else if redis_argx r then (if args \<noteq> [] then Some args else None)
      else if redis_argkvx r then (if args \<noteq> [] \<and> even (length args) then Some (evens args) else None)
      else if redis_argeval r then
        (case args of
           scr # n # k # as \<Rightarrow> (case eval_nkey 0 n of
               Some v \<Rightarrow> if n \<noteq> [] \<and> v \<noteq> 0 then Some [k] else None | None \<Rightarrow> None)
         | _ \<Rightarrow> None)
      else None)"

lemma key_bytes_at: "drop p d = redis_bulk k @ rest \<Longrightarrow> key_bytes d (key_at bid p k) = k"
  using redis_bulk_drop(2) [of p d k rest] by (simp add: key_bytes_def key_at_def)

lemma keys_at_bytes: "drop p d = bulks ks @ rest \<Longrightarrow> map (key_bytes d) (keys_at bid p ks) = ks"
proof (induction ks arbitrary: p)
  case (Cons k ks)
  then have "drop p d = redis_bulk k @ bulks ks @ rest" by simp
  from key_bytes_at [OF this] Cons.IH [OF redis_bulk_drop(4) [OF this]] show ?case by simp
qed simp

lemma kv_keys_at_bytes: "drop p d = bulks as @ rest \<Longrightarrow> map (key_bytes d) (kv_keys_at bid p as) = evens as"
proof (induction bid p as rule: kv_keys_at.induct)
  case (1 bid p k v as)
  then have at: "drop p d = redis_bulk k @ redis_bulk v @ bulks as @ rest" by simp
  from redis_bulk_drop(4) [OF redis_bulk_drop(4) [OF at]] key_bytes_at [OF at] "1.IH" show ?case by simp
qed simp_all

lemma keys_at_buf: "\<forall>kp \<in> set (keys_at bid p ks). kp_buf kp = bid"
  by (induction ks arbitrary: p) (auto simp: key_at_def)

lemma kv_keys_at_buf: "\<forall>kp \<in> set (kv_keys_at bid p as). kp_buf kp = bid"
  by (induction bid p as rule: kv_keys_at.induct) (simp_all add: key_at_def)

text \<open>Commands with one key in front.\<close>

lemma parsed_key_args:
  assumes c: "redis_arg0 r \<and> length as = 0 \<or> redis_arg1 r \<and> length as = 1 \<or> redis_arg2 r \<and> length as = 2 \<or>
      redis_arg3 r \<and> length as = 3 \<or> redis_argn r"
    and s: "short (k # as)" and at: "drop p d = bulks (k # as) @ rest"
    and k: "length k < sz" "mem (length (keys r))"
    and r: "state r = SW_KEY_LEN" "token r = None" "rnarg r = of_nat (length (k # as))"
  shows "parsed sz mem bid d r p [key_at bid p k] (p + length (bulks (k # as)) - 1)"
proof -
  let ?q = "p + length (redis_bulk k) - 1" and ?r = "(after_key bid p k r)\<lparr>state := SW_ARG1_LEN\<rparr>"
  let ?e = "p + length (bulks (k # as)) - 1"
  have a1: "drop p d = redis_bulk k @ bulks as @ rest" using at by simp
  note a2 = redis_bulk_drop(4) [OF a1]
  have n: "rnarg r \<noteq> 0" "length k < 2 ^ 32" "rnarg ?r = of_nat (length as)"
    using s r(3) u32_Suc [of "length as"] by simp_all
  have "parsed sz mem bid d (after_key bid p k r) ?q [] ?e"
  proof (cases "as = []")
    case True
    then show ?thesis
      using parsed_done [of sz mem bid d "after_key bid p k r" ?q] lf_at [OF a1] c n(3)
        redis_class_excl(6) [of r] by (auto simp: redis_req_step_def redis_req_key_lf_def)
  next
    case False
    define v where "v = rnarg (after_key bid p k r)"
    have v: "v = of_nat (length as)" "v \<noteq> 0"
      using n(3) u32_Suc(2) [of "length as"] s False by (simp_all add: v_def short_def)
    have "redis_req_key_lf LF (after_key bid p k r) ?q = Move ?r (?q + 1)"
      unfolding redis_req_key_lf_def v_def [symmetric]
      using c v False by (elim disjE conjE) (simp, (frule redis_class_excl, simp)+)
    then have mv: "redis_req_step sz mem bid d (after_key bid p k r) ?q = Move ?r (p + length (redis_bulk k))"
      using lf_at [OF a1] by (simp add: redis_req_step_def)
    have "parsed sz mem bid d ?r (p + length (redis_bulk k)) [] ?e"
      using c
    proof (elim disjE conjE)
      assume c: "redis_arg1 r" "length as = 1"
      then obtain a where as: "as = [a]" by (auto simp: length_Suc_conv)
      then show ?thesis using parsed_arg1 [of ?r a "p + length (redis_bulk k)" d rest sz mem bid] s a2 n(3) c(1)
        by (simp add: add.assoc)
    next
      assume c: "redis_arg2 r" "length as = 2"
      then obtain a b where as: "as = [a, b]" by (auto simp: length_Suc_conv numeral_2_eq_2)
      then show ?thesis using parsed_arg2 [of ?r a b "p + length (redis_bulk k)" d rest sz mem bid] s a2 n(3) c(1)
        by (simp add: add.assoc)
    next
      assume c: "redis_arg3 r" "length as = 3"
      then obtain a b e where as: "as = [a, b, e]" by (auto simp: length_Suc_conv numeral_3_eq_3)
      then show ?thesis using parsed_arg3 [of ?r a b e "p + length (redis_bulk k)" d rest sz mem bid] s a2 n(3) c(1)
        by (simp add: add.assoc)
    next
      assume c: "redis_argn r"
      from False obtain a as' where as: "as = a # as'" by (cases as) auto
      then show ?thesis using parsed_arg1_argn [of ?r a as' "p + length (redis_bulk k)" d rest sz mem bid] s a2 n(3) c
        by (simp add: add.assoc)
    qed (use False in simp)
    from parsed_move [OF mv lf_at(1) [OF a1] _ _ this] show ?thesis by simp
  qed
  then show ?thesis by (rule parsed_key [where mem = mem and sz = sz, OF a1 k(1) n(2) k(2) r(1,2) n(1)])
qed

lemma redis_req_keys_cases:
  assumes "redis_req_keys r args = Some ks" "\<not> redis_argz r"
  obtains (key) k as where "args = k # as" "ks = [k]"
      "redis_arg0 r \<and> length as = 0 \<or> redis_arg1 r \<and> length as = 1 \<or> redis_arg2 r \<and> length as = 2 \<or>
       redis_arg3 r \<and> length as = 3 \<or> redis_argn r" "\<not> redis_argeval r"
    | (vector) "redis_argx r" "args \<noteq> []" "ks = args" "\<not> redis_argeval r"
    | (pairs) "redis_argkvx r" "args \<noteq> []" "even (length args)" "ks = evens args" "\<not> redis_argeval r"
    | (eval) scr n k as v where "redis_argeval r" "args = scr # n # k # as" "ks = [k]" "n \<noteq> []"
        "eval_nkey 0 n = Some v" "v \<noteq> 0"
proof (cases "redis_argeval r")
  case True
  note excl = redis_class_excl(9) [OF True]
  from assms True excl show ?thesis
    by (auto simp: redis_req_keys_def split: list.splits option.splits if_splits intro: eval)
next
  case False
  show ?thesis
  proof (cases "redis_argx r \<or> redis_argkvx r")
    case True
    then show ?thesis
      using assms False redis_class_excl(7,8) [of r]
      by (auto simp: redis_req_keys_def split: if_splits intro: vector pairs)
  next
    case nx: False
    show ?thesis
    proof (cases args)
      case (Cons k as)
      with assms False nx show ?thesis
        by (intro key [of k as]) (auto simp: redis_req_keys_def split: if_splits)
    qed (use assms False nx in \<open>auto simp: redis_req_keys_def split: if_splits\<close>)
  qed
qed

lemma parsed_args:
  assumes ks: "redis_req_keys r args = Some ks" and s: "short args" "Suc (length args) < 2 ^ 32"
    and k: "\<forall>k \<in> set ks. length k < sz" "\<And>n. mem n"
    and at: "drop p d = LF # bulks args @ rest"
    and r: "state r = SW_REQ_TYPE_LF" "token r = None" "rnarg r = of_nat (length args)"
      "narg r = of_nat (Suc (length args))"
  shows "\<exists>kps. parsed sz mem bid d r p kps (p + length (bulks args)) \<and> map (key_bytes d) kps = ks \<and>
    (\<forall>kp \<in> set kps. kp_buf kp = bid)"
proof (cases "redis_argz r")
  case True
  then have "args = []" "ks = []" using ks by (auto simp: redis_req_keys_def split: if_splits)
  moreover have "parsed sz mem bid d r p [] p"
    using dropD [OF at] True r(1) by (intro parsed_done) (simp_all add: redis_req_step_def redis_req_type_lf_def)
  ultimately show ?thesis by auto
next
  case False
  define r1 where "r1 = r\<lparr>state := if redis_argeval r then SW_ARG1_LEN else SW_KEY_LEN\<rparr>"
  have r1: "token r1 = None" "rnarg r1 = of_nat (length args)" "hdr r1 = hdr r" "keys r1 = keys r" "narg r1 = narg r"
    using r by (simp_all add: r1_def)
  have ne: "args \<noteq> []"
    using ks False by (auto simp: redis_req_keys_def split: if_splits)
  have "narg r \<noteq> 1" unfolding r(4) using u32_of_nat_eq [of "Suc (length args)" 1] s(2) ne by simp
  then have mv: "redis_req_step sz mem bid d r p = Move r1 (p + 1)"
    using dropD [OF at] False r(1) by (simp add: redis_req_step_def redis_req_type_lf_def r1_def)
  have at1: "drop (p + 1) d = bulks args @ rest" using dropD(3) [OF at] by simp
  let ?e = "p + length (bulks args)"
  have "\<exists>kps. parsed sz mem bid d r1 (p + 1) kps (p + 1 + length (bulks args) - 1) \<and> map (key_bytes d) kps = ks \<and>
    (\<forall>kp \<in> set kps. kp_buf kp = bid)"
    using ks False
  proof (cases rule: redis_req_keys_cases)
    case (key k as)
    have "parsed sz mem bid d r1 (p + 1) [key_at bid (p + 1) k] (p + 1 + length (bulks args) - 1)"
      unfolding key(1)
      by (rule parsed_key_args [where mem = mem]) (use key s k at1 r1 in \<open>simp_all add: r1_def\<close>)
    then show ?thesis using key_bytes_at [of "p + 1" d k] at1 key(1,2) by (auto simp: key_at_def)
  next
    case vector
    have "parsed sz mem bid d r1 (p + 1) (keys_at bid (p + 1) args) (p + 1 + length (bulks args) - 1)"
      by (rule parsed_argx [where mem = mem]) (use vector s k at1 r1 in \<open>simp_all add: r1_def\<close>)
    then show ?thesis using keys_at_bytes [OF at1] keys_at_buf vector(3) by blast
  next
    case pairs
    have "odd (unat (narg r1))" using pairs(3) r(4) s(2) r1(5) by (simp del: of_nat_Suc)
    then have "parsed sz mem bid d r1 (p + 1) (kv_keys_at bid (p + 1) args) (p + 1 + length (bulks args) - 1)"
      by (intro parsed_argkvx [where mem = mem]) (use pairs s k at1 r1 in \<open>simp_all add: r1_def\<close>)
    then show ?thesis using kv_keys_at_bytes [OF at1] kv_keys_at_buf pairs(4) by blast
  next
    case (eval scr n key as v)
    let ?p = "p + 1 + length (redis_bulk scr) + length (redis_bulk n)"
    have "parsed sz mem bid d r1 (p + 1) [key_at bid ?p key] (p + 1 + length (bulks args) - 1)"
      unfolding eval(2)
      by (rule parsed_argeval [where mem = mem and v = v]) (use eval s k at1 r1 in \<open>simp_all add: r1_def\<close>)
    moreover have "drop ?p d = redis_bulk key @ bulks as @ rest"
      using redis_bulk_drop(4) [OF redis_bulk_drop(4), of "p + 1" d scr n "redis_bulk key @ bulks as @ rest"] at1 eval(2)
      by simp
    ultimately show ?thesis using key_bytes_at [of ?p d key] eval(3) by (auto simp: key_at_def)
  qed
  then show ?thesis using parsed_move [OF mv dropD(1) [OF at]] r1 by auto
qed

lemma redis_commands_nonempty: "map_of redis_commands (map to_lower w) = Some t \<Longrightarrow> w \<noteq> []"
  by (auto simp: redis_command_defs)

lemma redis_req_keys_type: "mtype r = mtype r' \<Longrightarrow> redis_req_keys r args = redis_req_keys r' args"
  by (simp add: redis_req_keys_def redis_class_defs cong: list.case_cong option.case_cong)

lemma redis_request_run:
  assumes cmd: "map_of redis_commands (map to_lower w) = Some t"
    and ks: "redis_req_keys ((fresh_msg SW_START)\<lparr>mtype := t\<rparr>) args = Some ks"
    and s: "short (w # args)" and k: "\<forall>k \<in> set ks. length k < sz" and mem: "\<forall>n. mem n"
    and b: "mdata b = pre @ redis_encode (w # args) @ rest"
    and r: "r = (fresh_msg SW_START)\<lparr>pos := length pre\<rparr>"
  shows "\<exists>r'. redis_parse_req sz mem b r = Some r' \<and> result r' = MSG_PARSE_OK \<and> mtype r' = t \<and>
     narg r' = of_nat (Suc (length args)) \<and> pos r' = length pre + length (redis_encode (w # args)) \<and>
     map (key_bytes (mdata b)) (keys r') = ks \<and> (\<forall>kp \<in> set (keys r'). kp_buf kp = mid b) \<and>
     quit r' = (t = MSG_REQ_REDIS_QUIT) \<and> noforward r' = (t \<in> {MSG_REQ_REDIS_PING, MSG_REQ_REDIS_AUTH})"
proof -
  let ?R = "redis_req_step sz mem (mid b)" and ?d = "mdata b" and ?n = "Suc (length args)"
  let ?p1 = "length pre + length (show_nat ?n) + 3"
  let ?r1 = "r\<lparr>narg_start := Some (mid b, length pre), rnarg := of_nat ?n, narg := of_nat ?n,
      narg_end := Some (mid b, length pre + 1 + length (show_nat ?n)), token := None, state := SW_REQ_TYPE_LEN\<rparr>"
  let ?p2 = "?p1 + length (redis_bulk w) - 1"
  let ?r2 = "(with_type t (?r1\<lparr>rnarg := rnarg ?r1 - 1, rlen := 0, token := None\<rparr>))\<lparr>state := SW_REQ_TYPE_LF\<rparr>"
  have n: "?n < 2 ^ 32" and w: "length w < 2 ^ 32" "short args" using s by auto
  have enc: "redis_encode (w # args) = CHR ''*'' # show_nat ?n @ [CR, LF] @ redis_bulk w @ bulks args"
    by (simp add: redis_encode_def bulks_def)
  have at: "drop (length pre) ?d = CHR ''*'' # show_nat ?n @ [CR, LF] @ redis_bulk w @ bulks args @ rest"
    using b enc by simp
  have at1: "drop ?p1 ?d = redis_bulk w @ bulks args @ rest" using b enc by (simp add: numeral_3_eq_3)
  have "parse_run ?R ?d r (length pre) = parse_run ?R ?d ?r1 ?p1"
    using run_narg [OF at _ n] r by (simp add: fresh_msg_def)
  also have "\<dots> = parse_run ?R ?d ?r2 ?p2"
    using run_type [OF at1 redis_commands_nonempty [OF cmd] w(1) cmd, of ?r1 sz mem "mid b"] u32_Suc(1) [of "length args"] n
    by simp
  finally have run: "parse_run ?R ?d r (length pre) = parse_run ?R ?d ?r2 ?p2" .
  have "redis_req_keys ?r2 args = Some ks"
    using ks redis_req_keys_type [of ?r2 "(fresh_msg SW_START)\<lparr>mtype := t\<rparr>"] by (simp add: with_type_def)
  then obtain kps where kps: "parsed sz mem (mid b) ?d ?r2 ?p2 kps (?p2 + length (bulks args))"
    "map (key_bytes ?d) kps = ks" "\<forall>kp \<in> set kps. kp_buf kp = mid b"
    using parsed_args [of ?r2 args ks sz mem ?p2 ?d rest "mid b"] w(2) n k mem redis_bulk_drop(3) [OF at1]
    by (auto simp: with_type_def)
  then obtain r' where "parse_run ?R ?d r (length pre) = Some (Done r' (?p2 + length (bulks args)))"
    "keys r' = kps" "hdr r' = hdr ?r2"
    unfolding run parsed_def using r by (auto simp: with_type_def fresh_msg_def)
  moreover have "pos r = length pre" using r by simp
  ultimately show ?thesis
    using kps(2,3) enc r
    by (auto simp: redis_parse_req_def parse_with_def parse_run_def parse_done_def hdr_def with_type_def
        length_redis_bulk fresh_msg_def)
qed

text \<open>
  C1: the request parser inverts the protocol.  An encoded command, whatever its spelling and
  whatever follows it in the buffer, is accepted if the number of its arguments fits the
  command: the parser stops exactly behind it, with the command's type and argument count,
  and the key positions it recorded delimit exactly the keys of the command.
\<close>
theorem redis_parse_req_roundtrip:
  assumes cmd: "map_of redis_commands (map to_lower w) = Some t"
    and ks: "redis_req_keys ((fresh_msg SW_START)\<lparr>mtype := t\<rparr>) args = Some ks"
    and s: "short (w # args)" and k: "\<forall>k \<in> set ks. length k < sz" and mem: "\<forall>n. mem n"
    and b: "mdata b = pre @ redis_encode (w # args) @ rest"
    and r: "r = (fresh_msg SW_START)\<lparr>pos := length pre\<rparr>"
  shows "\<exists>r'. redis_parse_req sz mem b r = Some r' \<and> result r' = MSG_PARSE_OK \<and> mtype r' = t \<and>
     narg r' = of_nat (Suc (length args)) \<and> pos r' = length pre + length (redis_encode (w # args)) \<and>
     map (key_bytes (mdata b)) (keys r') = ks \<and> (\<forall>kp \<in> set (keys r'). kp_buf kp = mid b)"
  using redis_request_run [OF assms] by blast

lemma to_lower_example:
  "to_lower (CHR ''M'') = CHR ''m''" "to_lower (CHR ''G'') = CHR ''g''" "to_lower (CHR ''e'') = CHR ''e''"
  "to_lower (CHR ''t'') = CHR ''t''"
  by code_simp+

theorem redis_parse_req_roundtrip_witness:
  "\<exists>r'. redis_parse_req 16336 (\<lambda>n. True) (example_mbuf (''xy'' @ redis_encode [''MGet'', ''a'', ''bc''] @ ''z''))
       ((fresh_msg SW_START)\<lparr>pos := length ''xy''\<rparr>) = Some r' \<and>
     result r' = MSG_PARSE_OK \<and> mtype r' = MSG_REQ_REDIS_MGET \<and>
     narg r' = of_nat (Suc (length [''a'', ''bc''])) \<and>
     pos r' = length ''xy'' + length (redis_encode [''MGet'', ''a'', ''bc'']) \<and>
     map (key_bytes (mdata (example_mbuf (''xy'' @ redis_encode [''MGet'', ''a'', ''bc''] @ ''z'')))) (keys r') = [''a'', ''bc''] \<and>
     (\<forall>kp \<in> set (keys r'). kp_buf kp = mid (example_mbuf (''xy'' @ redis_encode [''MGet'', ''a'', ''bc''] @ ''z'')))"
  by (rule redis_parse_req_roundtrip [where pre = "''xy''" and rest = "''z''"])
    (simp_all add: example_mbuf_def redis_command_defs to_lower_example redis_req_keys_def redis_class_defs short_def)

end
