(* ===== verification/Receive.thy ===== *)
theory Receive
  imports Message Redis_Encoding
begin

text \<open>
  Receiving, \<^verbatim>\<open>nc_message.c\<close>, and reading from a socket, \<^verbatim>\<open>nc_connection.c\<close>: the bytes of a read are
  appended to the last buffer of the message that is being received, the parser runs, and
  a complete message is cut off behind its last byte and handed to the connection.  A
  message in this phase is its parser part, its chain of buffers and \<open>mlen\<close>.  The messages
  handed over are collected in a list, in order.  The callbacks \<open>recv_done\<close> and \<open>active\<close> of
  the connection are arguments; \<open>recv_done\<close> may set the error of the connection or end it.
\<close>

subsection \<open>Connections\<close>

text \<open>The fields of \<open>struct conn\<close> that receiving reads and writes.\<close>

record conn =
  c_err :: nat
  c_eof :: bool
  c_done :: bool
  recv_ready :: bool
  recv_bytes :: u64

text \<open>What \<open>read\<close> returns, and what \<open>conn_recv\<close> makes of it: bytes, \<open>NC_EAGAIN\<close> or \<open>NC_ERROR\<close>.\<close>

datatype read_result = Data bytes | Interrupted | Would_block | Read_error nat

datatype recv_result = Received_bytes bytes | Try_again | Recv_failed

text \<open>
  The results of the calls of \<open>read\<close>, in order; a call that is interrupted is repeated.  A
  read returns at most as many bytes as it is asked for.
\<close>

fun conn_recv :: "read_result list \<Rightarrow> nat \<Rightarrow> conn \<Rightarrow> (recv_result \<times> conn) option" where
  "conn_recv [] room c = None"
| "conn_recv (r # rs) room c =
     (if room = 0 \<or> \<not> recv_ready c then None
      else case r of
             Data d \<Rightarrow>
               if d \<noteq> [] then
                 Some (Received_bytes d, c\<lparr>recv_ready := \<not> length d < room, recv_bytes := recv_bytes c + of_nat (length d)\<rparr>)
               else Some (Received_bytes [], c\<lparr>recv_ready := False, c_eof := True\<rparr>)
           | Interrupted \<Rightarrow> conn_recv rs room c
           | Would_block \<Rightarrow> Some (Try_again, c\<lparr>recv_ready := False\<rparr>)
           | Read_error e \<Rightarrow> Some (Recv_failed, c\<lparr>recv_ready := False, c_err := e\<rparr>))"

subsection \<open>Parsing what was received\<close>

type_synonym 'st rx = "'st msg \<times> mbuf list \<times> u32"

text \<open>
  What one run of the parser leads to: a message handed to \<open>recv_done\<close> with the message that
  holds the bytes behind it, or the message still being received.
\<close>

datatype 'st parse_event =
    Received "'st rx" "'st rx option"
  | Waiting "'st rx"

text \<open>
  \<open>mem\<close> answers for the buffers, \<open>mem'\<close> for the next message; \<open>start\<close> is the first state of
  the parser and \<open>handler\<close> the callback \<open>recv_done\<close>.
\<close>

definition msg_parsed ::
  "(nat \<Rightarrow> bool) \<Rightarrow> bool \<Rightarrow> 'st \<Rightarrow> ('st rx \<Rightarrow> conn \<Rightarrow> conn) \<Rightarrow> 'st rx \<Rightarrow> conn \<Rightarrow> mbuf_pool
    \<Rightarrow> (rstatus \<times> 'st parse_event \<times> conn \<times> mbuf_pool) option" where
  "msg_parsed mem mem' start handler x c mp = (case x of (r, h, n) \<Rightarrow>
     if h = [] then None
     else if pos r = mlast (last h) then Some (NC_OK, Received x None, handler x c, mp)
     else (case mbuf_split (mem (next_chunk mp)) h (pos r) mp of
             None \<Rightarrow> None
           | Some (None, mp') \<Rightarrow> Some (NC_ENOMEM, Waiting x, c, mp')
           | Some (Some (h', nbuf), mp') \<Rightarrow>
               if \<not> mem' then Some (NC_ENOMEM, Waiting (r, h', n), c, mbuf_put nbuf mp')
               else
                 let k = mbuf_length nbuf;
                     nmsg = ((fresh_msg start)\<lparr>pos := mpos nbuf\<rparr>, mbuf_insert [] nbuf, k);
                     y = (r, h', n - k) in
                 Some (NC_OK, Received y (Some nmsg), handler y c, mp')))"

definition msg_repair ::
  "(nat \<Rightarrow> bool) \<Rightarrow> 'st rx \<Rightarrow> conn \<Rightarrow> mbuf_pool \<Rightarrow> (rstatus \<times> 'st parse_event \<times> conn \<times> mbuf_pool) option" where
  "msg_repair mem x c mp = (case x of (r, h, n) \<Rightarrow>
     (case mbuf_split (mem (next_chunk mp)) h (pos r) mp of
        None \<Rightarrow> None
      | Some (None, mp') \<Rightarrow> Some (NC_ENOMEM, Waiting x, c, mp')
      | Some (Some (h', nbuf), mp') \<Rightarrow> Some (NC_OK, Waiting (r\<lparr>pos := mpos nbuf\<rparr>, mbuf_insert h' nbuf, n), c, mp')))"

text \<open>\<open>errno\<close> is its value after a parse error.  An error of the connection overrides the status.\<close>

definition msg_parse ::
  "(mbuf \<Rightarrow> 'st msg \<Rightarrow> 'st msg option) \<Rightarrow> (nat \<Rightarrow> bool) \<Rightarrow> bool \<Rightarrow> 'st \<Rightarrow> nat \<Rightarrow> ('st rx \<Rightarrow> conn \<Rightarrow> conn) \<Rightarrow> 'st rx \<Rightarrow> conn \<Rightarrow> mbuf_pool
    \<Rightarrow> (rstatus \<times> 'st parse_event \<times> conn \<times> mbuf_pool) option" where
  "msg_parse prs mem mem' start errno handler x c mp = (case x of (r, h, n) \<Rightarrow>
     if n = 0 then Some (NC_OK, Received x None, handler x c, mp)
     else if h = [] then None
     else (case prs (last h) r of
             None \<Rightarrow> None
           | Some r' \<Rightarrow>
               map_option (\<lambda>(st, ev, c', mp'). (if c_err c' \<noteq> 0 then NC_ERROR else st, ev, c', mp'))
                 (case result r' of
                    MSG_PARSE_OK \<Rightarrow> msg_parsed mem mem' start handler (r', h, n) c mp
                  | MSG_PARSE_REPAIR \<Rightarrow> msg_repair mem (r', h, n) c mp
                  | MSG_PARSE_AGAIN \<Rightarrow> Some (NC_OK, Waiting (r', h, n), c, mp)
                  | MSG_PARSE_ERROR \<Rightarrow> Some (NC_ERROR, Waiting (r', h, n), c\<lparr>c_err := errno\<rparr>, mp))))"

text \<open>
  The message a client connection goes on with, \<open>rmsg\<close> or, if there is none, \<open>alloc\<close>.  At the
  end of the input it is dropped, and an inactive connection is done.
\<close>

definition req_recv_next ::
  "(conn \<Rightarrow> bool) \<Rightarrow> 'st rx option \<Rightarrow> 'st rx option \<Rightarrow> conn \<Rightarrow> mbuf_pool \<Rightarrow> 'st rx option \<times> conn \<times> mbuf_pool" where
  "req_recv_next active alloc rmsg c mp =
     (if c_eof c then
        (None, if active c then c else c\<lparr>c_done := True\<rparr>,
         case rmsg of None \<Rightarrow> mp | Some (r, h, n) \<Rightarrow> msg_put_mbufs h mp)
      else (case rmsg of None \<Rightarrow> alloc | Some x \<Rightarrow> Some x, c, mp))"

text \<open>
  The loop of \<open>msg_recv_chain\<close>.  It goes on only with a new message, the one behind the
  message handed over.  The result has the messages handed over and the message that is
  left as \<open>conn->rmsg\<close>.
\<close>

partial_function (option) msg_recv_loop ::
  "(mbuf \<Rightarrow> 'st msg \<Rightarrow> 'st msg option) \<Rightarrow> (nat \<Rightarrow> bool) \<Rightarrow> (nat \<Rightarrow> bool) \<Rightarrow> 'st \<Rightarrow> nat \<Rightarrow> (conn \<Rightarrow> bool) \<Rightarrow> ('st rx \<Rightarrow> conn \<Rightarrow> conn)
    \<Rightarrow> nat \<Rightarrow> 'st rx \<Rightarrow> conn \<Rightarrow> mbuf_pool \<Rightarrow> (rstatus \<times> 'st rx list \<times> 'st rx option \<times> conn \<times> mbuf_pool) option" where
  [code]: "msg_recv_loop prs mem memm start errno active handler i x c mp =
     (case msg_parse prs mem (memm i) start errno handler x c mp of
        None \<Rightarrow> None
      | Some (st, Waiting y, c', mp') \<Rightarrow>
          if st \<noteq> NC_OK then Some (st, [], Some y, c', mp')
          else (case req_recv_next active None (Some y) c' mp' of (rest, c2, mp2) \<Rightarrow> Some (NC_OK, [], rest, c2, mp2))
      | Some (st, Received y z, c', mp') \<Rightarrow>
          if st \<noteq> NC_OK then Some (st, [y], z, c', mp')
          else (case req_recv_next active None z c' mp' of
                  (None, c2, mp2) \<Rightarrow> Some (NC_OK, [y], None, c2, mp2)
                | (Some x', c2, mp2) \<Rightarrow>
                    Option.bind (msg_recv_loop prs mem memm start errno active handler (i + 1) x' c2 mp2)
                      (\<lambda>(st, ys, rest, c3, mp3). Some (st, y # ys, rest, c3, mp3))))"

definition msg_recv_chain ::
  "(mbuf \<Rightarrow> 'st msg \<Rightarrow> 'st msg option) \<Rightarrow> (nat \<Rightarrow> bool) \<Rightarrow> (nat \<Rightarrow> bool) \<Rightarrow> 'st \<Rightarrow> nat \<Rightarrow> (conn \<Rightarrow> bool) \<Rightarrow> ('st rx \<Rightarrow> conn \<Rightarrow> conn)
    \<Rightarrow> read_result list \<Rightarrow> 'st rx \<Rightarrow> conn \<Rightarrow> mbuf_pool
    \<Rightarrow> (rstatus \<times> 'st rx list \<times> 'st rx option \<times> conn \<times> mbuf_pool) option" where
  "msg_recv_chain prs mem memm start errno active handler reads x c mp = (case x of (r, h, n) \<Rightarrow>
     let (y, mp1) =
       (if h = [] \<or> mbuf_full (last h) then
          (case new_mbuf mem mp of
             (None, mp1) \<Rightarrow> (None, mp1)
           | (Some b, mp1) \<Rightarrow> (Some (r\<lparr>pos := mpos b\<rparr>, mbuf_insert h b), mp1))
        else (Some (r, h), mp)) in
     case y of
       None \<Rightarrow> Some (NC_ENOMEM, [], Some x, c, mp1)
     | Some (r, h) \<Rightarrow>
         let b = last h; room = mend b - mlast b in
         if room = 0 then None
         else (case conn_recv reads room c of
                 None \<Rightarrow> None
               | Some (Try_again, c1) \<Rightarrow> Some (NC_OK, [], Some (r, h, n), c1, mp1)
               | Some (Recv_failed, c1) \<Rightarrow> Some (NC_ERROR, [], Some (r, h, n), c1, mp1)
               | Some (Received_bytes got, c1) \<Rightarrow>
                   if room < length got then None
                   else msg_recv_loop prs mem memm start errno active handler 0
                          (r, butlast h @ [b\<lparr>mdata := mdata b @ got\<rparr>], n + of_nat (length got)) c1 mp1))"

subsection \<open>Cutting a message loses no byte\<close>

lemma msg_parsed_bytes:
  assumes mp: "mbuf_pool_ok mp" and h: "h \<noteq> []" "\<forall>b \<in> set h. mbuf_ok (mbuf_offset mp) b"
    and p: "mpos (last h) \<le> pos r" "pos r < mlast (last h)" and mem: "mem (next_chunk mp)"
  obtains h' nbuf mp' where
    "msg_parsed mem True start handler (r, h, n) c mp
      = Some (NC_OK, Received (r, h', n - mbuf_length nbuf) (Some (fresh_msg start, [nbuf], mbuf_length nbuf)),
          handler (r, h', n - mbuf_length nbuf) c, mp')"
    "h' = butlast h @ [(last h)\<lparr>mdata := take (pos r) (mdata (last h))\<rparr>]"
    "mdata nbuf = drop (pos r) (mdata (last h))" "mpos nbuf = 0" "chain_bytes h' @ unread nbuf = chain_bytes h"
    "mbuf_pool_ok mp'" "mbuf_offset mp' = mbuf_offset mp" "mbuf_ok (mbuf_offset mp) nbuf"
proof -
  obtain x mp' where split: "mbuf_split (mem (next_chunk mp)) h (pos r) mp = Some (x, mp')"
    "case x of None \<Rightarrow> \<not> mem (next_chunk mp) \<and> mp' = mp
      | Some (h', nbuf) \<Rightarrow>
          h' = butlast h @ [(last h)\<lparr>mdata := take (pos r) (mdata (last h))\<rparr>] \<and>
          mdata nbuf = drop (pos r) (mdata (last h)) \<and> mpos nbuf = 0 \<and>
          mbuf_pool_ok mp' \<and> mbuf_offset mp' = mbuf_offset mp \<and> mbuf_ok (mbuf_offset mp) nbuf \<and>
          (mid nbuf \<in> mid ` set (free_mbufq mp) \<or> mid nbuf = next_chunk mp) \<and>
          (\<forall>b \<in> set h'. mbuf_ok (mbuf_offset mp) b)"
    using mbuf_split_ok [OF mp h p(1), of "mem (next_chunk mp)"] p(2) by auto
  then obtain h' nbuf where x: "x = Some (h', nbuf)" using mem by (cases x) auto
  have "fresh_msg start\<lparr>pos := 0\<rparr> = fresh_msg start" by (simp add: fresh_msg_def)
  then have "msg_parsed mem True start handler (r, h, n) c mp
      = Some (NC_OK, Received (r, h', n - mbuf_length nbuf) (Some (fresh_msg start, [nbuf], mbuf_length nbuf)),
          handler (r, h', n - mbuf_length nbuf) c, mp')"
    using split x h(1) p(2) by (simp add: msg_parsed_def Let_def mbuf_insert_def)
  moreover have "chain_bytes h' @ unread nbuf = chain_bytes h"
    using mbuf_split_bytes [OF h(1) p(1), of nbuf] split(2) x p(2) by simp
  ultimately show ?thesis using that [of h' nbuf mp'] split(2) x by simp
qed

subsection \<open>Pipelined requests\<close>

text \<open>A complete request parses the same, whatever follows it in the buffer.\<close>

lemma redis_parse_req_prefix:
  assumes ok: "redis_parse_req sz mem (b\<lparr>mdata := d\<rparr>) r = Some r'" "result r' = MSG_PARSE_OK"
    and inv: "redis_req_inv r (pos r)" "pos r \<le> length d"
  shows "redis_parse_req sz mem (b\<lparr>mdata := d @ e\<rparr>) r = Some r'"
proof (cases "e = []")
  case False
  let ?R = "redis_req_step sz mem (mid b)"
  obtain a q where run: "parse_run ?R d r (pos r) = Some (Done a q)" "r' = parse_done SW_START a q"
    using ok by (auto simp: redis_parse_req_def parse_with_def parse_run_def parse_again_def parse_error_def Let_def
        split: option.splits outcome.splits if_splits)
  obtain x where x: "parse_run ?R (d @ e) r (pos r) = Some x" "outcome_eq x (Done a q)"
    using redis_req.run_append [OF inv False, of sz mem "mid b"] run(1) by (auto elim!: option.rel_cases)
  then have "x = Done a q" by (cases x) auto
  with x(1) show ?thesis using run(2) by (simp add: redis_parse_req_def parse_with_def parse_run_def)
qed (use ok in simp)

text \<open>A request of the redis protocol, with its type and its keys.\<close>

definition redis_request_ok :: "nat \<Rightarrow> bytes list \<times> msg_type \<times> bytes list \<Rightarrow> bool" where
  "redis_request_ok sz q = (case q of (w # args, t, ks) \<Rightarrow>
     map_of redis_commands (map to_lower w) = Some t \<and> t \<noteq> MSG_REQ_REDIS_QUIT \<and>
     redis_req_keys ((fresh_msg SW_START)\<lparr>mtype := t\<rparr>) args = Some ks \<and> short (w # args) \<and> (\<forall>k \<in> set ks. length k < sz)
   | _ \<Rightarrow> False)"

definition redis_delivered :: "redis_req_state rx \<Rightarrow> bytes list \<times> msg_type \<times> bytes list \<Rightarrow> bool" where
  "redis_delivered x q = (case x of (r, h, n) \<Rightarrow> case q of (cmd, t, ks) \<Rightarrow>
     mtype r = t \<and> chain_bytes h = redis_encode cmd \<and> n = of_nat (length (redis_encode cmd)) \<and>
     (\<exists>b. h = [b] \<and> map (key_bytes (mdata b)) (keys r) = ks))"

lemma redis_request_first:
  assumes ok: "redis_request_ok sz (cmd, t, ks)" and mem: "\<forall>n. mem n" and b: "mdata b = redis_encode cmd @ rest"
  obtains r where "redis_parse_req sz mem b (fresh_msg SW_START) = Some r" "result r = MSG_PARSE_OK" "mtype r = t"
    "pos r = length (redis_encode cmd)" "\<not> quit r" "map (key_bytes (redis_encode cmd)) (keys r) = ks"
proof -
  obtain w args where cmd: "cmd = w # args" using ok by (cases cmd) (auto simp: redis_request_ok_def)
  let ?b = "b\<lparr>mdata := redis_encode cmd\<rparr>"
  obtain r where r: "redis_parse_req sz mem ?b (fresh_msg SW_START) = Some r" "result r = MSG_PARSE_OK" "mtype r = t"
    "pos r = length (redis_encode cmd)" "\<not> quit r" "map (key_bytes (redis_encode cmd)) (keys r) = ks"
    using redis_request_run [of w t args ks sz mem ?b "[]" "[]" "fresh_msg SW_START"] ok mem
    by (auto simp: cmd redis_request_ok_def fresh_msg_def)
  have "redis_parse_req sz mem (b\<lparr>mdata := redis_encode cmd @ rest\<rparr>) (fresh_msg SW_START) = Some r"
    by (rule redis_parse_req_prefix [OF r(1,2)]) (simp_all add: fresh_msg_def)
  moreover have "b\<lparr>mdata := redis_encode cmd @ rest\<rparr> = b" using b by simp
  ultimately show ?thesis using that [OF _ r(2-6)] by simp
qed

lemma redis_encode_nonempty: "redis_encode q \<noteq> []"
  by (simp add: redis_encode_def)

text \<open>
  What the loop hands over: the requests in order, up to the first whose \<open>recv_done\<close> sets the
  error of the connection or ends it.
\<close>

definition redis_handed_over ::
  "(redis_req_state rx \<Rightarrow> conn \<Rightarrow> conn) \<Rightarrow> conn \<Rightarrow> (bytes list \<times> msg_type \<times> bytes list) list \<Rightarrow> redis_req_state rx list \<Rightarrow> rstatus \<Rightarrow> bool" where
  "redis_handed_over handler c qs out st \<longleftrightarrow>
     out \<noteq> [] \<and> list_all2 redis_delivered out (take (length out) qs) \<and>
     (\<forall>k \<in> {1..<length out}. c_err (fold handler (take k out) c) = 0 \<and> \<not> c_eof (fold handler (take k out) c)) \<and>
     (length out = length qs \<or> c_err (fold handler out c) \<noteq> 0 \<or> c_eof (fold handler out c)) \<and>
     st = (if c_err (fold handler out c) = 0 then NC_OK else NC_ERROR)"

lemma redis_handed_over_one:
  assumes "redis_delivered x q" "qs = [] \<or> c_err (handler x c) \<noteq> 0 \<or> c_eof (handler x c)"
    and "st = (if c_err (handler x c) = 0 then NC_OK else NC_ERROR)"
  shows "redis_handed_over handler c (q # qs) [x] st"
  using assms by (auto simp: redis_handed_over_def)

lemma redis_handed_over_Cons:
  assumes "redis_delivered x q" "c_err (handler x c) = 0" "\<not> c_eof (handler x c)"
    and "redis_handed_over handler (handler x c) qs out st"
  shows "redis_handed_over handler c (q # qs) (x # out) st"
proof -
  have "c_err (fold handler (take k (x # out)) c) = 0 \<and> \<not> c_eof (fold handler (take k (x # out)) c)"
    if "k \<in> {1..<length (x # out)}" for k
    using that assms by (cases k; cases "k - 1") (auto simp: redis_handed_over_def)
  then show ?thesis using assms(1,4) by (auto simp: redis_handed_over_def)
qed

lemma redis_recv_pipelined:
  fixes handler active errno
  defines "loop \<equiv> \<lambda>sz i. msg_recv_loop (redis_parse_req sz (\<lambda>n. True)) (\<lambda>n. True) (\<lambda>n. True) SW_START errno active handler i"
  assumes "\<forall>q \<in> set qs. redis_request_ok sz q" "qs \<noteq> []" "mdata b = concat (map (\<lambda>q. redis_encode (fst q)) qs)" "mpos b = 0"
    and "mbuf_ok (mbuf_offset mp) b" "mbuf_pool_ok mp"
  shows "\<exists>st out rest c' mp'. loop sz i (fresh_msg SW_START, [b], of_nat (mlast b)) c mp = Some (st, out, rest, c', mp') \<and>
      redis_handed_over handler c qs out st"
  using assms(2-)
proof (induction qs arbitrary: b mp i c)
  case (Cons q qs)
  obtain cmd t ks where q: "q = (cmd, t, ks)" by (cases q)
  let ?e = "redis_encode cmd" and ?rest = "concat (map (\<lambda>q. redis_encode (fst q)) qs)"
  let ?prs = "redis_parse_req sz (\<lambda>n. True)" and ?x = "(fresh_msg SW_START, [b], of_nat (mlast b)) :: redis_req_state rx"
  have d: "mdata b = ?e @ ?rest" using Cons.prems(3) q by (simp add: comp_def)
  have lt: "mlast b < 2 ^ 32" using Cons.prems(5,6) by (auto simp: mbuf_ok_def mbuf_pool_ok_def)
  have "mlast b \<noteq> 0" using redis_encode_nonempty [of cmd] d by simp
  then have n: "(of_nat (mlast b) :: u32) \<noteq> 0" using unat_of_nat_small [OF lt] by (metis unat_0)
  obtain r where r: "?prs b (fresh_msg SW_START) = Some r" "result r = MSG_PARSE_OK" "mtype r = t"
    "pos r = length ?e" "map (key_bytes ?e) (keys r) = ks"
    by (rule redis_request_first [of sz cmd t ks "\<lambda>n. True" b ?rest]) (use Cons.prems(1) q d in auto)
  show ?case
  proof (cases "qs = []")
    case True
    let ?y = "(r, [b], of_nat (mlast b)) :: redis_req_state rx"
    have "msg_parse ?prs (\<lambda>n. True) True SW_START errno handler ?x c mp
        = Some (if c_err (handler ?y c) \<noteq> 0 then NC_ERROR else NC_OK, Received ?y None, handler ?y c, mp)"
      using r d n True by (simp add: msg_parse_def msg_parsed_def)
    moreover have "redis_delivered ?y q"
      using r(3,5) d True Cons.prems(4) by (simp add: redis_delivered_def q unread_def)
    ultimately show ?thesis
      using True unfolding loop_def
      by (subst msg_recv_loop.simps) (auto simp: req_recv_next_def intro!: redis_handed_over_one)
  next
    case False
    have rest: "?rest \<noteq> []" using False redis_encode_nonempty by (cases qs) auto
    have p: "mpos b \<le> pos r" "pos r < mlast b" using r(4) d rest Cons.prems(4) by simp_all
    obtain h nbuf mp' where cut: "msg_parsed (\<lambda>n. True) True SW_START handler (r, [b], of_nat (mlast b)) c mp
        = Some (NC_OK, Received (r, h, of_nat (mlast b) - mbuf_length nbuf) (Some (fresh_msg SW_START, [nbuf], mbuf_length nbuf)),
            handler (r, h, of_nat (mlast b) - mbuf_length nbuf) c, mp')"
      "h = butlast [b] @ [(last [b])\<lparr>mdata := take (pos r) (mdata (last [b]))\<rparr>]" "mdata nbuf = drop (pos r) (mdata (last [b]))"
      "mpos nbuf = 0" "mbuf_pool_ok mp'" "mbuf_offset mp' = mbuf_offset mp" "mbuf_ok (mbuf_offset mp) nbuf"
      by (rule msg_parsed_bytes [of mp "[b]" r "\<lambda>n. True" SW_START handler "of_nat (mlast b)" c])
        (use Cons.prems(5,6) p in simp_all)
    define y where "y = (r, h, of_nat (mlast b) - mbuf_length nbuf)"
    have parse: "msg_parse ?prs (\<lambda>n. True) True SW_START errno handler ?x c mp
        = Some (if c_err (handler y c) \<noteq> 0 then NC_ERROR else NC_OK,
            Received y (Some (fresh_msg SW_START, [nbuf], mbuf_length nbuf)), handler y c, mp')"
      using r(1,2) n cut(1) by (simp add: msg_parse_def y_def)
    have nb: "mdata nbuf = ?rest" "mbuf_length nbuf = of_nat (mlast nbuf)"
      using cut(3,4) r(4) d by (simp_all add: mbuf_length_def)
    have del: "redis_delivered y q"
      using r(3,4,5) d cut(2) nb Cons.prems(4) by (simp add: redis_delivered_def q y_def unread_def)
    show ?thesis
    proof (cases "c_err (handler y c) \<noteq> 0 \<or> c_eof (handler y c)")
      case True
      then show ?thesis using parse del unfolding loop_def
        by (subst msg_recv_loop.simps) (auto simp: req_recv_next_def intro!: redis_handed_over_one)
    next
      case go: False
      obtain st out rest c' mp2 where
        "loop sz (i + 1) (fresh_msg SW_START, [nbuf], of_nat (mlast nbuf)) (handler y c) mp' = Some (st, out, rest, c', mp2)"
        "redis_handed_over handler (handler y c) qs out st"
        using Cons.IH [of nbuf mp' "i + 1" "handler y c"] Cons.prems(1) False nb cut(4-7) by auto
      then show ?thesis
        using parse nb(2) go redis_handed_over_Cons [of y q handler c qs out st] del unfolding loop_def
        by (subst msg_recv_loop.simps) (simp add: req_recv_next_def)
    qed
  qed
qed simp

text \<open>
  C10: requests may be pipelined.  If one read, possibly after interrupted ones, returns the
  encodings of several redis requests, they are handed over as messages of their own, in
  the order of the encodings: each with its type and its keys, and with exactly the bytes of
  its encoding.  All of them are handed over unless \<open>recv_done\<close> sets the error of the
  connection or ends its input; then exactly those up to the first such request are, and
  an error is returned as \<open>NC_ERROR\<close>.
\<close>
theorem redis_pipelined_requests:
  assumes ok: "\<forall>q \<in> set qs. redis_request_ok sz q" "qs \<noteq> []" and mp: "mbuf_pool_ok mp"
    and fits: "length (concat (map (\<lambda>q. redis_encode (fst q)) qs)) \<le> mbuf_offset mp" and c: "recv_ready c"
  shows "\<exists>st out rest c1 c' mp'.
     conn_recv (replicate k Interrupted @ [Data (concat (map (\<lambda>q. redis_encode (fst q)) qs))]) (mbuf_offset mp) c
       = Some (Received_bytes (concat (map (\<lambda>q. redis_encode (fst q)) qs)), c1) \<and> c_err c1 = c_err c \<and> c_eof c1 = c_eof c \<and>
     msg_recv_chain (redis_parse_req sz (\<lambda>n. True)) (\<lambda>n. True) (\<lambda>n. True) SW_START errno active handler
       (replicate k Interrupted @ [Data (concat (map (\<lambda>q. redis_encode (fst q)) qs))]) (fresh_msg SW_START, [], 0) c mp
         = Some (st, out, rest, c', mp') \<and>
     redis_handed_over handler c1 qs out st"
proof (cases rule: new_mbuf_cases [OF pool_room_ok [OF mp], of "\<lambda>n. True"])
  case (2 b mp')
  let ?d = "concat (map (\<lambda>q. redis_encode (fst q)) qs)"
  have b: "mbuf_ok (mbuf_offset mp') (b\<lparr>mdata := ?d\<rparr>)" "mend b - mlast b = mbuf_offset mp" "mbuf_offset mp \<noteq> 0"
    using 2 fits mp by (auto simp: mbuf_ok_def mbuf_pool_ok_def)
  have ne: "?d \<noteq> []" using ok(2) redis_encode_nonempty by (cases qs) auto
  define c1 where "c1 = c\<lparr>recv_ready := \<not> length ?d < mbuf_offset mp, recv_bytes := recv_bytes c + of_nat (length ?d)\<rparr>"
  have recv: "conn_recv (replicate k Interrupted @ [Data ?d]) (mbuf_offset mp) c = Some (Received_bytes ?d, c1)"
    using ne c b(3) by (induction k) (auto simp: c1_def)
  have fresh: "fresh_msg SW_START\<lparr>pos := 0\<rparr> = fresh_msg SW_START" by (simp add: fresh_msg_def)
  have "\<exists>st out rest c' mp2. msg_recv_loop (redis_parse_req sz (\<lambda>n. True)) (\<lambda>n. True) (\<lambda>n. True) SW_START errno active handler 0
       (fresh_msg SW_START, [b\<lparr>mdata := ?d\<rparr>], of_nat (mlast (b\<lparr>mdata := ?d\<rparr>))) c1 mp' = Some (st, out, rest, c', mp2) \<and>
      redis_handed_over handler c1 qs out st"
    by (rule redis_recv_pipelined [OF ok]) (use b 2 mp in auto)
  then obtain st out rest c' mp2 where loop:
    "msg_recv_loop (redis_parse_req sz (\<lambda>n. True)) (\<lambda>n. True) (\<lambda>n. True) SW_START errno active handler 0
       (fresh_msg SW_START, [b\<lparr>mdata := ?d\<rparr>], of_nat (mlast (b\<lparr>mdata := ?d\<rparr>))) c1 mp' = Some (st, out, rest, c', mp2)"
    "redis_handed_over handler c1 qs out st" by blast
  have "msg_recv_chain (redis_parse_req sz (\<lambda>n. True)) (\<lambda>n. True) (\<lambda>n. True) SW_START errno active handler
       (replicate k Interrupted @ [Data ?d]) (fresh_msg SW_START, [], 0) c mp = Some (st, out, rest, c', mp2)"
    using 2 b recv fits fresh loop(1) by (simp add: msg_recv_chain_def Let_def mbuf_insert_def)
  moreover have "c_err c1 = c_err c" "c_eof c1 = c_eof c" by (simp_all add: c1_def)
  ultimately show ?thesis using recv loop(2) by blast
qed simp

definition example_mbuf_pool :: mbuf_pool where
  "example_mbuf_pool = \<lparr>nfree_mbufq = 0, free_mbufq = [], mbuf_chunk_size = 16384, mbuf_offset = 16336, next_chunk = 0\<rparr>"

definition example_conn :: conn where
  "example_conn = \<lparr>c_err = 0, c_eof = False, c_done = False, recv_ready = True, recv_bytes = 0\<rparr>"

definition example_requests :: "(bytes list \<times> msg_type \<times> bytes list) list" where
  "example_requests = [([''mget'', ''a'', ''bc''], MSG_REQ_REDIS_MGET, [''a'', ''bc'']), ([''get'', ''x''], MSG_REQ_REDIS_GET, [''x''])]"

theorem redis_pipelined_requests_witness:
  "\<exists>st out rest c1 c' mp'.
     conn_recv (replicate 1 Interrupted @ [Data (concat (map (\<lambda>q. redis_encode (fst q)) example_requests))])
         (mbuf_offset example_mbuf_pool) example_conn
       = Some (Received_bytes (concat (map (\<lambda>q. redis_encode (fst q)) example_requests)), c1) \<and>
     c_err c1 = c_err example_conn \<and> c_eof c1 = c_eof example_conn \<and>
     msg_recv_chain (redis_parse_req 16336 (\<lambda>n. True)) (\<lambda>n. True) (\<lambda>n. True) SW_START 22 (\<lambda>c. False) (\<lambda>x c. c)
       (replicate 1 Interrupted @ [Data (concat (map (\<lambda>q. redis_encode (fst q)) example_requests))])
       (fresh_msg SW_START, [], 0) example_conn example_mbuf_pool = Some (st, out, rest, c', mp') \<and>
     redis_handed_over (\<lambda>x c. c) c1 example_requests out st"
proof (rule redis_pipelined_requests)
  have low: "map to_lower ''mget'' = ''mget''" "map to_lower ''get'' = ''get''" by code_simp+
  show "\<forall>q \<in> set example_requests. redis_request_ok 16336 q"
    using low by (simp add: example_requests_def redis_request_ok_def redis_command_defs redis_req_keys_def redis_class_defs short_def)
  show "length (concat (map (\<lambda>q. redis_encode (fst q)) example_requests)) \<le> mbuf_offset example_mbuf_pool"
    by (simp add: example_requests_def redis_encode_def redis_bulk_def redis_len_line_def example_mbuf_pool_def show_nat.simps)
qed (simp_all add: example_mbuf_pool_def mbuf_pool_ok_def example_requests_def example_conn_def)

end
