(* ===== verification/Redis_Response.thy ===== *)
theory Redis_Response
  imports Redis_Encoding
begin

text \<open>
  \<open>redis_parse_rsp\<close> of \<^verbatim>\<open>proto/nc_redis.c\<close>: one definition per state of its \<open>switch\<close>.  Several
  states look at the same byte again (\<open>p = p - 1\<close> before the \<open>p++\<close> of the loop); the rank
  of a state bounds how often.  The lemmas give the contract of a parser and the replies
  it accepts.
\<close>

subsection \<open>The states\<close>

datatype redis_rsp_state =
    SW_START | SW_STATUS | SW_ERROR | SW_INTEGER | SW_INTEGER_START | SW_SIMPLE
  | SW_BULK | SW_BULK_LF | SW_BULK_ARG | SW_BULK_ARG_LF
  | SW_MULTIBULK | SW_MULTIBULK_NARG_LF | SW_MULTIBULK_ARGN_LEN | SW_MULTIBULK_ARGN_LEN_LF
  | SW_MULTIBULK_ARGN | SW_MULTIBULK_ARGN_LF | SW_RUNTO_CRLF | SW_ALMOST_DONE

type_synonym redis_rsp = "redis_rsp_state msg"

definition redis_rsp_start :: "char \<Rightarrow> redis_rsp \<Rightarrow> nat \<Rightarrow> redis_rsp outcome" where
  "redis_rsp_start ch r p =
     (if ch = CHR ''+'' then Move (r\<lparr>mtype := MSG_RSP_REDIS_STATUS, state := SW_STATUS\<rparr>) p
      else if ch = CHR ''-'' then Move (r\<lparr>mtype := MSG_RSP_REDIS_ERROR, state := SW_ERROR\<rparr>) p
      else if ch = CHR '':'' then Move (r\<lparr>mtype := MSG_RSP_REDIS_INTEGER, state := SW_INTEGER\<rparr>) p
      else if ch = CHR ''$'' then Move (r\<lparr>mtype := MSG_RSP_REDIS_BULK, state := SW_BULK\<rparr>) p
      else if ch = CHR ''*'' then Move (r\<lparr>mtype := MSG_RSP_REDIS_MULTIBULK, state := SW_MULTIBULK\<rparr>) p
      else Error (r\<lparr>mtype := MSG_UNKNOWN\<rparr>))"

definition redis_rsp_status :: "redis_rsp \<Rightarrow> nat \<Rightarrow> redis_rsp outcome" where
  "redis_rsp_status r p = Move (r\<lparr>state := SW_RUNTO_CRLF\<rparr>) (p + 1)"

text \<open>The kind of an error reply, from its first word; \<open>n\<close> is the length of the word.\<close>

definition redis_error_table :: "nat \<Rightarrow> (bytes \<times> msg_type) list" where
  "redis_error_table n =
     (if n = 4 then [(''-ERR'', MSG_RSP_REDIS_ERROR_ERR), (''-OOM'', MSG_RSP_REDIS_ERROR_OOM)]
      else if n = 5 then [(''-BUSY'', MSG_RSP_REDIS_ERROR_BUSY)]
      else if n = 7 then [(''-NOAUTH'', MSG_RSP_REDIS_ERROR_NOAUTH)]
      else if n = 8 then [(''-LOADING'', MSG_RSP_REDIS_ERROR_LOADING), (''-BUSYKEY'', MSG_RSP_REDIS_ERROR_BUSYKEY),
        (''-MISCONF'', MSG_RSP_REDIS_ERROR_MISCONF)]
      else if n = 9 then [(''-NOSCRIPT'', MSG_RSP_REDIS_ERROR_NOSCRIPT), (''-READONLY'', MSG_RSP_REDIS_ERROR_READONLY)]
      else if n = 10 then [(''-WRONGTYPE'', MSG_RSP_REDIS_ERROR_WRONGTYPE), (''-EXECABORT'', MSG_RSP_REDIS_ERROR_EXECABORT)]
      else if n = 11 then [(''-MASTERDOWN'', MSG_RSP_REDIS_ERROR_MASTERDOWN), (''-NOREPLICAS'', MSG_RSP_REDIS_ERROR_NOREPLICAS)]
      else [])"

definition redis_rsp_error :: "bytes \<Rightarrow> redis_rsp \<Rightarrow> nat \<Rightarrow> redis_rsp outcome" where
  "redis_rsp_error d r p =
     (let ch = d ! p in
      if token r = None \<and> ch \<noteq> CHR ''-'' then Error r
      else
        let t = (case token r of None \<Rightarrow> p | Some t \<Rightarrow> t) in
        if ch = CHR '' '' \<or> ch = CR
        then Move (r\<lparr>token := None, mtype := first_cmp (redis_error_table (p - t)) (drop t d) (mtype r),
                     state := SW_RUNTO_CRLF\<rparr>) (p + 1)
        else Move (r\<lparr>token := Some t\<rparr>) (p + 1))"

definition redis_rsp_integer :: "redis_rsp \<Rightarrow> nat \<Rightarrow> redis_rsp outcome" where
  "redis_rsp_integer r p = Move (r\<lparr>state := SW_INTEGER_START, rinteger := 0\<rparr>) (p + 1)"

definition redis_rsp_simple :: "char \<Rightarrow> redis_rsp \<Rightarrow> nat \<Rightarrow> redis_rsp outcome" where
  "redis_rsp_simple ch r p =
     (if ch = CR then Move (r\<lparr>state := SW_MULTIBULK_ARGN_LF, rnarg := rnarg r - 1\<rparr>) (p + 1) else Move r (p + 1))"

definition redis_rsp_integer_start :: "char \<Rightarrow> redis_rsp \<Rightarrow> nat \<Rightarrow> redis_rsp outcome" where
  "redis_rsp_integer_start ch r p =
     (if ch = CR then Move (r\<lparr>state := SW_ALMOST_DONE\<rparr>) (p + 1)
      else if ch = CHR ''-'' then Move r (p + 1)
      else if isdigit ch then Move (r\<lparr>rinteger := dec_digit (rinteger r) ch\<rparr>) (p + 1)
      else Error r)"

definition redis_rsp_runto_crlf :: "char \<Rightarrow> redis_rsp \<Rightarrow> nat \<Rightarrow> redis_rsp outcome" where
  "redis_rsp_runto_crlf ch r p = (if ch = CR then Move (r\<lparr>state := SW_ALMOST_DONE\<rparr>) (p + 1) else Move r (p + 1))"

definition redis_rsp_almost_done :: "char \<Rightarrow> redis_rsp \<Rightarrow> nat \<Rightarrow> redis_rsp outcome" where
  "redis_rsp_almost_done ch r p = (if ch = LF then Done r p else Error r)"

definition redis_rsp_bulk :: "char \<Rightarrow> redis_rsp \<Rightarrow> nat \<Rightarrow> redis_rsp outcome" where
  "redis_rsp_bulk ch r p =
     (if token r = None then
        if ch \<noteq> CHR ''$'' then Error r else Move (r\<lparr>token := Some p, rlen := 0\<rparr>) (p + 1)
      else if ch = CHR ''-'' then Move (r\<lparr>state := SW_RUNTO_CRLF\<rparr>) (p + 1)
      else if isdigit ch then Move (r\<lparr>rlen := dec_digit (rlen r) ch\<rparr>) (p + 1)
      else if ch = CR then
        if p - the (token r) \<le> 1 then Error r else Move (r\<lparr>token := None, state := SW_BULK_LF\<rparr>) (p + 1)
      else Error r)"

definition redis_rsp_bulk_lf :: "char \<Rightarrow> redis_rsp \<Rightarrow> nat \<Rightarrow> redis_rsp outcome" where
  "redis_rsp_bulk_lf = lf_step SW_BULK_ARG"

definition redis_rsp_bulk_arg :: "bytes \<Rightarrow> redis_rsp \<Rightarrow> nat \<Rightarrow> redis_rsp outcome" where
  "redis_rsp_bulk_arg = skip_step SW_BULK_ARG_LF"

definition redis_rsp_bulk_arg_lf :: "char \<Rightarrow> redis_rsp \<Rightarrow> nat \<Rightarrow> redis_rsp outcome" where
  "redis_rsp_bulk_arg_lf ch r p = (if ch = LF then Done r p else Error r)"

definition redis_rsp_multibulk :: "nat \<Rightarrow> char \<Rightarrow> redis_rsp \<Rightarrow> nat \<Rightarrow> redis_rsp outcome" where
  "redis_rsp_multibulk bid ch r p =
     (if token r = None then
        if ch \<noteq> CHR ''*'' then Error r
        else Move (r\<lparr>token := Some p, narg_start := Some (bid, p), rnarg := 0\<rparr>) (p + 1)
      else if ch = CHR ''-'' then Move (r\<lparr>state := SW_RUNTO_CRLF\<rparr>) (p + 1)
      else if isdigit ch then Move (r\<lparr>rnarg := dec_digit (rnarg r) ch\<rparr>) (p + 1)
      else if ch = CR then
        if p - the (token r) \<le> 1 then Error r
        else Move (r\<lparr>narg := rnarg r, narg_end := Some (bid, p), token := None, state := SW_MULTIBULK_NARG_LF\<rparr>) (p + 1)
      else Error r)"

definition redis_rsp_multibulk_narg_lf :: "char \<Rightarrow> redis_rsp \<Rightarrow> nat \<Rightarrow> redis_rsp outcome" where
  "redis_rsp_multibulk_narg_lf ch r p =
     (if ch \<noteq> LF then Error r
      else if rnarg r = 0 then Done r p
      else Move (r\<lparr>state := SW_MULTIBULK_ARGN_LEN\<rparr>) (p + 1))"

definition redis_rsp_multibulk_argn_len :: "char \<Rightarrow> redis_rsp \<Rightarrow> nat \<Rightarrow> redis_rsp outcome" where
  "redis_rsp_multibulk_argn_len ch r p =
     (if token r = None then
        if ch = CHR ''*'' then Move (r\<lparr>state := SW_MULTIBULK\<rparr>) p
        else if ch = CHR '':'' \<or> ch = CHR ''+'' \<or> ch = CHR ''-'' then Move (r\<lparr>state := SW_SIMPLE\<rparr>) (p + 1)
        else if ch \<noteq> CHR ''$'' then Error r
        else Move (r\<lparr>token := Some p, rlen := 0\<rparr>) (p + 1)
      else if isdigit ch then Move (r\<lparr>rlen := dec_digit (rlen r) ch\<rparr>) (p + 1)
      else if ch = CHR ''-'' then Move r (p + 1)
      else if ch = CR then
        if p - the (token r) \<le> 1 \<or> rnarg r = 0 then Error r
        else if rlen r = 1 \<and> p - the (token r) = 3
        then Move (r\<lparr>rlen := 0, state := SW_MULTIBULK_ARGN_LF, rnarg := rnarg r - 1, token := None\<rparr>) (p + 1)
        else Move (r\<lparr>state := SW_MULTIBULK_ARGN_LEN_LF, rnarg := rnarg r - 1, token := None\<rparr>) (p + 1)
      else Error r)"

definition redis_rsp_multibulk_argn_len_lf :: "char \<Rightarrow> redis_rsp \<Rightarrow> nat \<Rightarrow> redis_rsp outcome" where
  "redis_rsp_multibulk_argn_len_lf = lf_step SW_MULTIBULK_ARGN"

definition redis_rsp_multibulk_argn :: "bytes \<Rightarrow> redis_rsp \<Rightarrow> nat \<Rightarrow> redis_rsp outcome" where
  "redis_rsp_multibulk_argn = skip_step SW_MULTIBULK_ARGN_LF"

definition redis_rsp_multibulk_argn_lf :: "char \<Rightarrow> redis_rsp \<Rightarrow> nat \<Rightarrow> redis_rsp outcome" where
  "redis_rsp_multibulk_argn_lf ch r p =
     (if ch \<noteq> LF then Error r
      else if rnarg r = 0 then Done r p
      else Move (r\<lparr>state := SW_MULTIBULK_ARGN_LEN\<rparr>) (p + 1))"

subsection \<open>The parser\<close>

definition redis_rsp_step :: "nat \<Rightarrow> bytes \<Rightarrow> redis_rsp \<Rightarrow> nat \<Rightarrow> redis_rsp outcome" where
  "redis_rsp_step bid d r p =
     (let ch = d ! p in
      case state r of
        SW_START \<Rightarrow> redis_rsp_start ch r p
      | SW_STATUS \<Rightarrow> redis_rsp_status r p
      | SW_ERROR \<Rightarrow> redis_rsp_error d r p
      | SW_INTEGER \<Rightarrow> redis_rsp_integer r p
      | SW_INTEGER_START \<Rightarrow> redis_rsp_integer_start ch r p
      | SW_SIMPLE \<Rightarrow> redis_rsp_simple ch r p
      | SW_BULK \<Rightarrow> redis_rsp_bulk ch r p
      | SW_BULK_LF \<Rightarrow> redis_rsp_bulk_lf ch r p
      | SW_BULK_ARG \<Rightarrow> redis_rsp_bulk_arg d r p
      | SW_BULK_ARG_LF \<Rightarrow> redis_rsp_bulk_arg_lf ch r p
      | SW_MULTIBULK \<Rightarrow> redis_rsp_multibulk bid ch r p
      | SW_MULTIBULK_NARG_LF \<Rightarrow> redis_rsp_multibulk_narg_lf ch r p
      | SW_MULTIBULK_ARGN_LEN \<Rightarrow> redis_rsp_multibulk_argn_len ch r p
      | SW_MULTIBULK_ARGN_LEN_LF \<Rightarrow> redis_rsp_multibulk_argn_len_lf ch r p
      | SW_MULTIBULK_ARGN \<Rightarrow> redis_rsp_multibulk_argn d r p
      | SW_MULTIBULK_ARGN_LF \<Rightarrow> redis_rsp_multibulk_argn_lf ch r p
      | SW_RUNTO_CRLF \<Rightarrow> redis_rsp_runto_crlf ch r p
      | SW_ALMOST_DONE \<Rightarrow> redis_rsp_almost_done ch r p)"

definition redis_parse_rsp :: "mbuf \<Rightarrow> redis_rsp \<Rightarrow> redis_rsp option" where
  "redis_parse_rsp b = parse_with (redis_rsp_step (mid b)) parse_again (parse_done SW_START) b"

lemmas redis_rsp_defs = redis_rsp_start_def redis_rsp_status_def redis_rsp_integer_def
  redis_rsp_integer_start_def redis_rsp_simple_def redis_rsp_bulk_def redis_rsp_bulk_lf_def lf_step_def
  redis_rsp_bulk_arg_lf_def redis_rsp_multibulk_def redis_rsp_multibulk_narg_lf_def
  redis_rsp_multibulk_argn_len_def redis_rsp_multibulk_argn_len_lf_def redis_rsp_multibulk_argn_lf_def
  redis_rsp_runto_crlf_def redis_rsp_almost_done_def

lemmas redis_rsp_skip_defs = redis_rsp_bulk_arg_def redis_rsp_multibulk_argn_def

subsection \<open>The parser keeps its contract\<close>

definition redis_rsp_inv :: "redis_rsp \<Rightarrow> nat \<Rightarrow> bool" where
  "redis_rsp_inv r p \<longleftrightarrow> (\<forall>t. token r = Some t \<longrightarrow> t \<le> p)"

definition redis_rsp_rank :: "redis_rsp \<Rightarrow> nat" where
  "redis_rsp_rank r = (case state r of SW_START \<Rightarrow> 1 | SW_MULTIBULK_ARGN_LEN \<Rightarrow> 1 | _ \<Rightarrow> 0)"

lemma redis_rsp_inv_token: "redis_rsp_inv r p \<Longrightarrow> token r = Some t \<Longrightarrow> t \<le> p"
  by (simp add: redis_rsp_inv_def)

lemma redis_rsp_step_Move:
  assumes "redis_rsp_inv r p" "p < length d" "redis_rsp_step bid d r p = Move r' p'"
  shows "redis_rsp_inv r' p' \<and> p' \<le> length d \<and> (p < p' \<or> p' = p \<and> redis_rsp_rank r' < redis_rsp_rank r)"
proof (cases "state r \<in> {SW_BULK_ARG, SW_MULTIBULK_ARGN}")
  case True
  then obtain nxt where "skip_step nxt d r p = Move r' p'"
    using assms(3) by (auto simp: redis_rsp_step_def redis_rsp_skip_defs)
  from skip_step_Move [OF this assms(2)] assms(1) show ?thesis by (auto simp: redis_rsp_inv_def)
next
  case False
  then show ?thesis
    using assms
    by (cases "state r")
      (auto simp: redis_rsp_step_def redis_rsp_defs redis_rsp_error_def redis_rsp_inv_def redis_rsp_rank_def Let_def
        split: if_splits option.splits)
qed

lemma redis_rsp_step_Done: "redis_rsp_step bid d r p = Done r' p' \<Longrightarrow> p' = p"
  by (cases "state r")
    (auto simp: redis_rsp_step_def redis_rsp_defs redis_rsp_skip_defs skip_step_Done redis_rsp_error_def Let_def
      split: if_splits option.splits)

lemma redis_error_table_length: "\<forall>(s, t) \<in> set (redis_error_table n). length s = n"
  by (auto simp: redis_error_table_def)

lemma redis_rsp_step_more:
  assumes inv: "redis_rsp_inv r p" and p: "p < length d"
  shows "outcome_eq (redis_rsp_step bid (d @ e) r p) (redis_rsp_step bid d r p) \<or>
    (\<exists>r'. redis_rsp_step bid d r p = Move r' (length d) \<and>
      (e \<noteq> [] \<longrightarrow> outcome_eq (redis_rsp_step bid (d @ e) r p) (redis_rsp_step bid (d @ e) r' (length d))))"
proof (cases "state r \<in> {SW_BULK_ARG, SW_MULTIBULK_ARGN}")
  case True
  then obtain nxt where s: "\<And>d p r'. state r' = state r \<Longrightarrow> redis_rsp_step bid d r' p = skip_step nxt d r' p"
    by (auto simp: redis_rsp_step_def redis_rsp_skip_defs)
  from skip_step_more [OF p, of nxt e r] show ?thesis by (auto simp: s)
next
  case False
  have "redis_rsp_step bid (d @ e) r p = redis_rsp_step bid d r p"
  proof (cases "state r = SW_ERROR")
    case True
    define t where "t = (case token r of None \<Rightarrow> p | Some t \<Rightarrow> t)"
    have "t \<le> p" using redis_rsp_inv_token [OF inv] by (auto simp: t_def split: option.split)
    with p have "first_cmp (redis_error_table (p - t)) (drop t d @ e) (mtype r)
        = first_cmp (redis_error_table (p - t)) (drop t d) (mtype r)"
      using redis_error_table_length [of "p - t"] by (intro first_cmp_append) auto
    with True p \<open>t \<le> p\<close> show ?thesis
      by (simp add: redis_rsp_step_def redis_rsp_error_def nth_append Let_def t_def [symmetric])
  next
    case ne: False
    with False p show ?thesis by (cases "state r") (simp_all add: redis_rsp_step_def nth_append)
  qed
  then show ?thesis by simp
qed

lemma redis_rsp_step_mark:
  "redis_rsp_step bid d (mark x y r) p = map_outcome (mark x y) (redis_rsp_step bid d r p)"
  by (cases "state r")
    (simp_all add: redis_rsp_step_def redis_rsp_defs redis_rsp_skip_defs skip_step_mark redis_rsp_error_def Let_def)

interpretation redis_rsp: msg_parser "redis_rsp_step bid" redis_rsp_inv redis_rsp_rank "(=)"
  parse_again "parse_done SW_START" "(=)" for bid
proof unfold_locales
  fix r :: redis_rsp and p and d e :: bytes
  assume "redis_rsp_inv r p" "p < length d"
  then show "outcome_eq (redis_rsp_step bid (d @ e) r p) (redis_rsp_step bid d r p) \<or>
    (\<exists>r'. redis_rsp_step bid d r p = Move r' (length d) \<and>
      (e \<noteq> [] \<longrightarrow> outcome_eq (redis_rsp_step bid (d @ e) r p) (redis_rsp_step bid (d @ e) r' (length d))))"
    by (rule redis_rsp_step_more)
next
  fix b :: mbuf and r :: redis_rsp
  assume inv: "redis_rsp_inv r (mlast b)"
  then show "pos (parse_again b r (mlast b)) \<le> mlast b"
    using redis_rsp_inv_token [of r "mlast b"] by (auto simp: parse_again_def Let_def)
  show "redis_rsp_inv (parse_again b r (mlast b)) (pos (parse_again b r (mlast b)))"
    using inv by (simp add: redis_rsp_inv_def parse_again_def Let_def)
next
  fix b :: mbuf and r :: redis_rsp and p
  show "result (parse_again b r p) \<in> {MSG_PARSE_AGAIN, MSG_PARSE_REPAIR}" by (simp add: parse_again_def Let_def)
qed (simp_all add: redis_rsp_step_mark redis_rsp_inv_def parse_done_mark parse_again_more parse_done_def,
    (blast dest: redis_rsp_step_Move [unfolded redis_rsp_inv_def] redis_rsp_step_Done)+)

text \<open>
  C19: the redis response parser always returns, although it re-reads some bytes: it stays
  within the buffer, and a response that wants more input can be parsed again.
\<close>
theorem redis_parse_rsp_total:
  assumes "redis_rsp_inv r (pos r)" "pos r \<le> mlast b"
  shows "\<exists>r'. redis_parse_rsp b r = Some r' \<and> (result r' \<noteq> MSG_PARSE_ERROR \<longrightarrow> pos r' \<le> mlast b) \<and>
     (result r' \<in> {MSG_PARSE_AGAIN, MSG_PARSE_REPAIR} \<longrightarrow> redis_rsp_inv r' (pos r'))"
  unfolding redis_parse_rsp_def by (rule redis_rsp.parse_with_total [OF assms])

theorem redis_parse_rsp_total_witness:
  "\<exists>r'. redis_parse_rsp (example_mbuf ''*1'') (fresh_msg SW_START) = Some r' \<and>
     (result r' \<noteq> MSG_PARSE_ERROR \<longrightarrow> pos r' \<le> mlast (example_mbuf ''*1'')) \<and>
     (result r' \<in> {MSG_PARSE_AGAIN, MSG_PARSE_REPAIR} \<longrightarrow> redis_rsp_inv r' (pos r'))"
  by (rule redis_parse_rsp_total) (simp_all add: fresh_msg_def redis_rsp_inv_def)

text \<open>
  C18: replies may arrive in pieces: however the bytes of a reply are cut into reads, as long
  as they fit the buffer, the parser reaches the result it reaches on all bytes at once.
\<close>
theorem redis_parse_rsp_pieces:
  assumes "redis_rsp_inv r (pos r)" "pos r \<le> mlast b" "[] \<notin> set es" "mlast b + length (concat es) < mend b"
  shows "rel_option (msg_agree (=)) (parse_pieces redis_parse_rsp b r es)
     (redis_parse_rsp (b\<lparr>mdata := mdata b @ concat es\<rparr>) r)"
proof -
  have "parse_pieces redis_parse_rsp b r es
      = parse_pieces (parse_with (redis_rsp_step (mid b)) parse_again (parse_done SW_START)) b r es"
    by (rule parse_pieces_cong) (simp add: redis_parse_rsp_def)
  then show ?thesis
    using redis_rsp.parse_pieces_whole [OF assms, of "mid b"] by (simp add: redis_parse_rsp_def)
qed

theorem redis_parse_rsp_pieces_witness:
  "rel_option (msg_agree (=))
     (parse_pieces redis_parse_rsp (example_mbuf ''$2'') (fresh_msg SW_START) [[CR], [LF, CHR ''a'']])
     (redis_parse_rsp ((example_mbuf ''$2'')\<lparr>mdata := ''$2'' @ concat [[CR], [LF, CHR ''a'']]\<rparr>) (fresh_msg SW_START))"
  using redis_parse_rsp_pieces [of "fresh_msg SW_START" "example_mbuf ''$2''" "[[CR], [LF, CHR ''a'']]"]
  by (simp add: fresh_msg_def example_mbuf_def redis_rsp_inv_def)

subsection \<open>Replies\<close>

text \<open>The reply forms of the protocol; an error is its first word and the text after the blank.\<close>

datatype redis_elem = E_bulk bytes | E_null | E_line char bytes

datatype redis_reply =
    R_status bytes | R_error bytes bytes | R_integer bytes | R_bulk bytes | R_null
  | R_multi "redis_elem list" | R_null_multi

fun encode_elem :: "redis_elem \<Rightarrow> bytes" where
  "encode_elem (E_bulk a) = redis_bulk a"
| "encode_elem E_null = [CHR ''$'', CHR ''-'', CHR ''1'', CR, LF]"
| "encode_elem (E_line c s) = c # s @ [CR, LF]"

fun encode_reply :: "redis_reply \<Rightarrow> bytes" where
  "encode_reply (R_status s) = CHR ''+'' # s @ [CR, LF]"
| "encode_reply (R_error w s) = CHR ''-'' # w @ CHR '' '' # s @ [CR, LF]"
| "encode_reply (R_integer ds) = CHR '':'' # ds @ [CR, LF]"
| "encode_reply (R_bulk a) = redis_bulk a"
| "encode_reply R_null = [CHR ''$'', CHR ''-'', CHR ''1'', CR, LF]"
| "encode_reply (R_multi es) = CHR ''*'' # show_nat (length es) @ [CR, LF] @ concat (map encode_elem es)"
| "encode_reply R_null_multi = [CHR ''*'', CHR ''-'', CHR ''1'', CR, LF]"

fun elem_ok :: "redis_elem \<Rightarrow> bool" where
  "elem_ok (E_bulk a) \<longleftrightarrow> length a < 2 ^ 32"
| "elem_ok E_null \<longleftrightarrow> True"
| "elem_ok (E_line c s) \<longleftrightarrow> c \<in> {CHR '':'', CHR ''+'', CHR ''-''} \<and> CR \<notin> set s"

fun reply_ok :: "redis_reply \<Rightarrow> bool" where
  "reply_ok (R_status s) \<longleftrightarrow> CR \<notin> set s"
| "reply_ok (R_error w s) \<longleftrightarrow> CR \<notin> set w \<and> CHR '' '' \<notin> set w \<and> CR \<notin> set s"
| "reply_ok (R_integer ds) \<longleftrightarrow> (\<forall>c \<in> set ds. isdigit c \<or> c = CHR ''-'')"
| "reply_ok (R_bulk a) \<longleftrightarrow> length a < 2 ^ 32"
| "reply_ok R_null \<longleftrightarrow> True"
| "reply_ok (R_multi es) \<longleftrightarrow> list_all elem_ok es \<and> length es < 2 ^ 32"
| "reply_ok R_null_multi \<longleftrightarrow> True"

fun reply_type :: "redis_reply \<Rightarrow> msg_type" where
  "reply_type (R_status s) = MSG_RSP_REDIS_STATUS"
| "reply_type (R_error w s) = first_cmp (redis_error_table (Suc (length w))) (CHR ''-'' # w) MSG_RSP_REDIS_ERROR"
| "reply_type (R_integer ds) = MSG_RSP_REDIS_INTEGER"
| "reply_type (R_bulk a) = MSG_RSP_REDIS_BULK"
| "reply_type R_null = MSG_RSP_REDIS_BULK"
| "reply_type (R_multi es) = MSG_RSP_REDIS_MULTIBULK"
| "reply_type R_null_multi = MSG_RSP_REDIS_MULTIBULK"

text \<open>\<open>accepted r p ty q\<close>: from \<open>r\<close> at \<open>p\<close> the parser succeeds at the LF at \<open>q\<close>, with type \<open>ty\<close>.\<close>

definition accepted :: "nat \<Rightarrow> bytes \<Rightarrow> redis_rsp \<Rightarrow> nat \<Rightarrow> msg_type \<Rightarrow> nat \<Rightarrow> bool" where
  "accepted bid d r p ty q \<longleftrightarrow> (\<exists>r'. parse_run (redis_rsp_step bid) d r p = Some (Done r' q) \<and> mtype r' = ty)"

lemma accepted_move:
  assumes "drop p d = x # xs" "redis_rsp_step bid d r p = Move r' p'" "accepted bid d r' p' ty q"
  shows "accepted bid d r p ty q"
  using dropD [OF assms(1)] assms(2,3) by (simp add: accepted_def parse_run_step)

lemma accepted_almost_done:
  assumes "drop p d = LF # xs" "state r = SW_ALMOST_DONE"
  shows "accepted bid d r p (mtype r) p"
  using dropD [OF assms(1)] assms(2)
  by (simp add: accepted_def parse_run_step redis_rsp_step_def redis_rsp_almost_done_def)

lemma accepted_runto:
  assumes "drop p d = s @ CR # LF # xs" "CR \<notin> set s" "state r = SW_RUNTO_CRLF"
  shows "accepted bid d r p (mtype r) (p + length s + 1)"
  using assms
proof (induction s arbitrary: p)
  case Nil
  then have at: "drop p d = CR # LF # xs" by simp
  have "accepted bid d (r\<lparr>state := SW_ALMOST_DONE\<rparr>) (p + 1) (mtype r) (p + 1)"
    using accepted_almost_done [of "p + 1" d xs "r\<lparr>state := SW_ALMOST_DONE\<rparr>"] dropD [OF at] by simp
  then show ?case
    using dropD [OF at] Nil.prems
    by (intro accepted_move [OF at]) (auto simp: redis_rsp_step_def redis_rsp_runto_crlf_def)
next
  case (Cons c s)
  then have at: "drop p d = c # s @ CR # LF # xs" by simp
  have "accepted bid d r (p + 1) (mtype r) (p + 1 + length s + 1)"
    using Cons.IH [of "p + 1"] Cons.prems dropD [OF at] by simp
  moreover have "redis_rsp_step bid d r p = Move r (p + 1)"
    using dropD [OF at] Cons.prems by (auto simp: redis_rsp_step_def redis_rsp_runto_crlf_def)
  ultimately show ?case using accepted_move [OF at] by simp
qed

lemma accepted_integer:
  assumes "drop p d = ds @ CR # LF # xs" "\<forall>c \<in> set ds. isdigit c \<or> c = CHR ''-''" "state r = SW_INTEGER_START"
  shows "accepted bid d r p (mtype r) (p + length ds + 1)"
  using assms
proof (induction ds arbitrary: p r)
  case Nil
  then have at: "drop p d = CR # LF # xs" by simp
  have "accepted bid d (r\<lparr>state := SW_ALMOST_DONE\<rparr>) (p + 1) (mtype r) (p + 1)"
    using accepted_almost_done [of "p + 1" d xs "r\<lparr>state := SW_ALMOST_DONE\<rparr>"] dropD [OF at] by simp
  then show ?case
    using dropD [OF at] Nil.prems
    by (intro accepted_move [OF at]) (auto simp: redis_rsp_step_def redis_rsp_integer_start_def)
next
  case (Cons c ds)
  then have at: "drop p d = c # ds @ CR # LF # xs" by simp
  define r1 where "r1 = (if c = CHR ''-'' then r else r\<lparr>rinteger := dec_digit (rinteger r) c\<rparr>)"
  have "accepted bid d r1 (p + 1) (mtype r) (p + 1 + length ds + 1)"
    using Cons.IH [of "p + 1" r1] Cons.prems dropD [OF at]
    by (cases "c = CHR ''-''") (simp_all add: r1_def)
  moreover have "redis_rsp_step bid d r p = Move r1 (p + 1)"
    using dropD [OF at] Cons.prems digit_other [of c]
    by (cases "c = CHR ''-''") (simp_all add: redis_rsp_step_def redis_rsp_integer_start_def r1_def)
  ultimately show ?case using accepted_move [OF at] by simp
qed

text \<open>The first word of an error reply.\<close>

lemma run_error_word:
  assumes "drop p d = w @ CHR '' '' # xs" "CR \<notin> set w" "CHR '' '' \<notin> set w" "state r = SW_ERROR" "token r = Some t"
  shows "parse_run (redis_rsp_step bid) d r p = parse_run (redis_rsp_step bid) d
     (r\<lparr>token := None, mtype := first_cmp (redis_error_table (p + length w - t)) (drop t d) (mtype r),
        state := SW_RUNTO_CRLF\<rparr>) (p + length w + 1)"
  using assms
proof (induction w arbitrary: p)
  case Nil
  then have at: "drop p d = CHR '' '' # xs" by simp
  from dropD [OF at] Nil.prems show ?case
    by (intro run_Move [where step = "redis_rsp_step bid", OF at]) (simp add: redis_rsp_step_def redis_rsp_error_def Let_def)
next
  case (Cons c w)
  then have at: "drop p d = c # w @ CHR '' '' # xs" by simp
  have "redis_rsp_step bid d r p = Move r (p + 1)"
    using dropD [OF at] Cons.prems by (auto simp: redis_rsp_step_def redis_rsp_error_def Let_def)
  from run_Move [where step = "redis_rsp_step bid", OF at this] Cons.IH [of "p + 1"] Cons.prems dropD [OF at]
  show ?case by simp
qed

lemma accepted_eq:
  "parse_run (redis_rsp_step bid) d r p = parse_run (redis_rsp_step bid) d r' p' \<Longrightarrow>
   accepted bid d r' p' ty q \<Longrightarrow> accepted bid d r p ty q"
  by (simp add: accepted_def)

text \<open>The decimal digits of a length or a count.\<close>

lemma run_rsp_len_digits:
  assumes "drop p d = ds @ xs" "\<forall>c \<in> set ds. isdigit c" "state r \<in> {SW_BULK, SW_MULTIBULK_ARGN_LEN}" "token r = Some t"
  shows "parse_run (redis_rsp_step bid) d r p
    = parse_run (redis_rsp_step bid) d (r\<lparr>rlen := foldl dec_digit (rlen r) ds\<rparr>) (p + length ds)"
  using assms
proof (induction ds arbitrary: r p)
  case (Cons c ds)
  then have at: "drop p d = c # ds @ xs" by simp
  have "redis_rsp_step bid d r p = Move (r\<lparr>rlen := dec_digit (rlen r) c\<rparr>) (p + 1)"
    using dropD [OF at] Cons.prems digit_other [of c]
    by (auto simp: redis_rsp_step_def redis_rsp_bulk_def redis_rsp_multibulk_argn_len_def)
  from run_Move [where step = "redis_rsp_step bid", OF at this] show ?case
    using Cons.IH [of "p + 1" "r\<lparr>rlen := dec_digit (rlen r) c\<rparr>"] Cons.prems dropD [OF at] by simp
qed simp

lemma run_rsp_narg_digits:
  assumes "drop p d = ds @ xs" "\<forall>c \<in> set ds. isdigit c" "state r = SW_MULTIBULK" "token r = Some t"
  shows "parse_run (redis_rsp_step bid) d r p
    = parse_run (redis_rsp_step bid) d (r\<lparr>rnarg := foldl dec_digit (rnarg r) ds\<rparr>) (p + length ds)"
  using assms
proof (induction ds arbitrary: r p)
  case (Cons c ds)
  then have at: "drop p d = c # ds @ xs" by simp
  have "redis_rsp_step bid d r p = Move (r\<lparr>rnarg := dec_digit (rnarg r) c\<rparr>) (p + 1)"
    using dropD [OF at] Cons.prems digit_other [of c]
    by (auto simp: redis_rsp_step_def redis_rsp_multibulk_def)
  from run_Move [where step = "redis_rsp_step bid", OF at this] show ?case
    using Cons.IH [of "p + 1" "r\<lparr>rnarg := dec_digit (rnarg r) c\<rparr>"] Cons.prems dropD [OF at] by simp
qed simp

text \<open>A bulk reply.\<close>

lemma accepted_bulk:
  assumes at: "drop p d = redis_bulk a @ xs" and a: "length a < 2 ^ 32" and r: "state r = SW_BULK" "token r = None"
  shows "accepted bid d r p (mtype r) (p + length (redis_bulk a) - 1)"
proof -
  let ?n = "show_nat (length a)"
  define p1 where "p1 = p + 1 + length ?n"
  have at0: "drop p d = CHR ''$'' # ?n @ CR # LF # a @ CR # LF # xs"
    using at by (simp add: redis_bulk_def redis_len_line_def)
  have at1: "drop (p + 1) d = ?n @ CR # LF # a @ CR # LF # xs" using dropD(3) [OF at0] by simp
  have at2: "drop p1 d = CR # LF # a @ CR # LF # xs" using drop_shift [OF at1] by (simp add: p1_def)
  have at3: "drop (p1 + 1) d = LF # a @ CR # LF # xs" using dropD(3) [OF at2] by simp
  have at4: "drop (p1 + 2) d = a @ CR # LF # xs" using dropD(3) [OF at3] by simp
  have at5: "drop (p1 + 2 + length a) d = CR # LF # xs" using drop_shift [OF at4] by simp
  have at6: "drop (p1 + 2 + length a + 1) d = LF # xs" using dropD(3) [OF at5] by simp
  let ?r1 = "r\<lparr>token := Some p, rlen := 0\<rparr>"
  let ?r2 = "r\<lparr>token := Some p, rlen := of_nat (length a)\<rparr>"
  let ?r3 = "r\<lparr>token := None, rlen := of_nat (length a), state := SW_BULK_LF\<rparr>"
  let ?r4 = "r\<lparr>token := None, rlen := of_nat (length a), state := SW_BULK_ARG\<rparr>"
  let ?r5 = "r\<lparr>token := None, rlen := 0, state := SW_BULK_ARG_LF\<rparr>"
  let ?run = "parse_run (redis_rsp_step bid) d"
  have "?run r p = ?run ?r1 (p + 1)"
    using dropD [OF at0] r
    by (intro run_Move [where step = "redis_rsp_step bid", OF at0]) (simp add: redis_rsp_step_def redis_rsp_bulk_def)
  also have "\<dots> = ?run ?r2 p1"
    using run_rsp_len_digits [OF at1 show_nat_digits, of ?r1 p bid] r by (simp add: p1_def show_nat_value)
  also have "\<dots> = ?run ?r3 (p1 + 1)"
    using dropD [OF at2] r
    by (intro run_Move [where step = "redis_rsp_step bid", OF at2])
      (simp add: redis_rsp_step_def redis_rsp_bulk_def p1_def)
  also have "\<dots> = ?run ?r4 (p1 + 2)"
    using dropD [OF at3]
    by (intro run_Move [where step = "redis_rsp_step bid", OF at3])
      (simp add: redis_rsp_step_def redis_rsp_bulk_lf_def lf_step_def)
  also have "\<dots> = ?run ?r5 (p1 + 2 + length a + 1)"
    using run_skip [OF at4, of SW_BULK_ARG "redis_rsp_step bid" SW_BULK_ARG_LF ?r4] a
    by (simp add: redis_rsp_step_def redis_rsp_bulk_arg_def)
  also have "\<dots> = Some (Done ?r5 (p1 + 2 + length a + 1))"
    using dropD [OF at6] by (simp add: parse_run_step redis_rsp_step_def redis_rsp_bulk_arg_lf_def)
  finally show ?thesis
    by (simp add: accepted_def redis_bulk_def redis_len_line_def p1_def algebra_simps)
qed

text \<open>The elements of a multi-bulk reply; \<open>rest_of\<close> is the message after one element.\<close>

definition rest_of :: "redis_rsp \<Rightarrow> redis_rsp" where
  "rest_of r = r\<lparr>rnarg := rnarg r - 1, token := None, rlen := 0, state := SW_MULTIBULK_ARGN_LF\<rparr>"

lemma run_elem_bulk:
  assumes at: "drop p d = redis_bulk a @ xs" and a: "length a < 2 ^ 32"
    and r: "state r = SW_MULTIBULK_ARGN_LEN" "token r = None" "rnarg r \<noteq> 0"
  shows "parse_run (redis_rsp_step bid) d r p
    = parse_run (redis_rsp_step bid) d (rest_of r) (p + length (redis_bulk a) - 1)"
proof -
  let ?n = "show_nat (length a)"
  define p1 where "p1 = p + 1 + length ?n"
  have at0: "drop p d = CHR ''$'' # ?n @ CR # LF # a @ CR # LF # xs"
    using at by (simp add: redis_bulk_def redis_len_line_def)
  have at1: "drop (p + 1) d = ?n @ CR # LF # a @ CR # LF # xs" using dropD(3) [OF at0] by simp
  have at2: "drop p1 d = CR # LF # a @ CR # LF # xs" using drop_shift [OF at1] by (simp add: p1_def)
  have at3: "drop (p1 + 1) d = LF # a @ CR # LF # xs" using dropD(3) [OF at2] by simp
  have at4: "drop (p1 + 2) d = a @ CR # LF # xs" using dropD(3) [OF at3] by simp
  have one: "\<not> (of_nat (length a) = (1 :: 32 word) \<and> length ?n = 2)"
  proof
    assume *: "of_nat (length a) = (1 :: 32 word) \<and> length ?n = 2"
    then have "unat (of_nat (length a) :: 32 word) = 1" by simp
    with a have "length a = 1" by (simp add: unsigned_of_nat take_bit_nat_eq_self)
    with * show False by (simp add: show_nat.simps)
  qed
  let ?r1 = "r\<lparr>token := Some p, rlen := 0\<rparr>"
  let ?r2 = "r\<lparr>token := Some p, rlen := of_nat (length a)\<rparr>"
  let ?r3 = "r\<lparr>rnarg := rnarg r - 1, token := None, rlen := of_nat (length a), state := SW_MULTIBULK_ARGN_LEN_LF\<rparr>"
  let ?r4 = "r\<lparr>rnarg := rnarg r - 1, token := None, rlen := of_nat (length a), state := SW_MULTIBULK_ARGN\<rparr>"
  let ?run = "parse_run (redis_rsp_step bid) d"
  have "?run r p = ?run ?r1 (p + 1)"
    using dropD [OF at0] r
    by (intro run_Move [where step = "redis_rsp_step bid", OF at0])
      (simp add: redis_rsp_step_def redis_rsp_multibulk_argn_len_def)
  also have "\<dots> = ?run ?r2 p1"
    using run_rsp_len_digits [OF at1 show_nat_digits, of ?r1 p bid] r by (simp add: p1_def show_nat_value)
  also have "\<dots> = ?run ?r3 (p1 + 1)"
    using dropD [OF at2] r one
    by (intro run_Move [where step = "redis_rsp_step bid", OF at2])
      (auto simp: redis_rsp_step_def redis_rsp_multibulk_argn_len_def p1_def)
  also have "\<dots> = ?run ?r4 (p1 + 2)"
    using dropD [OF at3]
    by (intro run_Move [where step = "redis_rsp_step bid", OF at3])
      (simp add: redis_rsp_step_def redis_rsp_multibulk_argn_len_lf_def lf_step_def)
  also have "\<dots> = ?run (rest_of r) (p1 + 2 + length a + 1)"
    using run_skip [OF at4, of SW_MULTIBULK_ARGN "redis_rsp_step bid" SW_MULTIBULK_ARGN_LF ?r4] a
    by (simp add: redis_rsp_step_def redis_rsp_multibulk_argn_def rest_of_def)
  finally show ?thesis by (simp add: redis_bulk_def redis_len_line_def p1_def algebra_simps)
qed

lemma run_elem_null:
  assumes at: "drop p d = encode_elem E_null @ xs"
    and r: "state r = SW_MULTIBULK_ARGN_LEN" "token r = None" "rnarg r \<noteq> 0"
  shows "parse_run (redis_rsp_step bid) d r p = parse_run (redis_rsp_step bid) d (rest_of r) (p + length (encode_elem E_null) - 1)"
proof -
  have at0: "drop p d = CHR ''$'' # CHR ''-'' # CHR ''1'' # CR # LF # xs" using at by simp
  have at1: "drop (p + 1) d = CHR ''-'' # CHR ''1'' # CR # LF # xs" using dropD(3) [OF at0] by simp
  have at2: "drop (p + 2) d = CHR ''1'' # CR # LF # xs" using dropD(3) [OF at1] by simp
  have at3: "drop (Suc (Suc (Suc p))) d = CR # LF # xs" using dropD(3) [OF at2] by simp
  have d: "isdigit CHR ''1''" "\<not> isdigit CHR ''-''" "dec_digit 0 CHR ''1'' = 1"
    by (simp_all add: isdigit_def dec_digit_def uchar32_def)
  have eq: "r\<lparr>rlen := 0, state := SW_MULTIBULK_ARGN_LF, rnarg := rnarg r - 1, token := None\<rparr> = rest_of r"
    by (simp add: rest_of_def)
  show ?thesis
    using dropD [OF at0] dropD [OF at1] dropD [OF at2] dropD [OF at3] r
    by (simp add: parse_run_step redis_rsp_step_def redis_rsp_multibulk_argn_len_def d eq)
qed

lemma run_elem_line:
  assumes at: "drop p d = s @ CR # xs" and s: "CR \<notin> set s" and r: "state r = SW_SIMPLE"
  shows "parse_run (redis_rsp_step bid) d r p
    = parse_run (redis_rsp_step bid) d (r\<lparr>state := SW_MULTIBULK_ARGN_LF, rnarg := rnarg r - 1\<rparr>) (p + length s + 1)"
  using at s
proof (induction s arbitrary: p)
  case Nil
  with r dropD [of p d CR xs] show ?case
    by (simp add: parse_run_step redis_rsp_step_def redis_rsp_simple_def)
next
  case (Cons c s)
  then have at: "drop p d = c # s @ CR # xs" by simp
  have "redis_rsp_step bid d r p = Move r (p + 1)"
    using dropD [OF at] Cons.prems r by (auto simp: redis_rsp_step_def redis_rsp_simple_def)
  from run_Move [where step = "redis_rsp_step bid", OF at this] show ?case
    using Cons.IH [of "p + 1"] Cons.prems dropD [OF at] by simp
qed

text \<open>After an element the parser is at its LF, one element fewer to come.\<close>

lemma run_elem:
  assumes at: "drop p d = encode_elem e @ xs" and e: "elem_ok e"
    and r: "state r = SW_MULTIBULK_ARGN_LEN" "token r = None" "rnarg r \<noteq> 0"
  shows "\<exists>r'. parse_run (redis_rsp_step bid) d r p
      = parse_run (redis_rsp_step bid) d r' (p + length (encode_elem e) - 1) \<and>
    state r' = SW_MULTIBULK_ARGN_LF \<and> token r' = None \<and> rnarg r' = rnarg r - 1 \<and> mtype r' = mtype r"
proof (cases e)
  case (E_bulk a)
  with run_elem_bulk [OF _ _ r] at e show ?thesis by (intro exI [of _ "rest_of r"]) (simp add: rest_of_def)
next
  case E_null
  with run_elem_null [OF _ r] at show ?thesis by (intro exI [of _ "rest_of r"]) (simp add: rest_of_def)
next
  case (E_line c s)
  then have at0: "drop p d = c # s @ CR # LF # xs" using at by simp
  have "redis_rsp_step bid d r p = Move (r\<lparr>state := SW_SIMPLE\<rparr>) (p + 1)"
    using dropD [OF at0] r e E_line by (auto simp: redis_rsp_step_def redis_rsp_multibulk_argn_len_def)
  from run_Move [where step = "redis_rsp_step bid", OF at0 this] show ?thesis
    using run_elem_line [of "p + 1" d s "LF # xs" "r\<lparr>state := SW_SIMPLE\<rparr>" bid] dropD(3) [OF at0] e E_line r
    by (intro exI [of _ "r\<lparr>state := SW_MULTIBULK_ARGN_LF, rnarg := rnarg r - 1\<rparr>"]) simp
qed

lemma encode_elem_ends: "\<exists>b. encode_elem e = b @ [LF] \<and> b \<noteq> []"
  by (cases e) (auto simp: redis_bulk_def redis_len_line_def)

lemma accepted_elems:
  assumes "drop p d = concat (map encode_elem es) @ xs" "list_all elem_ok es" "es \<noteq> []"
    and "length es < 2 ^ 32" "state r = SW_MULTIBULK_ARGN_LEN" "token r = None" "rnarg r = of_nat (length es)"
  shows "accepted bid d r p (mtype r) (p + length (concat (map encode_elem es)) - 1)"
  using assms
proof (induction es arbitrary: p r)
  case (Cons e es)
  obtain b where b: "encode_elem e = b @ [LF]" "b \<noteq> []" using encode_elem_ends by blast
  have at: "drop p d = encode_elem e @ concat (map encode_elem es) @ xs" using Cons.prems(1) by simp
  have lf: "drop (p + length b) d = LF # concat (map encode_elem es) @ xs"
    using drop_shift [of p d b] at b(1) by simp
  have "unat (rnarg r) = length (e # es)"
    unfolding Cons.prems(7) by (rule unat_of_nat_small [OF Cons.prems(4)])
  then have "rnarg r \<noteq> 0" by auto
  with run_elem [OF at _ Cons.prems(5,6)] Cons.prems(2) obtain r' where r':
    "parse_run (redis_rsp_step bid) d r p = parse_run (redis_rsp_step bid) d r' (p + length b)"
    "state r' = SW_MULTIBULK_ARGN_LF" "token r' = None" "rnarg r' = of_nat (length es)" "mtype r' = mtype r"
    using Cons.prems(7) b(1) by auto
  show ?case
  proof (cases "es = []")
    case True
    then have "accepted bid d r' (p + length b) (mtype r) (p + length b)"
      using dropD [OF lf] r' by (simp add: accepted_def parse_run_step redis_rsp_step_def redis_rsp_multibulk_argn_lf_def)
    with accepted_eq [OF r'(1)] True b show ?thesis by simp
  next
    case False
    have "unat (rnarg r') = length es"
      using Cons.prems(4) r'(4) by (simp add: unsigned_of_nat take_bit_nat_eq_self)
    with False have "rnarg r' \<noteq> 0" by auto
    then have "accepted bid d r' (p + length b) (mtype r) (p + length b + 1 + length (concat (map encode_elem es)) - 1)"
      using Cons.IH [of "p + length b + 1" "r'\<lparr>state := SW_MULTIBULK_ARGN_LEN\<rparr>"] Cons.prems(2,4) False r' dropD [OF lf]
      by (intro accepted_move [OF lf]) (simp_all add: redis_rsp_step_def redis_rsp_multibulk_argn_lf_def)
    with accepted_eq [OF r'(1)] b show ?thesis by (simp add: algebra_simps)
  qed
qed simp

text \<open>A multi-bulk reply: the count, then the elements.\<close>

lemma accepted_multi:
  assumes at: "drop p d = encode_reply (R_multi es) @ xs" and ok: "reply_ok (R_multi es)"
    and r: "state r = SW_MULTIBULK" "token r = None"
  shows "accepted bid d r p (mtype r) (p + length (encode_reply (R_multi es)) - 1)"
proof -
  let ?n = "show_nat (length es)" and ?es = "concat (map encode_elem es)"
  define p1 where "p1 = p + 1 + length ?n"
  have at0: "drop p d = CHR ''*'' # ?n @ CR # LF # ?es @ xs" using at by simp
  have at1: "drop (p + 1) d = ?n @ CR # LF # ?es @ xs" using dropD(3) [OF at0] by simp
  have at2: "drop p1 d = CR # LF # ?es @ xs" using drop_shift [OF at1] by (simp add: p1_def)
  have at3: "drop (p1 + 1) d = LF # ?es @ xs" using dropD(3) [OF at2] by simp
  have at4: "drop (p1 + 2) d = ?es @ xs" using dropD(3) [OF at3] by simp
  let ?r1 = "r\<lparr>token := Some p, narg_start := Some (bid, p), rnarg := 0\<rparr>"
  let ?r2 = "r\<lparr>token := Some p, narg_start := Some (bid, p), rnarg := of_nat (length es)\<rparr>"
  let ?r3 = "r\<lparr>narg_start := Some (bid, p), rnarg := of_nat (length es), narg := of_nat (length es),
    narg_end := Some (bid, p1), token := None, state := SW_MULTIBULK_NARG_LF\<rparr>"
  let ?run = "parse_run (redis_rsp_step bid) d"
  have "?run r p = ?run ?r1 (p + 1)"
    using dropD [OF at0] r
    by (intro run_Move [where step = "redis_rsp_step bid", OF at0]) (simp add: redis_rsp_step_def redis_rsp_multibulk_def)
  also have "\<dots> = ?run ?r2 p1"
    using run_rsp_narg_digits [OF at1 show_nat_digits, of ?r1 p bid] r by (simp add: p1_def show_nat_value)
  also have "\<dots> = ?run ?r3 (p1 + 1)"
    using dropD [OF at2] r
    by (intro run_Move [where step = "redis_rsp_step bid", OF at2])
      (simp add: redis_rsp_step_def redis_rsp_multibulk_def p1_def)
  finally have run: "?run r p = ?run ?r3 (p1 + 1)" .
  have len: "p + length (encode_reply (R_multi es)) - 1 = p1 + 1 + length ?es" by (simp add: p1_def)
  have u: "unat (rnarg ?r3) = length es" using ok unat_of_nat_small by simp
  have "accepted bid d ?r3 (p1 + 1) (mtype r) (p1 + 1 + length ?es)"
  proof (cases "es = []")
    case True
    then show ?thesis
      using dropD [OF at3]
      by (simp add: accepted_def parse_run_step redis_rsp_step_def redis_rsp_multibulk_narg_lf_def)
  next
    case False
    with u have "rnarg ?r3 \<noteq> 0" by force
    then show ?thesis
      using dropD [OF at3] ok False accepted_elems [OF at4, of "?r3\<lparr>state := SW_MULTIBULK_ARGN_LEN\<rparr>" bid]
      by (intro accepted_move [OF at3]) (auto simp: redis_rsp_step_def redis_rsp_multibulk_narg_lf_def)
  qed
  from accepted_eq [OF run this] show ?thesis unfolding len .
qed

text \<open>An error reply: its first word decides the type, the rest of the line is skipped.\<close>

lemma accepted_error:
  assumes at: "drop p d = encode_reply (R_error w s) @ xs" and ok: "reply_ok (R_error w s)"
    and r: "state r = SW_ERROR" "token r = None" "mtype r = MSG_RSP_REDIS_ERROR"
  shows "accepted bid d r p (reply_type (R_error w s)) (p + length (encode_reply (R_error w s)) - 1)"
proof -
  define e where "e = CHR '' '' # s @ CR # LF # xs"
  have at0: "drop p d = CHR ''-'' # w @ CHR '' '' # s @ CR # LF # xs" using at by simp
  have at1: "drop (p + 1) d = w @ CHR '' '' # s @ CR # LF # xs" using dropD(3) [OF at0] by simp
  have at2: "drop (p + 1 + length w + 1) d = s @ CR # LF # xs"
    using dropD(3) [OF drop_shift [OF at1]] by simp
  let ?T = "redis_error_table (Suc (length w))"
  let ?r = "r\<lparr>token := None, mtype := first_cmp ?T (CHR ''-'' # w) MSG_RSP_REDIS_ERROR, state := SW_RUNTO_CRLF\<rparr>"
  have "first_cmp ?T ((CHR ''-'' # w) @ e) (mtype r) = first_cmp ?T (CHR ''-'' # w) (mtype r)"
    using redis_error_table_length [of "Suc (length w)"] by (intro first_cmp_append) auto
  then have "first_cmp ?T (drop p d) (mtype r) = first_cmp ?T (CHR ''-'' # w) MSG_RSP_REDIS_ERROR"
    using r at0 by (simp add: e_def)
  moreover have "redis_rsp_step bid d r p = Move (r\<lparr>token := Some p\<rparr>) (p + 1)"
    using dropD [OF at0] r by (simp add: redis_rsp_step_def redis_rsp_error_def Let_def)
  ultimately have run: "parse_run (redis_rsp_step bid) d r p = parse_run (redis_rsp_step bid) d ?r (p + 1 + length w + 1)"
    using run_Move [where step = "redis_rsp_step bid", OF at0]
      run_error_word [OF at1, of "r\<lparr>token := Some p\<rparr>" p bid] ok r by simp
  from accepted_eq [OF run accepted_runto [OF at2, of ?r bid]] ok show ?thesis by (simp add: add.assoc)
qed

lemma accepted_null:
  assumes at: "drop p d = [c, CHR ''-'', CHR ''1'', CR, LF] @ xs" and c: "c = CHR ''$'' \<and> state r = SW_BULK \<or> c = CHR ''*'' \<and> state r = SW_MULTIBULK"
    and r: "token r = None"
  shows "accepted bid d r p (mtype r) (p + 4)"
proof -
  have at0: "drop p d = c # CHR ''-'' # CHR ''1'' # CR # LF # xs" using at by simp
  have at1: "drop (p + 1) d = CHR ''-'' # CHR ''1'' # CR # LF # xs" using dropD(3) [OF at0] by simp
  have at2: "drop (p + 2) d = [CHR ''1''] @ CR # LF # xs" using dropD(3) [OF at1] by simp
  obtain r1 where r1: "redis_rsp_step bid d r p = Move r1 (p + 1)" "state r1 = state r" "token r1 = Some p" "mtype r1 = mtype r"
    using dropD [OF at0] r c by (auto simp: redis_rsp_step_def redis_rsp_bulk_def redis_rsp_multibulk_def)
  have "redis_rsp_step bid d r1 (p + 1) = Move (r1\<lparr>state := SW_RUNTO_CRLF\<rparr>) (p + 2)"
    using dropD [OF at1] r1 c by (auto simp: redis_rsp_step_def redis_rsp_bulk_def redis_rsp_multibulk_def)
  moreover have "accepted bid d (r1\<lparr>state := SW_RUNTO_CRLF\<rparr>) (p + 2) (mtype r) (p + 4)"
    using accepted_runto [OF at2, of "r1\<lparr>state := SW_RUNTO_CRLF\<rparr>" bid] r1 by (simp add: CR_def eval_nat_numeral)
  ultimately show ?thesis using accepted_move [OF at0 r1(1) accepted_move [OF at1]] by blast
qed

lemma accepted_two:
  assumes "drop p d = x # xs" "redis_rsp_step bid d r p = Move r1 p" "redis_rsp_step bid d r1 p = Move r' (p + 1)"
    "accepted bid d r' (p + 1) ty q"
  shows "accepted bid d r p ty q"
  using accepted_move [OF assms(1,2) accepted_move [OF assms(1,3,4)]] .

lemma encode_reply_hd: "reply_ok y \<Longrightarrow> \<exists>xs. encode_reply y = (case y of R_status _ \<Rightarrow> CHR ''+'' | R_error _ _ \<Rightarrow> CHR ''-''
    | R_integer _ \<Rightarrow> CHR '':'' | R_bulk _ \<Rightarrow> CHR ''$'' | R_null \<Rightarrow> CHR ''$'' | _ \<Rightarrow> CHR ''*'') # xs"
  by (cases y) (auto simp: redis_bulk_def redis_len_line_def)

lemma accepted_reply:
  assumes at: "drop p d = encode_reply y @ xs" and ok: "reply_ok y" and r: "state r = SW_START" "token r = None"
  shows "accepted bid d r p (reply_type y) (p + length (encode_reply y) - 1)"
proof -
  obtain c ys where c: "drop p d = c # ys" using at encode_reply_hd [OF ok] by auto
  note d = dropD [OF c]
  show ?thesis
  proof (cases y)
    case (R_status s)
    then have at1: "drop (p + 1) d = s @ CR # LF # xs" using at dropD(3) [of p d "CHR ''+''"] by simp
    let ?r = "r\<lparr>mtype := MSG_RSP_REDIS_STATUS, state := SW_RUNTO_CRLF\<rparr>"
    show ?thesis
      using R_status at ok r c d accepted_runto [OF at1, of ?r bid]
      by (intro accepted_two [OF c, where r' = ?r]) (auto simp: redis_rsp_step_def redis_rsp_start_def redis_rsp_status_def)
  next
    case (R_error w s)
    with at ok r c d accepted_error [of p d w s xs "r\<lparr>mtype := MSG_RSP_REDIS_ERROR, state := SW_ERROR\<rparr>" bid]
    show ?thesis by (intro accepted_move [OF c]) (auto simp: redis_rsp_step_def redis_rsp_start_def)
  next
    case (R_integer ds)
    then have at1: "drop (p + 1) d = ds @ CR # LF # xs" using at dropD(3) [of p d "CHR '':''"] by simp
    let ?r = "r\<lparr>mtype := MSG_RSP_REDIS_INTEGER, state := SW_INTEGER_START, rinteger := 0\<rparr>"
    show ?thesis
      using R_integer at ok r c d accepted_integer [OF at1, of ?r bid]
      by (intro accepted_two [OF c, where r' = ?r]) (auto simp: redis_rsp_step_def redis_rsp_start_def redis_rsp_integer_def)
  next
    case (R_bulk a)
    with at ok r c d accepted_bulk [of p d a xs "r\<lparr>mtype := MSG_RSP_REDIS_BULK, state := SW_BULK\<rparr>" bid]
    show ?thesis
      by (intro accepted_move [OF c]) (auto simp: redis_rsp_step_def redis_rsp_start_def redis_bulk_def redis_len_line_def)
  next
    case R_null
    with at r c d accepted_null [of p d "CHR ''$''" xs "r\<lparr>mtype := MSG_RSP_REDIS_BULK, state := SW_BULK\<rparr>" bid]
    show ?thesis by (intro accepted_move [OF c]) (auto simp: redis_rsp_step_def redis_rsp_start_def eval_nat_numeral)
  next
    case (R_multi es)
    with at ok r c d accepted_multi [of p d es xs "r\<lparr>mtype := MSG_RSP_REDIS_MULTIBULK, state := SW_MULTIBULK\<rparr>" bid]
    show ?thesis by (intro accepted_move [OF c]) (auto simp: redis_rsp_step_def redis_rsp_start_def)
  next
    case R_null_multi
    with at r c d accepted_null [of p d "CHR ''*''" xs "r\<lparr>mtype := MSG_RSP_REDIS_MULTIBULK, state := SW_MULTIBULK\<rparr>" bid]
    show ?thesis by (intro accepted_move [OF c]) (auto simp: redis_rsp_step_def redis_rsp_start_def eval_nat_numeral)
  qed
qed

lemma redis_parse_rsp_accepted:
  assumes "accepted (mid b) (mdata b) r (pos r) ty q"
  shows "\<exists>r'. redis_parse_rsp b r = Some r' \<and> result r' = MSG_PARSE_OK \<and> mtype r' = ty \<and> pos r' = q + 1"
  using assms by (auto simp: accepted_def redis_parse_rsp_def parse_with_def parse_run_def parse_done_def)

text \<open>
  C4: the response parser inverts the protocol.  A status, an error with a text, an integer,
  a bulk, a null or a multi-bulk reply is accepted whatever follows it in the buffer; the parser
  stops exactly behind it, with the type of the reply.
\<close>
theorem redis_parse_rsp_roundtrip:
  assumes ok: "reply_ok y" and b: "mdata b = pre @ encode_reply y @ rest"
    and r: "r = (fresh_msg SW_START)\<lparr>pos := length pre\<rparr>"
  shows "\<exists>r'. redis_parse_rsp b r = Some r' \<and> result r' = MSG_PARSE_OK \<and> mtype r' = reply_type y \<and>
     pos r' = length pre + length (encode_reply y)"
proof -
  have "length (encode_reply y) > 0" using encode_reply_hd [OF ok] by auto
  moreover have "accepted (mid b) (mdata b) r (length pre) (reply_type y) (length pre + length (encode_reply y) - 1)"
    using b r by (intro accepted_reply [OF _ ok]) (simp_all add: fresh_msg_def)
  ultimately show ?thesis using redis_parse_rsp_accepted [of b r] r by fastforce
qed

theorem redis_parse_rsp_roundtrip_witness:
  "\<exists>r'. redis_parse_rsp (example_mbuf (''xy'' @ encode_reply (R_multi [E_bulk ''ab'', E_null]) @ ''z''))
       ((fresh_msg SW_START)\<lparr>pos := length ''xy''\<rparr>) = Some r' \<and>
     result r' = MSG_PARSE_OK \<and> mtype r' = reply_type (R_multi [E_bulk ''ab'', E_null]) \<and>
     pos r' = length ''xy'' + length (encode_reply (R_multi [E_bulk ''ab'', E_null]))"
  by (rule redis_parse_rsp_roundtrip [where rest = "''z''"]) (simp_all add: example_mbuf_def)

text \<open>The first word of an error reply that ends the line.\<close>

lemma run_error_word_CR:
  assumes "drop p d = w @ CR # xs" "CR \<notin> set w" "CHR '' '' \<notin> set w" "state r = SW_ERROR" "token r = Some t"
  shows "\<exists>r'. parse_run (redis_rsp_step bid) d r p = parse_run (redis_rsp_step bid) d r' (p + length w + 1) \<and>
    state r' = SW_RUNTO_CRLF \<and> token r' = None"
  using assms
proof (induction w arbitrary: p)
  case Nil
  then have at: "drop p d = CR # xs" by simp
  have "redis_rsp_step bid d r p = Move (r\<lparr>token := None, mtype := first_cmp (redis_error_table (p - t)) (drop t d) (mtype r),
      state := SW_RUNTO_CRLF\<rparr>) (p + 1)"
    using dropD [OF at] Nil.prems by (simp add: redis_rsp_step_def redis_rsp_error_def Let_def)
  from run_Move [where step = "redis_rsp_step bid", OF at this] show ?case by force
next
  case (Cons c w)
  then have at: "drop p d = c # w @ CR # xs" by simp
  have "redis_rsp_step bid d r p = Move r (p + 1)"
    using dropD [OF at] Cons.prems by (auto simp: redis_rsp_step_def redis_rsp_error_def Let_def)
  from run_Move [where step = "redis_rsp_step bid", OF at this] Cons.IH [of "p + 1"] Cons.prems dropD [OF at]
  show ?case by simp
qed

lemma run_one_word_error:
  assumes at0: "drop p d = CHR ''-'' # w @ CR # xs" and w: "CR \<notin> set w" "CHR '' '' \<notin> set w"
    and r: "state r = SW_START" "token r = None"
  shows "\<exists>r'. parse_run (redis_rsp_step bid) d r p = parse_run (redis_rsp_step bid) d r' (p + 1 + length w + 1) \<and>
    state r' = SW_RUNTO_CRLF \<and> token r' = None"
proof -
  let ?r1 = "r\<lparr>mtype := MSG_RSP_REDIS_ERROR, state := SW_ERROR\<rparr>"
  have at1: "drop (p + 1) d = w @ CR # xs" using dropD(3) [OF at0] by simp
  have s1: "redis_rsp_step bid d r p = Move ?r1 p"
    using dropD [OF at0] r by (simp add: redis_rsp_step_def redis_rsp_start_def)
  have s2: "redis_rsp_step bid d ?r1 p = Move (?r1\<lparr>token := Some p\<rparr>) (p + 1)"
    using dropD [OF at0] r by (simp add: redis_rsp_step_def redis_rsp_error_def Let_def)
  from run_error_word_CR [OF at1 w, of "?r1\<lparr>token := Some p\<rparr>" p bid]
    run_Move [where step = "redis_rsp_step bid", OF at0 s1] run_Move [where step = "redis_rsp_step bid", OF at0 s2]
  show ?thesis by simp
qed

text \<open>
  C20: an error reply of one word, such as \<open>-LOADING\<close>, is not recognised when it is complete: its
  CR only ends the word, so the parser asks for more input at the end of the line, and then
  takes the line after it, which is the next reply, for the rest of the same reply.
\<close>
theorem redis_parse_rsp_one_word_error:
  assumes w: "CR \<notin> set w" "CHR '' '' \<notin> set w" and s: "CR \<notin> set s" and fits: "length w + 3 < mend b"
  shows "(\<exists>r'. redis_parse_rsp (b\<lparr>mdata := CHR ''-'' # w @ [CR, LF]\<rparr>) (fresh_msg SW_START) = Some r' \<and>
      result r' = MSG_PARSE_AGAIN) \<and>
    (\<exists>r'. redis_parse_rsp (b\<lparr>mdata := CHR ''-'' # w @ [CR, LF] @ s @ [CR, LF]\<rparr>) (fresh_msg SW_START) = Some r' \<and>
      result r' = MSG_PARSE_OK \<and> pos r' = length w + 3 + length s + 2)"
proof
  let ?run = "\<lambda>d. parse_run (redis_rsp_step (mid b)) d"
  let ?d = "CHR ''-'' # w @ [CR, LF]"
  obtain r1 where r1: "?run ?d (fresh_msg SW_START) 0 = ?run ?d r1 (length w + 2)" "state r1 = SW_RUNTO_CRLF" "token r1 = None"
    using run_one_word_error [of 0 ?d w "[LF]" "fresh_msg SW_START" "mid b"] w by (auto simp: fresh_msg_def)
  have "?run ?d r1 (length w + 2) = Some (Move r1 (length w + 3))"
    using r1(2) by (simp add: parse_run_step parse_run_def parse_loop.simps redis_rsp_step_def redis_rsp_runto_crlf_def nth_append)
  with r1(1,3) fits show "\<exists>r'. redis_parse_rsp (b\<lparr>mdata := ?d\<rparr>) (fresh_msg SW_START) = Some r' \<and> result r' = MSG_PARSE_AGAIN"
    by (simp add: redis_parse_rsp_def parse_with_def parse_run_def fresh_msg_def parse_again_def)
next
  let ?d = "CHR ''-'' # w @ [CR, LF] @ s @ [CR, LF]"
  have "drop 0 ?d = CHR ''-'' # w @ CR # LF # s @ [CR, LF]" by simp
  from run_one_word_error [OF this w, of "fresh_msg SW_START" "mid b"] obtain r1 where
    r1: "parse_run (redis_rsp_step (mid b)) ?d (fresh_msg SW_START) 0 = parse_run (redis_rsp_step (mid b)) ?d r1 (length w + 2)"
    "state r1 = SW_RUNTO_CRLF" "token r1 = None"
    by (auto simp: fresh_msg_def)
  have "drop (length w + 2) ?d = (LF # s) @ CR # LF # []" by simp
  from accepted_runto [OF this _ r1(2), of "mid b"] s
  have "accepted (mid b) ?d r1 (length w + 2) (mtype r1) (length w + 2 + length s + 2)" by simp
  from accepted_eq [OF r1(1) this] show "\<exists>r'. redis_parse_rsp (b\<lparr>mdata := ?d\<rparr>) (fresh_msg SW_START) = Some r' \<and>
      result r' = MSG_PARSE_OK \<and> pos r' = length w + 3 + length s + 2"
    using redis_parse_rsp_accepted [of "b\<lparr>mdata := ?d\<rparr>" "fresh_msg SW_START"] by (fastforce simp: fresh_msg_def)
qed

theorem redis_parse_rsp_one_word_error_witness:
  "(\<exists>r'. redis_parse_rsp ((example_mbuf [])\<lparr>mdata := CHR ''-'' # ''LOADING'' @ [CR, LF]\<rparr>) (fresh_msg SW_START) = Some r' \<and>
      result r' = MSG_PARSE_AGAIN) \<and>
   (\<exists>r'. redis_parse_rsp ((example_mbuf [])\<lparr>mdata := CHR ''-'' # ''LOADING'' @ [CR, LF] @ ''+OK'' @ [CR, LF]\<rparr>)
        (fresh_msg SW_START) = Some r' \<and>
      result r' = MSG_PARSE_OK \<and> pos r' = length ''LOADING'' + 3 + length ''+OK'' + 2)"
  by (rule redis_parse_rsp_one_word_error) (simp_all add: CR_def example_mbuf_def)

end
