(* ===== verification/Memcache_Request.thy ===== *)
theory Memcache_Request
  imports Wire_Format
begin

text \<open>
  \<open>memcache_parse_req\<close> of \<^verbatim>\<open>proto/nc_memcache.c\<close>: one definition per state of its \<open>switch\<close>.  A state
  that decides on a byte without consuming it (\<open>p = p - 1\<close> before the \<open>p++\<close> of the loop)
  moves to the same position; the rank of a state bounds how often.
\<close>

subsection \<open>Classes of commands\<close>

definition memcache_storage :: "'st msg \<Rightarrow> bool" where
  "memcache_storage r \<longleftrightarrow> mtype r \<in> {MSG_REQ_MC_SET, MSG_REQ_MC_CAS, MSG_REQ_MC_ADD, MSG_REQ_MC_REPLACE,
     MSG_REQ_MC_APPEND, MSG_REQ_MC_PREPEND}"

definition memcache_cas :: "'st msg \<Rightarrow> bool" where
  "memcache_cas r \<longleftrightarrow> mtype r = MSG_REQ_MC_CAS"

definition memcache_retrieval :: "'st msg \<Rightarrow> bool" where
  "memcache_retrieval r \<longleftrightarrow> mtype r \<in> {MSG_REQ_MC_GET, MSG_REQ_MC_GETS}"

definition memcache_arithmetic :: "'st msg \<Rightarrow> bool" where
  "memcache_arithmetic r \<longleftrightarrow> mtype r \<in> {MSG_REQ_MC_INCR, MSG_REQ_MC_DECR}"

definition memcache_delete :: "'st msg \<Rightarrow> bool" where
  "memcache_delete r \<longleftrightarrow> mtype r = MSG_REQ_MC_DELETE"

definition memcache_touch :: "'st msg \<Rightarrow> bool" where
  "memcache_touch r \<longleftrightarrow> mtype r = MSG_REQ_MC_TOUCH"

definition MEMCACHE_MAX_KEY_LENGTH :: nat where
  "MEMCACHE_MAX_KEY_LENGTH = 250"

subsection \<open>The states\<close>

datatype memcache_req_state =
    SW_START | SW_REQ_TYPE | SW_SPACES_BEFORE_KEY | SW_KEY | SW_SPACES_BEFORE_KEYS
  | SW_SPACES_BEFORE_FLAGS | SW_FLAGS | SW_SPACES_BEFORE_EXPIRY | SW_EXPIRY
  | SW_SPACES_BEFORE_VLEN | SW_VLEN | SW_SPACES_BEFORE_CAS | SW_CAS | SW_RUNTO_VAL | SW_VAL
  | SW_SPACES_BEFORE_NUM | SW_NUM | SW_RUNTO_CRLF | SW_CRLF | SW_NOREPLY | SW_AFTER_NOREPLY | SW_ALMOST_DONE

type_synonym memcache_req = "memcache_req_state msg"

definition memcache_req_start :: "char \<Rightarrow> memcache_req \<Rightarrow> nat \<Rightarrow> memcache_req outcome" where
  "memcache_req_start ch r p =
     (if ch = CHR '' '' then Move r (p + 1)
      else if \<not> islower ch then Error r
      else Move (r\<lparr>token := Some p, state := SW_REQ_TYPE\<rparr>) (p + 1))"

text \<open>The commands by the length \<open>n\<close> of the name; the three-letter ones include the blank after it.\<close>

definition memcache_cmd_table :: "nat \<Rightarrow> (bytes \<times> msg_type) list" where
  "memcache_cmd_table n =
     (if n = 3 then [(''get '', MSG_REQ_MC_GET), (''set '', MSG_REQ_MC_SET), (''add '', MSG_REQ_MC_ADD), (''cas '', MSG_REQ_MC_CAS)]
      else if n = 4 then [(''gets'', MSG_REQ_MC_GETS), (''incr'', MSG_REQ_MC_INCR), (''decr'', MSG_REQ_MC_DECR), (''quit'', MSG_REQ_MC_QUIT)]
      else if n = 5 then [(''touch'', MSG_REQ_MC_TOUCH)]
      else if n = 6 then [(''append'', MSG_REQ_MC_APPEND), (''delete'', MSG_REQ_MC_DELETE)]
      else if n = 7 then [(''prepend'', MSG_REQ_MC_PREPEND), (''replace'', MSG_REQ_MC_REPLACE)]
      else [])"

text \<open>
  The type at the end of the name.  The token is unset when the name was carried into a new
  buffer; the distance from the null pointer is then no length of a command.
\<close>

definition memcache_cmd_type :: "bytes \<Rightarrow> nat option \<Rightarrow> nat \<Rightarrow> msg_type" where
  "memcache_cmd_type d tok p =
     (case tok of None \<Rightarrow> MSG_UNKNOWN | Some t \<Rightarrow> first_cmp (memcache_cmd_table (p - t)) (drop t d) MSG_UNKNOWN)"

definition memcache_req_type :: "bytes \<Rightarrow> memcache_req \<Rightarrow> nat \<Rightarrow> memcache_req outcome" where
  "memcache_req_type d r p =
     (let ch = d ! p in
      if ch = CHR '' '' \<or> ch = CR then
        let ty = memcache_cmd_type d (token r) p;
            r' = r\<lparr>token := None, mtype := ty, narg := narg r + 1\<rparr> in
        if ty = MSG_UNKNOWN then Error r'
        else if ty = MSG_REQ_MC_QUIT then Move (r'\<lparr>quit := True, state := SW_CRLF\<rparr>) p
        else if ch = CR then Error r'
        else Move (r'\<lparr>state := SW_SPACES_BEFORE_KEY\<rparr>) (p + 1)
      else if \<not> islower ch then Error r
      else Move r (p + 1))"

definition memcache_req_spaces_before_key :: "char \<Rightarrow> memcache_req \<Rightarrow> nat \<Rightarrow> memcache_req outcome" where
  "memcache_req_spaces_before_key ch r p =
     (if ch \<noteq> CHR '' '' then Move (r\<lparr>token := None, state := SW_KEY\<rparr>) p else Move r (p + 1))"

text \<open>The state after a key, which depends on the command.\<close>

definition memcache_after_key :: "memcache_req \<Rightarrow> memcache_req_state" where
  "memcache_after_key r =
     (if memcache_storage r then SW_SPACES_BEFORE_FLAGS
      else if memcache_arithmetic r \<or> memcache_touch r then SW_SPACES_BEFORE_NUM
      else if memcache_delete r then SW_RUNTO_CRLF
      else if memcache_retrieval r then SW_SPACES_BEFORE_KEYS
      else SW_RUNTO_CRLF)"

definition memcache_req_key :: "(nat \<Rightarrow> bool) \<Rightarrow> nat \<Rightarrow> char \<Rightarrow> memcache_req \<Rightarrow> nat \<Rightarrow> memcache_req outcome" where
  "memcache_req_key mem bid ch r p =
     (let t = (case token r of None \<Rightarrow> p | Some t \<Rightarrow> t) in
      if ch = CHR '' '' \<or> ch = CR then
        if p - t > MEMCACHE_MAX_KEY_LENGTH \<or> p - t = 0 then Error (r\<lparr>token := Some t\<rparr>)
        else if \<not> mem (length (keys r)) then Enomem (r\<lparr>token := Some t\<rparr>)
        else
          let r' = r\<lparr>keys := keys r @ [\<lparr>kp_buf = bid, kp_start = t, kp_end = p\<rparr>], narg := narg r + 1,
                     token := None, state := memcache_after_key r\<rparr> in
          if ch = CR then if memcache_storage r \<or> memcache_arithmetic r then Error r' else Move r' p
          else Move r' (p + 1)
      else Move (r\<lparr>token := Some t\<rparr>) (p + 1))"

definition memcache_req_spaces_before_keys :: "char \<Rightarrow> memcache_req \<Rightarrow> nat \<Rightarrow> memcache_req outcome" where
  "memcache_req_spaces_before_keys ch r p =
     (if ch = CHR '' '' then Move r (p + 1)
      else if ch = CR then Move (r\<lparr>state := SW_ALMOST_DONE\<rparr>) (p + 1)
      else Move (r\<lparr>token := None, state := SW_KEY\<rparr>) p)"

text \<open>Blanks before a number, whose first character the token marks, and the digits after it.\<close>

definition spaces_before :: "(char \<Rightarrow> bool) \<Rightarrow> 'st \<Rightarrow> char \<Rightarrow> 'st msg \<Rightarrow> nat \<Rightarrow> 'st msg outcome" where
  "spaces_before first nxt ch r p =
     (if ch = CHR '' '' then Move r (p + 1)
      else if \<not> first ch then Error r
      else Move (r\<lparr>token := Some p, state := nxt\<rparr>) (p + 1))"

definition digits_to_blank :: "'st \<Rightarrow> char \<Rightarrow> 'st msg \<Rightarrow> nat \<Rightarrow> 'st msg outcome" where
  "digits_to_blank nxt ch r p =
     (if isdigit ch then Move r (p + 1)
      else if ch = CHR '' '' then Move (r\<lparr>token := None, state := nxt\<rparr>) (p + 1)
      else Error r)"

definition digits_to_end :: "'st \<Rightarrow> char \<Rightarrow> 'st msg \<Rightarrow> nat \<Rightarrow> 'st msg outcome" where
  "digits_to_end nxt ch r p =
     (if isdigit ch then Move r (p + 1)
      else if ch = CHR '' '' \<or> ch = CR then Move (r\<lparr>token := None, state := nxt\<rparr>) p
      else Error r)"

definition memcache_req_spaces_before_flags :: "char \<Rightarrow> memcache_req \<Rightarrow> nat \<Rightarrow> memcache_req outcome" where
  "memcache_req_spaces_before_flags = spaces_before isdigit SW_FLAGS"

definition memcache_req_flags :: "char \<Rightarrow> memcache_req \<Rightarrow> nat \<Rightarrow> memcache_req outcome" where
  "memcache_req_flags = digits_to_blank SW_SPACES_BEFORE_EXPIRY"

definition memcache_req_spaces_before_expiry :: "char \<Rightarrow> memcache_req \<Rightarrow> nat \<Rightarrow> memcache_req outcome" where
  "memcache_req_spaces_before_expiry = spaces_before isdigit SW_EXPIRY"

definition memcache_req_expiry :: "char \<Rightarrow> memcache_req \<Rightarrow> nat \<Rightarrow> memcache_req outcome" where
  "memcache_req_expiry = digits_to_blank SW_SPACES_BEFORE_VLEN"

definition memcache_req_spaces_before_vlen :: "char \<Rightarrow> memcache_req \<Rightarrow> nat \<Rightarrow> memcache_req outcome" where
  "memcache_req_spaces_before_vlen ch r p =
     (if ch = CHR '' '' then Move r (p + 1)
      else if \<not> isdigit ch then Error r
      else Move (r\<lparr>vlen := uchar32 ch - 48, state := SW_VLEN\<rparr>) (p + 1))"

definition memcache_req_vlen :: "char \<Rightarrow> memcache_req \<Rightarrow> nat \<Rightarrow> memcache_req outcome" where
  "memcache_req_vlen ch r p =
     (if isdigit ch then Move (r\<lparr>vlen := dec_digit (vlen r) ch\<rparr>) (p + 1)
      else if memcache_cas r then
        if ch \<noteq> CHR '' '' then Error r else Move (r\<lparr>token := None, state := SW_SPACES_BEFORE_CAS\<rparr>) p
      else if ch = CHR '' '' \<or> ch = CR then Move (r\<lparr>token := None, state := SW_RUNTO_CRLF\<rparr>) p
      else Error r)"

definition memcache_req_spaces_before_cas :: "char \<Rightarrow> memcache_req \<Rightarrow> nat \<Rightarrow> memcache_req outcome" where
  "memcache_req_spaces_before_cas = spaces_before isdigit SW_CAS"

definition memcache_req_cas :: "char \<Rightarrow> memcache_req \<Rightarrow> nat \<Rightarrow> memcache_req outcome" where
  "memcache_req_cas = digits_to_end SW_RUNTO_CRLF"

definition memcache_req_runto_val :: "char \<Rightarrow> memcache_req \<Rightarrow> nat \<Rightarrow> memcache_req outcome" where
  "memcache_req_runto_val ch r p = (if ch = LF then Move (r\<lparr>state := SW_VAL\<rparr>) (p + 1) else Error r)"

text \<open>A value of \<open>r->vlen\<close> bytes, of which a part may be in a later buffer.\<close>

definition val_step :: "'st \<Rightarrow> bytes \<Rightarrow> 'st msg \<Rightarrow> nat \<Rightarrow> 'st msg outcome" where
  "val_step nxt d r p =
     (let m = p + unat (vlen r) in
      if length d \<le> m then Move (r\<lparr>vlen := vlen r - of_nat (length d - p)\<rparr>) (length d)
      else if d ! m = CR then Move (r\<lparr>state := nxt\<rparr>) (m + 1)
      else Error r)"

definition memcache_req_val :: "bytes \<Rightarrow> memcache_req \<Rightarrow> nat \<Rightarrow> memcache_req outcome" where
  "memcache_req_val = val_step SW_ALMOST_DONE"

definition memcache_req_spaces_before_num :: "char \<Rightarrow> memcache_req \<Rightarrow> nat \<Rightarrow> memcache_req outcome" where
  "memcache_req_spaces_before_num = spaces_before (\<lambda>ch. isdigit ch \<or> ch = CHR ''-'') SW_NUM"

definition memcache_req_num :: "char \<Rightarrow> memcache_req \<Rightarrow> nat \<Rightarrow> memcache_req outcome" where
  "memcache_req_num = digits_to_end SW_RUNTO_CRLF"

text \<open>The state after the CR of the command line.\<close>

definition memcache_after_line :: "memcache_req \<Rightarrow> memcache_req_state" where
  "memcache_after_line r = (if memcache_storage r then SW_RUNTO_VAL else SW_ALMOST_DONE)"

definition memcache_req_runto_crlf :: "char \<Rightarrow> memcache_req \<Rightarrow> nat \<Rightarrow> memcache_req outcome" where
  "memcache_req_runto_crlf ch r p =
     (if ch = CHR '' '' then Move r (p + 1)
      else if ch = CHR ''n'' then
        if memcache_storage r \<or> memcache_arithmetic r \<or> memcache_delete r \<or> memcache_touch r
        then Move (r\<lparr>token := Some p, state := SW_NOREPLY\<rparr>) (p + 1)
        else Error r
      else if ch = CR then Move (r\<lparr>state := memcache_after_line r\<rparr>) (p + 1)
      else Error r)"

definition memcache_req_noreply :: "bytes \<Rightarrow> memcache_req \<Rightarrow> nat \<Rightarrow> memcache_req outcome" where
  "memcache_req_noreply d r p =
     (let ch = d ! p in
      if ch = CHR '' '' \<or> ch = CR then
        case token r of
          None \<Rightarrow> Error r
        | Some t \<Rightarrow>
            if p - t = 7 \<and> strcmp (drop t d) ''noreply''
            then Move (r\<lparr>token := None, noreply := True, state := SW_AFTER_NOREPLY\<rparr>) p
            else Error r
      else Move r (p + 1))"

definition memcache_req_after_noreply :: "char \<Rightarrow> memcache_req \<Rightarrow> nat \<Rightarrow> memcache_req outcome" where
  "memcache_req_after_noreply ch r p =
     (if ch = CHR '' '' then Move r (p + 1)
      else if ch = CR then Move (r\<lparr>state := memcache_after_line r\<rparr>) (p + 1)
      else Error r)"

definition memcache_req_crlf :: "char \<Rightarrow> memcache_req \<Rightarrow> nat \<Rightarrow> memcache_req outcome" where
  "memcache_req_crlf ch r p =
     (if ch = CHR '' '' then Move r (p + 1)
      else if ch = CR then Move (r\<lparr>state := SW_ALMOST_DONE\<rparr>) (p + 1)
      else Error r)"

definition memcache_req_almost_done :: "char \<Rightarrow> memcache_req \<Rightarrow> nat \<Rightarrow> memcache_req outcome" where
  "memcache_req_almost_done ch r p = (if ch = LF then Done r p else Error r)"

subsection \<open>The parser\<close>

definition memcache_req_step :: "(nat \<Rightarrow> bool) \<Rightarrow> nat \<Rightarrow> bytes \<Rightarrow> memcache_req \<Rightarrow> nat \<Rightarrow> memcache_req outcome" where
  "memcache_req_step mem bid d r p =
     (let ch = d ! p in
      case state r of
        SW_START \<Rightarrow> memcache_req_start ch r p
      | SW_REQ_TYPE \<Rightarrow> memcache_req_type d r p
      | SW_SPACES_BEFORE_KEY \<Rightarrow> memcache_req_spaces_before_key ch r p
      | SW_KEY \<Rightarrow> memcache_req_key mem bid ch r p
      | SW_SPACES_BEFORE_KEYS \<Rightarrow> memcache_req_spaces_before_keys ch r p
      | SW_SPACES_BEFORE_FLAGS \<Rightarrow> memcache_req_spaces_before_flags ch r p
      | SW_FLAGS \<Rightarrow> memcache_req_flags ch r p
      | SW_SPACES_BEFORE_EXPIRY \<Rightarrow> memcache_req_spaces_before_expiry ch r p
      | SW_EXPIRY \<Rightarrow> memcache_req_expiry ch r p
      | SW_SPACES_BEFORE_VLEN \<Rightarrow> memcache_req_spaces_before_vlen ch r p
      | SW_VLEN \<Rightarrow> memcache_req_vlen ch r p
      | SW_SPACES_BEFORE_CAS \<Rightarrow> memcache_req_spaces_before_cas ch r p
      | SW_CAS \<Rightarrow> memcache_req_cas ch r p
      | SW_RUNTO_VAL \<Rightarrow> memcache_req_runto_val ch r p
      | SW_VAL \<Rightarrow> memcache_req_val d r p
      | SW_SPACES_BEFORE_NUM \<Rightarrow> memcache_req_spaces_before_num ch r p
      | SW_NUM \<Rightarrow> memcache_req_num ch r p
      | SW_RUNTO_CRLF \<Rightarrow> memcache_req_runto_crlf ch r p
      | SW_CRLF \<Rightarrow> memcache_req_crlf ch r p
      | SW_NOREPLY \<Rightarrow> memcache_req_noreply d r p
      | SW_AFTER_NOREPLY \<Rightarrow> memcache_req_after_noreply ch r p
      | SW_ALMOST_DONE \<Rightarrow> memcache_req_almost_done ch r p)"

text \<open>Unlike the other parsers this one leaves the token alone when a request is complete.\<close>

definition memcache_req_done :: "memcache_req \<Rightarrow> nat \<Rightarrow> memcache_req" where
  "memcache_req_done r p = r\<lparr>pos := p + 1, state := SW_START, result := MSG_PARSE_OK\<rparr>"

definition memcache_parse_req :: "(nat \<Rightarrow> bool) \<Rightarrow> mbuf \<Rightarrow> memcache_req \<Rightarrow> memcache_req option" where
  "memcache_parse_req mem b = parse_with (memcache_req_step mem (mid b)) parse_again memcache_req_done b"

lemmas memcache_class_defs = memcache_storage_def memcache_cas_def memcache_retrieval_def memcache_arithmetic_def
  memcache_delete_def memcache_touch_def

lemmas memcache_req_char_defs = memcache_req_start_def memcache_req_spaces_before_key_def
  memcache_req_spaces_before_keys_def spaces_before_def digits_to_blank_def digits_to_end_def
  memcache_req_spaces_before_flags_def memcache_req_flags_def memcache_req_spaces_before_expiry_def
  memcache_req_expiry_def memcache_req_spaces_before_vlen_def memcache_req_vlen_def
  memcache_req_spaces_before_cas_def memcache_req_cas_def memcache_req_runto_val_def
  memcache_req_spaces_before_num_def memcache_req_num_def memcache_req_runto_crlf_def
  memcache_req_after_noreply_def memcache_req_crlf_def memcache_req_almost_done_def

subsection \<open>The parser keeps its contract\<close>

text \<open>The value length is read until the value is passed.\<close>

definition memcache_req_live :: "memcache_req \<Rightarrow> bool" where
  "memcache_req_live r \<longleftrightarrow> state r \<noteq> SW_ALMOST_DONE"

definition memcache_req_inv :: "memcache_req \<Rightarrow> nat \<Rightarrow> bool" where
  "memcache_req_inv r p \<longleftrightarrow> (\<forall>t. token r = Some t \<longrightarrow> t \<le> p)"

text \<open>A key that is only begun consumes its first byte; one that ends at a CR leaves it to the next state.\<close>

definition memcache_req_rank :: "memcache_req \<Rightarrow> nat" where
  "memcache_req_rank r = (case state r of
     SW_KEY \<Rightarrow> if token r = None then 0 else 2
   | SW_REQ_TYPE \<Rightarrow> 1 | SW_SPACES_BEFORE_KEY \<Rightarrow> 1 | SW_SPACES_BEFORE_KEYS \<Rightarrow> 1
   | SW_VLEN \<Rightarrow> 1 | SW_CAS \<Rightarrow> 1 | SW_NUM \<Rightarrow> 1 | SW_NOREPLY \<Rightarrow> 1 | _ \<Rightarrow> 0)"

lemma val_step_Move:
  assumes "val_step nxt d r p = Move r' p'" "p < length d"
  shows "token r' = token r \<and> p < p' \<and> p' \<le> length d"
  using assms by (auto simp: val_step_def Let_def split: if_splits)

lemma val_step_Done: "val_step nxt d r p \<noteq> Done r' p'"
  by (simp add: val_step_def Let_def)

lemma val_step_mark: "val_step nxt d (mark x y r) p = map_outcome (mark x y) (val_step nxt d r p)"
  by (simp add: val_step_def Let_def)

lemma val_vlen:
  fixes v :: u32
  assumes "p < length d" "length d \<le> p + unat v"
  shows "length d + unat (v - of_nat (length d - p)) = p + unat v"
proof -
  have "unat v < 2 ^ 32" using unsigned_less [of v] by simp
  then have "unat (of_nat (length d - p) :: u32) = length d - p"
    using assms by (intro unat_of_nat_small) simp
  moreover have "(of_nat (length d - p) :: u32) \<le> v" using calculation assms by (simp add: word_le_nat_alt)
  ultimately show ?thesis using assms by (simp add: unat_sub)
qed

text \<open>
  A value read in several pieces leaves less of \<open>r->vlen\<close> than one read at once.  Nobody but the
  parser reads the field; once the value is passed, messages that differ in it behave alike.
\<close>

definition vlen_same :: "'st msg \<Rightarrow> 'st msg \<Rightarrow> bool" where
  "vlen_same r r' \<longleftrightarrow> r\<lparr>vlen := 0\<rparr> = r'\<lparr>vlen := 0\<rparr>"

definition vlen_sim :: "('st msg \<Rightarrow> bool) \<Rightarrow> 'st msg \<Rightarrow> 'st msg \<Rightarrow> bool" where
  "vlen_sim live r r' \<longleftrightarrow> r = r' \<or> vlen_same r r' \<and> \<not> live r \<and> \<not> live r'"

lemma vlen_same_equiv: "vlen_same r r" "vlen_same r r' \<Longrightarrow> vlen_same r' r" "vlen_same r r' \<Longrightarrow> vlen_same r' r'' \<Longrightarrow> vlen_same r r''"
  by (simp_all add: vlen_same_def)

lemma vlen_sim_equiv:
  "vlen_sim live r r" "vlen_sim live r r' \<Longrightarrow> vlen_sim live r' r"
  "vlen_sim live r r' \<Longrightarrow> vlen_sim live r' r'' \<Longrightarrow> vlen_sim live r r''"
  by (auto simp: vlen_sim_def intro: vlen_same_equiv(2,3))

lemma vlen_same_ex: "vlen_same r r' \<Longrightarrow> \<exists>v. r' = r\<lparr>vlen := v\<rparr>"
proof -
  assume "vlen_same r r'"
  then have "(r\<lparr>vlen := 0\<rparr>)\<lparr>vlen := vlen r'\<rparr> = (r'\<lparr>vlen := 0\<rparr>)\<lparr>vlen := vlen r'\<rparr>" by (simp add: vlen_same_def)
  then have "r' = r\<lparr>vlen := vlen r'\<rparr>" by simp
  then show ?thesis ..
qed

lemma vlen_sim_same: "vlen_sim live r r' \<Longrightarrow> vlen_same r r'"
  by (auto simp: vlen_sim_def vlen_same_equiv(1))

lemma vlen_same_mark: "vlen_same r r' \<Longrightarrow> vlen_same (mark x y r) (mark x y r')"
  by (auto dest!: vlen_same_ex) (simp add: vlen_same_def)

lemma vlen_outcome_refl: "outcome_sim (vlen_sim live) x x"
  by (cases x) (simp_all add: vlen_sim_equiv(1))

lemma val_step_more:
  assumes "p < length d" "\<And>r. state r = nxt \<Longrightarrow> \<not> live r"
  shows "val_step nxt (d @ e) r p = val_step nxt d r p \<or>
    (\<exists>r'. val_step nxt d r p = Move r' (length d) \<and> state r' = state r \<and>
      (e \<noteq> [] \<longrightarrow> outcome_sim (vlen_sim live) (val_step nxt (d @ e) r p) (val_step nxt (d @ e) r' (length d))))"
proof (cases "length d \<le> p + unat (vlen r)")
  case True
  let ?r = "r\<lparr>vlen := vlen r - of_nat (length d - p)\<rparr>"
  have m: "length d + unat (vlen ?r) = p + unat (vlen r)" using val_vlen [OF assms(1) True] by simp
  have "outcome_sim (vlen_sim live) (val_step nxt (d @ e) r p) (val_step nxt (d @ e) ?r (length d))"
  proof (cases "length (d @ e) \<le> p + unat (vlen r)")
    case short: True
    have "length d + length e - p = length d - p + length e" using assms(1) by simp
    with short m show ?thesis by (simp add: val_step_def Let_def diff_diff_eq vlen_sim_equiv(1))
  next
    case False
    have "vlen_sim live (r\<lparr>state := nxt\<rparr>) (?r\<lparr>state := nxt\<rparr>)"
      using assms(2) by (simp add: vlen_sim_def vlen_same_def)
    with False show ?thesis by (simp add: val_step_def Let_def m [simplified])
  qed
  moreover have "val_step nxt d r p = Move ?r (length d)" "state ?r = state r" using True by (simp_all add: val_step_def)
  ultimately show ?thesis by blast
next
  case False
  then show ?thesis by (simp add: val_step_def Let_def nth_append)
qed

lemma memcache_after_key_rank: "memcache_after_key r \<in> {SW_SPACES_BEFORE_FLAGS, SW_SPACES_BEFORE_NUM, SW_RUNTO_CRLF, SW_SPACES_BEFORE_KEYS}"
  by (simp add: memcache_after_key_def)

lemma memcache_req_key_Move:
  assumes "memcache_req_key mem bid ch r p = Move r' p'" "state r = SW_KEY"
  shows "(token r' = None \<or> token r' = Some p \<or> token r' = token r) \<and>
    (p' = p + 1 \<or> p' = p \<and> memcache_req_rank r' < memcache_req_rank r)"
  using assms memcache_after_key_rank [of r]
  by (auto simp: memcache_req_key_def memcache_req_rank_def Let_def split: if_splits option.splits)

lemma memcache_req_type_Move:
  assumes "memcache_req_type d r p = Move r' p'" "state r = SW_REQ_TYPE"
  shows "(token r' = None \<or> token r' = token r) \<and> (p' = p + 1 \<or> p' = p \<and> memcache_req_rank r' < memcache_req_rank r)"
  using assms by (auto simp: memcache_req_type_def memcache_req_rank_def Let_def split: if_splits)

lemma memcache_req_noreply_Move:
  assumes "memcache_req_noreply d r p = Move r' p'" "state r = SW_NOREPLY"
  shows "(token r' = None \<or> token r' = token r) \<and> (p' = p + 1 \<or> p' = p \<and> memcache_req_rank r' < memcache_req_rank r)"
  using assms by (auto simp: memcache_req_noreply_def memcache_req_rank_def Let_def split: if_splits option.splits)

lemma memcache_req_step_Move:
  assumes "memcache_req_inv r p" "p < length d" "memcache_req_step mem bid d r p = Move r' p'"
  shows "memcache_req_inv r' p' \<and> p' \<le> length d \<and> (p < p' \<or> p' = p \<and> memcache_req_rank r' < memcache_req_rank r)"
proof -
  have "(token r' = None \<or> token r' = Some p \<or> token r' = token r) \<and> p' \<le> length d \<and>
      (p < p' \<or> p' = p \<and> memcache_req_rank r' < memcache_req_rank r)"
  proof (cases "state r")
    case SW_KEY
    then show ?thesis using memcache_req_key_Move [of mem bid "d ! p" r p r' p'] assms by (auto simp: memcache_req_step_def)
  next
    case SW_REQ_TYPE
    then show ?thesis using memcache_req_type_Move [of d r p r' p'] assms by (auto simp: memcache_req_step_def)
  next
    case SW_NOREPLY
    then show ?thesis using memcache_req_noreply_Move [of d r p r' p'] assms by (auto simp: memcache_req_step_def)
  next
    case SW_VAL
    then show ?thesis
      using val_step_Move [of SW_ALMOST_DONE d r p r' p'] assms by (auto simp: memcache_req_step_def memcache_req_val_def)
  qed (use assms in \<open>auto simp: memcache_req_step_def memcache_req_char_defs memcache_req_rank_def Let_def split: if_splits\<close>)
  then show ?thesis using assms(1) by (auto simp: memcache_req_inv_def)
qed

lemma memcache_req_data_Done:
  "memcache_req_key mem bid ch r p \<noteq> Done r' p'" "memcache_req_type d r p \<noteq> Done r' p'" "memcache_req_noreply d r p \<noteq> Done r' p'"
  by (simp_all add: memcache_req_key_def memcache_req_type_def memcache_req_noreply_def Let_def split: option.split)

lemma memcache_req_step_Done: "memcache_req_step mem bid d r p = Done r' p' \<Longrightarrow> p' = p \<and> state r = SW_ALMOST_DONE \<and> r' = r"
  by (cases "state r")
    (simp_all add: memcache_req_step_def memcache_req_char_defs memcache_req_data_Done memcache_req_val_def val_step_Done Let_def
      split: if_splits)

lemma memcache_cmd_table_length: "\<forall>(s, t) \<in> set (memcache_cmd_table n). length s \<le> Suc n"
  by (auto simp: memcache_cmd_table_def)

lemma memcache_cmd_type_more:
  assumes "p < length d" "\<And>t. tok = Some t \<Longrightarrow> t \<le> p"
  shows "memcache_cmd_type (d @ e) tok p = memcache_cmd_type d tok p"
proof (cases tok)
  case (Some t)
  with assms have "t \<le> p" by simp
  then have "first_cmp (memcache_cmd_table (p - t)) (drop t d @ e) MSG_UNKNOWN
      = first_cmp (memcache_cmd_table (p - t)) (drop t d) MSG_UNKNOWN"
    using memcache_cmd_table_length [of "p - t"] assms(1) by (intro first_cmp_append) fastforce
  with Some \<open>t \<le> p\<close> assms(1) show ?thesis by (simp add: memcache_cmd_type_def)
qed (simp add: memcache_cmd_type_def)

lemma noreply_more:
  assumes "p < length d" "t \<le> p" "p - t = 7"
  shows "strcmp (drop t (d @ e)) ''noreply'' = strcmp (drop t d) ''noreply''"
  using assms by (simp add: strcmp_def)

lemma memcache_req_step_more:
  assumes inv: "memcache_req_inv r p" and p: "p < length d"
  shows "outcome_sim (vlen_sim memcache_req_live) (memcache_req_step mem bid (d @ e) r p) (memcache_req_step mem bid d r p) \<or>
    (\<exists>r'. memcache_req_step mem bid d r p = Move r' (length d) \<and>
      (e \<noteq> [] \<longrightarrow> outcome_sim (vlen_sim memcache_req_live) (memcache_req_step mem bid (d @ e) r p) (memcache_req_step mem bid (d @ e) r' (length d))))"
proof (cases "state r = SW_VAL")
  case True
  then have s: "memcache_req_step mem bid d' r' p' = val_step SW_ALMOST_DONE d' r' p'" if "state r' = state r" for d' r' p'
    using that by (simp add: memcache_req_step_def memcache_req_val_def)
  from val_step_more [OF p, of SW_ALMOST_DONE memcache_req_live e r] show ?thesis
    by (auto simp: s memcache_req_live_def vlen_outcome_refl)
next
  case False
  have "memcache_req_type (d @ e) r p = memcache_req_type d r p"
    using inv p memcache_cmd_type_more [OF p, of "token r" e]
    by (simp add: memcache_req_type_def nth_append memcache_req_inv_def Let_def)
  moreover have "memcache_req_noreply (d @ e) r p = memcache_req_noreply d r p"
    using inv p noreply_more [OF p, of _ e]
    by (auto simp: memcache_req_noreply_def nth_append memcache_req_inv_def Let_def split: option.split)
  ultimately have "memcache_req_step mem bid (d @ e) r p = memcache_req_step mem bid d r p"
    using False p by (cases "state r") (simp_all add: memcache_req_step_def nth_append)
  then show ?thesis by (simp add: vlen_outcome_refl)
qed

lemma memcache_class_mark [simp]:
  "memcache_storage (mark x y r) = memcache_storage r" "memcache_cas (mark x y r) = memcache_cas r"
  "memcache_retrieval (mark x y r) = memcache_retrieval r" "memcache_arithmetic (mark x y r) = memcache_arithmetic r"
  "memcache_delete (mark x y r) = memcache_delete r" "memcache_touch (mark x y r) = memcache_touch r"
  "memcache_after_key (mark x y r) = memcache_after_key r" "memcache_after_line (mark x y r) = memcache_after_line r"
  by (simp_all add: memcache_class_defs memcache_after_key_def memcache_after_line_def)

lemma memcache_req_data_mark:
  "memcache_req_key mem bid ch (mark x y r) p = map_outcome (mark x y) (memcache_req_key mem bid ch r p)"
  "memcache_req_type d (mark x y r) p = map_outcome (mark x y) (memcache_req_type d r p)"
  "memcache_req_noreply d (mark x y r) p = map_outcome (mark x y) (memcache_req_noreply d r p)"
  by (simp_all add: memcache_req_key_def memcache_req_type_def memcache_req_noreply_def Let_def split: option.split)

lemma memcache_req_step_mark:
  "memcache_req_step mem bid d (mark x y r) p = map_outcome (mark x y) (memcache_req_step mem bid d r p)"
  by (cases "state r")
    (simp_all add: memcache_req_step_def memcache_req_char_defs memcache_req_data_mark memcache_req_val_def val_step_mark Let_def)

lemma memcache_req_step_sim:
  assumes "vlen_sim memcache_req_live r r'"
  shows "outcome_sim (vlen_sim memcache_req_live) (memcache_req_step mem bid d r p) (memcache_req_step mem bid d r' p)"
proof (cases "r = r'")
  case False
  with assms have s: "state r = SW_ALMOST_DONE" "state r' = SW_ALMOST_DONE"
    by (simp_all add: vlen_sim_def memcache_req_live_def)
  with assms show ?thesis by (simp add: memcache_req_step_def memcache_req_almost_done_def)
qed (simp add: vlen_outcome_refl)

lemma memcache_req_inv_sim: "vlen_sim memcache_req_live r r' \<Longrightarrow> memcache_req_inv r p \<Longrightarrow> memcache_req_inv r' p"
  by (auto simp: memcache_req_inv_def dest!: vlen_sim_same vlen_same_ex)

interpretation memcache_req: msg_parser "memcache_req_step mem bid" memcache_req_inv memcache_req_rank
  "vlen_sim memcache_req_live" parse_again memcache_req_done vlen_same for mem bid
proof unfold_locales
  fix r :: memcache_req and p and d e :: bytes
  assume "memcache_req_inv r p" "p < length d"
  then show "outcome_sim (vlen_sim memcache_req_live) (memcache_req_step mem bid (d @ e) r p) (memcache_req_step mem bid d r p) \<or>
    (\<exists>r'. memcache_req_step mem bid d r p = Move r' (length d) \<and>
      (e \<noteq> [] \<longrightarrow> outcome_sim (vlen_sim memcache_req_live) (memcache_req_step mem bid (d @ e) r p) (memcache_req_step mem bid (d @ e) r' (length d))))"
    by (rule memcache_req_step_more)
next
  fix b :: mbuf and r :: memcache_req
  assume inv: "memcache_req_inv r (mlast b)"
  then show "pos (parse_again b r (mlast b)) \<le> mlast b"
    by (auto simp: parse_again_def Let_def memcache_req_inv_def)
  show "memcache_req_inv (parse_again b r (mlast b)) (pos (parse_again b r (mlast b)))"
    using inv by (simp add: memcache_req_inv_def parse_again_def Let_def)
next
  fix b :: mbuf and r :: memcache_req and p
  show "result (parse_again b r p) \<in> {MSG_PARSE_AGAIN, MSG_PARSE_REPAIR}" by (simp add: parse_again_def Let_def)
next
  fix r r' :: memcache_req and p
  assume "vlen_sim memcache_req_live r r'"
  then show "vlen_same (memcache_req_done r p) (memcache_req_done r' p)"
    by (auto simp: memcache_req_done_def vlen_same_def dest!: vlen_sim_same vlen_same_ex)
next
  fix r :: memcache_req and x y p
  show "memcache_req_done (mark x y r) p = memcache_req_done r p" by (simp add: memcache_req_done_def mark_def)
next
  fix r :: memcache_req and x y p
  show "memcache_req_inv (mark x y r) p = memcache_req_inv r p" by (simp add: memcache_req_inv_def)
qed (simp_all add: memcache_req_step_mark memcache_req_done_def parse_again_more memcache_req_step_sim vlen_same_mark,
    (blast intro: vlen_sim_equiv vlen_same_equiv vlen_sim_same vlen_same_mark memcache_req_inv_sim
      dest: memcache_req_step_Move memcache_req_step_Done)+)

text \<open>
  C35: the memcached request parser always returns, although it re-reads the byte after a name,
  a key or a number: it stays within the buffer, and a request that wants more input can be
  parsed again.
\<close>
theorem memcache_parse_req_total:
  assumes "memcache_req_inv r (pos r)" "pos r \<le> mlast b"
  shows "\<exists>r'. memcache_parse_req mem b r = Some r' \<and> (result r' \<noteq> MSG_PARSE_ERROR \<longrightarrow> pos r' \<le> mlast b) \<and>
     (result r' \<in> {MSG_PARSE_AGAIN, MSG_PARSE_REPAIR} \<longrightarrow> memcache_req_inv r' (pos r'))"
  unfolding memcache_parse_req_def by (rule memcache_req.parse_with_total [OF assms])

theorem memcache_parse_req_total_witness:
  "\<exists>r'. memcache_parse_req (\<lambda>n. True) (example_mbuf ''get a'') (fresh_msg SW_START) = Some r' \<and>
     (result r' \<noteq> MSG_PARSE_ERROR \<longrightarrow> pos r' \<le> mlast (example_mbuf ''get a'')) \<and>
     (result r' \<in> {MSG_PARSE_AGAIN, MSG_PARSE_REPAIR} \<longrightarrow> memcache_req_inv r' (pos r'))"
  by (rule memcache_parse_req_total) (simp_all add: fresh_msg_def memcache_req_inv_def)

text \<open>
  C22: memcached requests may arrive in pieces: however the bytes of a request are cut into
  reads, as long as they fit the buffer, the parser reaches the result it reaches on all bytes at once.
\<close>
theorem memcache_parse_req_pieces:
  assumes "memcache_req_inv r (pos r)" "pos r \<le> mlast b" "[] \<notin> set es" "mlast b + length (concat es) < mend b"
  shows "rel_option (msg_agree vlen_same) (parse_pieces (memcache_parse_req mem) b r es)
     (memcache_parse_req mem (b\<lparr>mdata := mdata b @ concat es\<rparr>) r)"
proof -
  have "parse_pieces (memcache_parse_req mem) b r es
      = parse_pieces (parse_with (memcache_req_step mem (mid b)) parse_again memcache_req_done) b r es"
    by (rule parse_pieces_cong) (simp add: memcache_parse_req_def)
  then show ?thesis
    using memcache_req.parse_pieces_whole [OF assms, of mem "mid b"] by (simp add: memcache_parse_req_def)
qed

theorem memcache_parse_req_pieces_witness:
  "rel_option (msg_agree vlen_same)
     (parse_pieces (memcache_parse_req (\<lambda>n. True)) (example_mbuf ''get a'') (fresh_msg SW_START) [[CHR ''b'', CR], [LF]])
     (memcache_parse_req (\<lambda>n. True) ((example_mbuf ''get a'')\<lparr>mdata := ''get a'' @ concat [[CHR ''b'', CR], [LF]]\<rparr>) (fresh_msg SW_START))"
  using memcache_parse_req_pieces [of "fresh_msg SW_START" "example_mbuf ''get a''" "[[CHR ''b'', CR], [LF]]" "\<lambda>n. True"]
  by (simp add: fresh_msg_def example_mbuf_def memcache_req_inv_def)

subsection \<open>The assertions\<close>

text \<open>
  The assertions inside the \<open>switch\<close> and at the label \<open>done\<close>.  The loop with assertions stops
  with \<open>None\<close> at the first that fails.
\<close>

definition memcache_req_asserts :: "bytes \<Rightarrow> memcache_req \<Rightarrow> nat \<Rightarrow> bool" where
  "memcache_req_asserts d r p = (case state r of
     SW_SPACES_BEFORE_KEYS \<Rightarrow> memcache_retrieval r
   | SW_VAL \<Rightarrow> length d \<le> p + unat (vlen r) \<longrightarrow> of_nat (length d - p) \<le> vlen r
   | SW_NOREPLY \<Rightarrow> memcache_storage r \<or> memcache_arithmetic r \<or> memcache_delete r \<or> memcache_touch r
   | SW_ALMOST_DONE \<Rightarrow> d ! p = LF \<longrightarrow> mtype r \<noteq> MSG_UNKNOWN \<and> p + 1 \<le> length d
   | _ \<Rightarrow> True)"

partial_function (option) asserting_loop ::
  "('m \<Rightarrow> nat \<Rightarrow> bool) \<Rightarrow> ('m \<Rightarrow> nat \<Rightarrow> 'm outcome) \<Rightarrow> nat \<Rightarrow> 'm \<Rightarrow> nat \<Rightarrow> 'm outcome option" where
  "asserting_loop asserts step e r p =
     (if p < e
      then if \<not> asserts r p then None
           else (case step r p of Move r' p' \<Rightarrow> asserting_loop asserts step e r' p' | Done r' p' \<Rightarrow> Some (Done r' p')
                 | Error r' \<Rightarrow> Some (Error r') | Enomem r' \<Rightarrow> Some (Enomem r'))
      else Some (Move r p))"

text \<open>What the states know about the command.\<close>

definition memcache_req_classed :: "memcache_req \<Rightarrow> bool" where
  "memcache_req_classed r \<longleftrightarrow>
     (state r \<notin> {SW_START, SW_REQ_TYPE} \<longrightarrow> mtype r \<noteq> MSG_UNKNOWN) \<and>
     (state r = SW_SPACES_BEFORE_KEYS \<longrightarrow> memcache_retrieval r) \<and>
     (state r = SW_NOREPLY \<longrightarrow> memcache_storage r \<or> memcache_arithmetic r \<or> memcache_delete r \<or> memcache_touch r)"

lemma memcache_after_key_keys: "memcache_after_key r = SW_SPACES_BEFORE_KEYS \<Longrightarrow> memcache_retrieval r"
  by (auto simp: memcache_after_key_def split: if_splits)

lemma memcache_req_step_classed:
  assumes "memcache_req_step mem bid d r p = Move r' p'" "memcache_req_classed r"
  shows "memcache_req_classed r'"
proof (cases "state r")
  case SW_KEY
  have "memcache_after_key r \<notin> {SW_START, SW_REQ_TYPE, SW_NOREPLY}" using memcache_after_key_rank [of r] by auto
  then show ?thesis
    using assms SW_KEY memcache_after_key_keys [of r]
    by (auto simp: memcache_req_step_def memcache_req_key_def memcache_req_classed_def memcache_class_defs Let_def
        split: if_splits option.splits)
next
  case SW_REQ_TYPE
  then show ?thesis
    using assms by (auto simp: memcache_req_step_def memcache_req_type_def memcache_req_classed_def Let_def split: if_splits)
next
  case SW_NOREPLY
  then show ?thesis
    using assms by (auto simp: memcache_req_step_def memcache_req_noreply_def memcache_req_classed_def Let_def
        split: if_splits option.splits)
next
  case SW_VAL
  then show ?thesis
    using assms by (auto simp: memcache_req_step_def memcache_req_val_def val_step_def memcache_req_classed_def Let_def split: if_splits)
qed (use assms in \<open>auto simp: memcache_req_step_def memcache_req_char_defs memcache_req_classed_def memcache_after_line_def
      memcache_class_defs Let_def split: if_splits\<close>)

lemma memcache_req_asserts_hold:
  assumes "memcache_req_classed r" "p < length d"
  shows "memcache_req_asserts d r p"
proof (cases "state r")
  case SW_VAL
  have "of_nat (length d - p) \<le> vlen r" if "length d \<le> p + unat (vlen r)"
  proof -
    have "length d - p \<le> unat (vlen r)" using that by simp
    moreover have "unat (vlen r) < 2 ^ 32" using unsigned_less [of "vlen r", where 'a = nat] by simp
    ultimately show ?thesis by (simp add: word_le_nat_alt unsigned_of_nat take_bit_nat_eq_self)
  qed
  then show ?thesis using SW_VAL by (simp add: memcache_req_asserts_def)
qed (use assms in \<open>auto simp: memcache_req_asserts_def memcache_req_classed_def\<close>)



end
