(* ===== verification/Memcache_Encoding.thy ===== *)
theory Memcache_Encoding
  imports Memcache_Request
begin

text \<open>
  The text protocol of memcached and the request parser: what \<open>memcache_parse_req\<close> makes of
  a well-formed command line and the data block after it.
\<close>

subsection \<open>Commands\<close>

definition memcache_commands :: "(bytes \<times> msg_type) list" where
  "memcache_commands =
     [(''get'', MSG_REQ_MC_GET), (''gets'', MSG_REQ_MC_GETS), (''delete'', MSG_REQ_MC_DELETE), (''cas'', MSG_REQ_MC_CAS),
      (''set'', MSG_REQ_MC_SET), (''add'', MSG_REQ_MC_ADD), (''replace'', MSG_REQ_MC_REPLACE),
      (''append'', MSG_REQ_MC_APPEND), (''prepend'', MSG_REQ_MC_PREPEND), (''incr'', MSG_REQ_MC_INCR),
      (''decr'', MSG_REQ_MC_DECR), (''touch'', MSG_REQ_MC_TOUCH), (''quit'', MSG_REQ_MC_QUIT)]"

text \<open>
  A request: retrieval of several keys; storage with flags, expiry, cas unique, value and
  \<open>noreply\<close>; a command with a number (\<open>incr\<close>, \<open>decr\<close>, \<open>touch\<close>); deletion; the end of the session.
\<close>

datatype mc_req =
    Mc_retrieve bytes "bytes list"
  | Mc_store bytes bytes nat nat "nat option" bytes bool
  | Mc_number bytes bytes nat bool
  | Mc_delete bytes bool
  | Mc_quit

fun mc_join :: "bytes list \<Rightarrow> bytes" where
  "mc_join [] = []"
| "mc_join [k] = k"
| "mc_join (k # ks) = k @ CHR '' '' # mc_join ks"

definition mc_tail :: "bool \<Rightarrow> bytes" where
  "mc_tail nr = (if nr then '' noreply'' else []) @ [CR]"

definition mc_cas :: "nat option \<Rightarrow> bytes" where
  "mc_cas cas = (case cas of None \<Rightarrow> [] | Some n \<Rightarrow> CHR '' '' # show_nat n)"

fun mc_encode :: "mc_req \<Rightarrow> bytes" where
  "mc_encode (Mc_retrieve c ks) = c @ CHR '' '' # mc_join ks @ [CR, LF]"
| "mc_encode (Mc_store c k flags exp cas v nr) =
     c @ CHR '' '' # k @ CHR '' '' # show_nat flags @ CHR '' '' # show_nat exp @ CHR '' '' # show_nat (length v)
       @ mc_cas cas @ mc_tail nr @ LF # v @ [CR, LF]"
| "mc_encode (Mc_number c k n nr) = c @ CHR '' '' # k @ CHR '' '' # show_nat n @ mc_tail nr @ [LF]"
| "mc_encode (Mc_delete k nr) = ''delete'' @ CHR '' '' # k @ mc_tail nr @ [LF]"
| "mc_encode Mc_quit = ''quit'' @ [CR, LF]"

fun mc_type :: "mc_req \<Rightarrow> msg_type option" where
  "mc_type (Mc_retrieve c ks) = map_of memcache_commands c"
| "mc_type (Mc_store c k flags exp cas v nr) = map_of memcache_commands c"
| "mc_type (Mc_number c k n nr) = map_of memcache_commands c"
| "mc_type (Mc_delete k nr) = Some MSG_REQ_MC_DELETE"
| "mc_type Mc_quit = Some MSG_REQ_MC_QUIT"

fun mc_keys :: "mc_req \<Rightarrow> bytes list" where
  "mc_keys (Mc_retrieve c ks) = ks"
| "mc_keys (Mc_store c k flags exp cas v nr) = [k]"
| "mc_keys (Mc_number c k n nr) = [k]"
| "mc_keys (Mc_delete k nr) = [k]"
| "mc_keys Mc_quit = []"

fun mc_noreply :: "mc_req \<Rightarrow> bool" where
  "mc_noreply (Mc_store c k flags exp cas v nr) = nr"
| "mc_noreply (Mc_number c k n nr) = nr"
| "mc_noreply (Mc_delete k nr) = nr"
| "mc_noreply q = False"

definition mc_key_ok :: "bytes \<Rightarrow> bool" where
  "mc_key_ok k \<longleftrightarrow> k \<noteq> [] \<and> length k \<le> 250 \<and> CHR '' '' \<notin> set k \<and> CR \<notin> set k"

fun mc_req_ok :: "mc_req \<Rightarrow> bool" where
  "mc_req_ok (Mc_retrieve c ks) \<longleftrightarrow> c \<in> {''get'', ''gets''} \<and> ks \<noteq> [] \<and> list_all mc_key_ok ks"
| "mc_req_ok (Mc_store c k flags exp cas v nr) \<longleftrightarrow>
     c \<in> {''set'', ''cas'', ''add'', ''replace'', ''append'', ''prepend''} \<and> mc_key_ok k \<and>
     (cas \<noteq> None \<longleftrightarrow> c = ''cas'') \<and> length v < 2 ^ 32"
| "mc_req_ok (Mc_number c k n nr) \<longleftrightarrow> c \<in> {''incr'', ''decr'', ''touch''} \<and> mc_key_ok k"
| "mc_req_ok (Mc_delete k nr) \<longleftrightarrow> mc_key_ok k"
| "mc_req_ok Mc_quit \<longleftrightarrow> True"

subsection \<open>Running over one word\<close>

lemma lower_other: "islower c \<Longrightarrow> c \<noteq> CR \<and> c \<noteq> CHR '' ''"
  by (auto simp: islower_def CR_def)

lemma digit_blank: "isdigit c \<Longrightarrow> c \<noteq> CHR '' ''"
  by (auto simp: isdigit_def)

lemma blank_not_digit [simp]: "\<not> isdigit CHR '' ''"
  by (simp add: isdigit_def)

lemmas run_Move_mc = run_Move [where step = "memcache_req_step mem bid" for mem bid]

lemma run_lower:
  assumes "drop p d = w @ xs" "\<forall>c \<in> set w. islower c" "state r = SW_REQ_TYPE"
  shows "parse_run (memcache_req_step mem bid) d r p = parse_run (memcache_req_step mem bid) d r (p + length w)"
  using assms
proof (induction w arbitrary: p)
  case (Cons c w)
  then have at: "drop p d = c # w @ xs" by simp
  have "memcache_req_step mem bid d r p = Move r (p + 1)"
    using dropD [OF at] Cons.prems lower_other [of c] by (simp add: memcache_req_step_def memcache_req_type_def)
  from run_Move_mc [OF at this] Cons.IH [of "p + 1"] Cons.prems dropD [OF at] show ?case by simp
qed simp

text \<open>The command word, up to the byte after it.\<close>

lemma run_word:
  assumes at: "drop p d = w @ xs" and w: "w \<noteq> []" "\<forall>c \<in> set w. islower c" and r: "state r = SW_START"
  shows "parse_run (memcache_req_step mem bid) d r p
    = parse_run (memcache_req_step mem bid) d (r\<lparr>token := Some p, state := SW_REQ_TYPE\<rparr>) (p + length w)"
proof -
  obtain c v where v: "w = c # v" using w(1) by (cases w) auto
  have at0: "drop p d = c # v @ xs" using at v by simp
  have at1: "drop (p + 1) d = v @ xs" using dropD(3) [OF at0] by simp
  have "memcache_req_step mem bid d r p = Move (r\<lparr>token := Some p, state := SW_REQ_TYPE\<rparr>) (p + 1)"
    using dropD [OF at0] w(2) v r lower_other [of c] by (simp add: memcache_req_step_def memcache_req_start_def)
  from run_Move_mc [OF at0 this]
    run_lower [OF at1, of "r\<lparr>token := Some p, state := SW_REQ_TYPE\<rparr>" mem bid] w(2) v show ?thesis by simp
qed

lemma memcache_commands_lookup:
  assumes "map_of memcache_commands w = Some ty"
  shows "w \<noteq> [] \<and> (\<forall>c \<in> set w. islower c) \<and> ty \<noteq> MSG_UNKNOWN \<and>
    first_cmp (memcache_cmd_table (length w)) (w @ CHR '' '' # xs) MSG_UNKNOWN = ty"
proof -
  have "(w, ty) \<in> set memcache_commands" using map_of_SomeD [OF assms] .
  then show ?thesis
    unfolding memcache_commands_def
    by (simp only: list.set, elim insertE emptyE)
      (simp_all add: memcache_cmd_table_def islower_def strcmp_def)
qed

lemma run_cmd:
  assumes at: "drop p d = w @ CHR '' '' # xs" and w: "map_of memcache_commands w = Some ty" "ty \<noteq> MSG_REQ_MC_QUIT"
    and r: "state r = SW_START"
  shows "parse_run (memcache_req_step mem bid) d r p = parse_run (memcache_req_step mem bid) d
     (r\<lparr>token := None, mtype := ty, narg := narg r + 1, state := SW_SPACES_BEFORE_KEY\<rparr>) (p + length w + 1)"
proof -
  note l = memcache_commands_lookup [OF w(1), of xs]
  have at1: "drop (p + length w) d = CHR '' '' # xs" by (rule drop_shift [OF at])
  let ?r = "r\<lparr>token := Some p, state := SW_REQ_TYPE\<rparr>"
  have "memcache_req_step mem bid d ?r (p + length w)
      = Move (r\<lparr>token := None, mtype := ty, narg := narg r + 1, state := SW_SPACES_BEFORE_KEY\<rparr>) (p + length w + 1)"
    using dropD [OF at1] l w(2) at
    by (simp add: memcache_req_step_def memcache_req_type_def memcache_cmd_type_def Let_def)
  from run_word [OF at _ _ r, of mem bid] l run_Move_mc [OF at1 this] show ?thesis by simp
qed

subsection \<open>Keys\<close>

lemma run_key_chars:
  assumes "drop p d = k @ xs" "CHR '' '' \<notin> set k" "CR \<notin> set k" "state r = SW_KEY" "token r = Some t"
  shows "parse_run (memcache_req_step mem bid) d r p = parse_run (memcache_req_step mem bid) d r (p + length k)"
  using assms
proof (induction k arbitrary: p)
  case (Cons c k)
  then have at: "drop p d = c # k @ xs" by simp
  have "memcache_req_step mem bid d r p = Move r (p + 1)"
    using dropD [OF at] Cons.prems by (auto simp: memcache_req_step_def memcache_req_key_def Let_def)
  from run_Move_mc [OF at this] Cons.IH [of "p + 1"] Cons.prems dropD [OF at] show ?case by simp
qed simp

definition key_found :: "nat \<Rightarrow> nat \<Rightarrow> bytes \<Rightarrow> memcache_req \<Rightarrow> memcache_req" where
  "key_found bid p k r = r\<lparr>keys := keys r @ [\<lparr>kp_buf = bid, kp_start = p, kp_end = p + length k\<rparr>], narg := narg r + 1,
     token := None, state := memcache_after_key r\<rparr>"

lemma run_key_mc:
  assumes at: "drop p d = k @ c # xs" and k: "mc_key_ok k" and mem: "mem (length (keys r))"
    and r: "state r = SW_SPACES_BEFORE_KEY \<or> state r = SW_SPACES_BEFORE_KEYS"
    and c: "c = CHR '' '' \<or> c = CR \<and> \<not> memcache_storage r \<and> \<not> memcache_arithmetic r"
  shows "parse_run (memcache_req_step mem bid) d r p = parse_run (memcache_req_step mem bid) d
     (key_found bid p k r) (p + length k + (if c = CR then 0 else 1))"
proof -
  obtain x v where v: "k = x # v" "x \<noteq> CHR '' ''" "x \<noteq> CR" "CHR '' '' \<notin> set v" "CR \<notin> set v"
    using k by (cases k) (auto simp: mc_key_ok_def)
  have at0: "drop p d = x # v @ c # xs" using at v by simp
  have at1: "drop (p + 1) d = v @ c # xs" using dropD(3) [OF at0] by simp
  have at2: "drop (p + length k) d = c # xs" by (rule drop_shift [OF at])
  let ?r1 = "r\<lparr>token := None, state := SW_KEY\<rparr>" and ?r2 = "r\<lparr>token := Some p, state := SW_KEY\<rparr>"
  let ?run = "parse_run (memcache_req_step mem bid) d"
  have "?run r p = ?run ?r1 p"
    using dropD [OF at0] v(2,3) r
    by (intro run_Move_mc [OF at0])
      (auto simp: memcache_req_step_def memcache_req_spaces_before_key_def memcache_req_spaces_before_keys_def)
  also have "\<dots> = ?run ?r2 (p + 1)"
    using dropD [OF at0] v(2,3) r
    by (intro run_Move_mc [OF at0]) (simp add: memcache_req_step_def memcache_req_key_def)
  also have "\<dots> = ?run ?r2 (p + length k)" using run_key_chars [OF at1 v(4,5), of ?r2 p mem bid] v(1) by simp
  also have "memcache_req_step mem bid d ?r2 (p + length k)
      = Move (key_found bid p k r) (p + length k + (if c = CR then 0 else 1))"
    using dropD [OF at2] k c mem
    by (auto simp: memcache_req_step_def memcache_req_key_def Let_def mc_key_ok_def MEMCACHE_MAX_KEY_LENGTH_def
        key_found_def memcache_after_key_def memcache_class_defs)
  then have "?run ?r2 (p + length k) = ?run (key_found bid p k r) (p + length k + (if c = CR then 0 else 1))"
    by (rule run_Move_mc [OF at2])
  finally show ?thesis .
qed

subsection \<open>Numbers\<close>

text \<open>A number in a field whose digits only the parser skips; \<open>S1\<close> expects it, \<open>S2\<close> reads it.\<close>

lemma run_skip_digits:
  assumes "drop p d = ds @ xs" "\<forall>c \<in> set ds. isdigit c"
    and "\<And>p. isdigit (d ! p) \<Longrightarrow> memcache_req_step mem bid d r p = Move r (p + 1)"
  shows "parse_run (memcache_req_step mem bid) d r p = parse_run (memcache_req_step mem bid) d r (p + length ds)"
  using assms(1,2)
proof (induction ds arbitrary: p)
  case (Cons c ds)
  then have at: "drop p d = c # ds @ xs" by simp
  from run_Move_mc [OF at assms(3)] Cons.IH [of "p + 1"] Cons.prems dropD [OF at] show ?case by simp
qed simp

lemma show_nat_Cons: "\<exists>c ds. show_nat n = c # ds \<and> isdigit c \<and> (\<forall>x \<in> set ds. isdigit x)"
  using show_nat_digits [of n] show_nat_not_Nil(1) [of n] by (cases "show_nat n") auto

lemma run_number:
  assumes at: "drop p d = show_nat n @ xs" and r: "state r = S1"
    and s1: "\<And>r p. state r = S1 \<Longrightarrow> isdigit (d ! p) \<Longrightarrow>
      memcache_req_step mem bid d r p = Move (r\<lparr>token := Some p, state := S2\<rparr>) (p + 1)"
    and s2: "\<And>r p. state r = S2 \<Longrightarrow> isdigit (d ! p) \<Longrightarrow> memcache_req_step mem bid d r p = Move r (p + 1)"
  shows "parse_run (memcache_req_step mem bid) d r p = parse_run (memcache_req_step mem bid) d
     (r\<lparr>token := Some p, state := S2\<rparr>) (p + length (show_nat n))"
proof -
  obtain c ds where ds: "show_nat n = c # ds" "isdigit c" "\<forall>x \<in> set ds. isdigit x" using show_nat_Cons by blast
  have at0: "drop p d = c # ds @ xs" using at ds by simp
  have at1: "drop (p + 1) d = ds @ xs" using dropD(3) [OF at0] by simp
  have "parse_run (memcache_req_step mem bid) d r p
      = parse_run (memcache_req_step mem bid) d (r\<lparr>token := Some p, state := S2\<rparr>) (p + 1)"
    using dropD [OF at0] ds(2) r by (intro run_Move_mc [OF at0] s1) simp_all
  also have "\<dots> = parse_run (memcache_req_step mem bid) d (r\<lparr>token := Some p, state := S2\<rparr>) (p + 1 + length ds)"
    by (rule run_skip_digits [OF at1 ds(3) s2]) simp_all
  finally show ?thesis using ds(1) by simp
qed

lemmas memcache_req_number_defs = memcache_req_step_def memcache_req_spaces_before_flags_def memcache_req_flags_def
  memcache_req_spaces_before_expiry_def memcache_req_expiry_def memcache_req_spaces_before_cas_def memcache_req_cas_def
  memcache_req_spaces_before_num_def memcache_req_num_def spaces_before_def digits_to_blank_def digits_to_end_def

lemma run_field:
  assumes at: "drop p d = show_nat n @ c # xs" and r: "state r = S1"
    and s1: "\<And>r p. state r = S1 \<Longrightarrow> isdigit (d ! p) \<Longrightarrow>
      memcache_req_step mem bid d r p = Move (r\<lparr>token := Some p, state := S2\<rparr>) (p + 1)"
    and s2: "\<And>r p. state r = S2 \<Longrightarrow> isdigit (d ! p) \<Longrightarrow> memcache_req_step mem bid d r p = Move r (p + 1)"
    and s3: "\<And>r p. state r = S2 \<Longrightarrow> d ! p = c \<Longrightarrow>
      memcache_req_step mem bid d r p = Move (r\<lparr>token := None, state := S3\<rparr>) (p + k)"
  shows "parse_run (memcache_req_step mem bid) d r p = parse_run (memcache_req_step mem bid) d
     (r\<lparr>token := None, state := S3\<rparr>) (p + length (show_nat n) + k)"
proof -
  have at1: "drop (p + length (show_nat n)) d = c # xs" by (rule drop_shift [OF at])
  have "memcache_req_step mem bid d (r\<lparr>token := Some p, state := S2\<rparr>) (p + length (show_nat n))
      = Move (r\<lparr>token := None, state := S3\<rparr>) (p + length (show_nat n) + k)"
    using s3 [of "r\<lparr>token := Some p, state := S2\<rparr>" "p + length (show_nat n)"] dropD [OF at1] by simp
  with run_number [OF at r s1 s2] run_Move_mc [OF at1] show ?thesis by simp
qed

text \<open>Flags and expiry, each with the blank after it.\<close>

lemma run_flags:
  assumes "drop p d = show_nat n @ CHR '' '' # xs" "state r = SW_SPACES_BEFORE_FLAGS"
  shows "parse_run (memcache_req_step mem bid) d r p = parse_run (memcache_req_step mem bid) d
     (r\<lparr>token := None, state := SW_SPACES_BEFORE_EXPIRY\<rparr>) (p + length (show_nat n) + 1)"
  by (rule run_field [OF assms, where ?S2.0 = SW_FLAGS]) (auto simp: memcache_req_number_defs digit_blank)

lemma run_expiry:
  assumes "drop p d = show_nat n @ CHR '' '' # xs" "state r = SW_SPACES_BEFORE_EXPIRY"
  shows "parse_run (memcache_req_step mem bid) d r p = parse_run (memcache_req_step mem bid) d
     (r\<lparr>token := None, state := SW_SPACES_BEFORE_VLEN\<rparr>) (p + length (show_nat n) + 1)"
  by (rule run_field [OF assms, where ?S2.0 = SW_EXPIRY]) (auto simp: memcache_req_number_defs digit_blank)

text \<open>The number of \<open>incr\<close>, \<open>decr\<close> and \<open>touch\<close>, and the cas unique: the byte after it is left.\<close>

lemma run_num:
  assumes "drop p d = show_nat n @ c # xs" "state r = SW_SPACES_BEFORE_NUM" and c: "c = CHR '' '' \<or> c = CR"
  shows "parse_run (memcache_req_step mem bid) d r p = parse_run (memcache_req_step mem bid) d
     (r\<lparr>token := None, state := SW_RUNTO_CRLF\<rparr>) (p + length (show_nat n) + 0)"
  by (rule run_field [OF assms(1,2), where ?S2.0 = SW_NUM]) (use c in \<open>auto simp: memcache_req_number_defs digit_blank\<close>)

lemma run_cas:
  assumes "drop p d = show_nat n @ c # xs" "state r = SW_SPACES_BEFORE_CAS" and c: "c = CHR '' '' \<or> c = CR"
  shows "parse_run (memcache_req_step mem bid) d r p = parse_run (memcache_req_step mem bid) d
     (r\<lparr>token := None, state := SW_RUNTO_CRLF\<rparr>) (p + length (show_nat n) + 0)"
  by (rule run_field [OF assms(1,2), where ?S2.0 = SW_CAS]) (use c in \<open>auto simp: memcache_req_number_defs digit_blank\<close>)

text \<open>The length of the value, which the parser computes.\<close>

lemma run_vlen_digits:
  assumes "drop p d = ds @ xs" "\<forall>c \<in> set ds. isdigit c" "state r = SW_VLEN"
  shows "parse_run (memcache_req_step mem bid) d r p
    = parse_run (memcache_req_step mem bid) d (r\<lparr>vlen := foldl dec_digit (vlen r) ds\<rparr>) (p + length ds)"
  using assms
proof (induction ds arbitrary: p r)
  case (Cons c ds)
  then have at: "drop p d = c # ds @ xs" by simp
  have "memcache_req_step mem bid d r p = Move (r\<lparr>vlen := dec_digit (vlen r) c\<rparr>) (p + 1)"
    using dropD [OF at] Cons.prems by (simp add: memcache_req_step_def memcache_req_vlen_def)
  from run_Move_mc [OF at this] Cons.IH [of "p + 1" "r\<lparr>vlen := dec_digit (vlen r) c\<rparr>"] Cons.prems dropD [OF at]
  show ?case by simp
qed simp

lemma run_vlen:
  assumes at: "drop p d = show_nat n @ c # xs" and r: "state r = SW_SPACES_BEFORE_VLEN" "token r = None"
    and c: "c = CHR '' '' \<or> c = CR \<and> \<not> memcache_cas r"
  shows "parse_run (memcache_req_step mem bid) d r p = parse_run (memcache_req_step mem bid) d
     (r\<lparr>vlen := of_nat n, state := if memcache_cas r then SW_SPACES_BEFORE_CAS else SW_RUNTO_CRLF\<rparr>) (p + length (show_nat n))"
proof -
  obtain x ds where ds: "show_nat n = x # ds" "isdigit x" "\<forall>y \<in> set ds. isdigit y" using show_nat_Cons by blast
  have at0: "drop p d = x # ds @ c # xs" using at ds by simp
  have at1: "drop (p + 1) d = ds @ c # xs" using dropD(3) [OF at0] by simp
  have at2: "drop (p + length (show_nat n)) d = c # xs" by (rule drop_shift [OF at])
  let ?run = "parse_run (memcache_req_step mem bid) d"
  let ?r = "r\<lparr>vlen := dec_digit 0 x, state := SW_VLEN\<rparr>" and ?r2 = "r\<lparr>vlen := of_nat n, state := SW_VLEN\<rparr>"
  have "?run r p = ?run ?r (p + 1)"
    using dropD [OF at0] ds(2) r digit_blank [of x]
    by (intro run_Move_mc [OF at0]) (simp add: memcache_req_step_def memcache_req_spaces_before_vlen_def dec_digit_def)
  also have "\<dots> = ?run (?r\<lparr>vlen := of_nat n\<rparr>) (p + length (show_nat n))"
    using run_vlen_digits [OF at1 ds(3), of ?r mem bid] show_nat_value [of n] ds(1) by simp
  also have "?r\<lparr>vlen := of_nat n\<rparr> = ?r2" by simp
  also have "?run ?r2 (p + length (show_nat n)) = ?run (r\<lparr>vlen := of_nat n, state := if memcache_cas r then SW_SPACES_BEFORE_CAS else SW_RUNTO_CRLF\<rparr>)
      (p + length (show_nat n))"
    using dropD [OF at2] r c
    by (intro run_Move_mc [OF at2]) (auto simp: memcache_req_step_def memcache_req_vlen_def memcache_cas_def)
  finally show ?thesis .
qed

subsection \<open>The end of the line and the value\<close>

lemma run_blank:
  assumes at: "drop p d = CHR '' '' # xs" and r: "state r = SW_SPACES_BEFORE_CAS \<or> state r = SW_RUNTO_CRLF"
  shows "parse_run (memcache_req_step mem bid) d r p = parse_run (memcache_req_step mem bid) d r (p + 1)"
  using dropD [OF at] r
  by (intro run_Move_mc [OF at]) (auto simp: memcache_req_number_defs memcache_req_runto_crlf_def)

lemma run_noreply_chars:
  assumes "drop p d = w @ xs" "\<forall>c \<in> set w. islower c" "state r = SW_NOREPLY"
  shows "parse_run (memcache_req_step mem bid) d r p = parse_run (memcache_req_step mem bid) d r (p + length w)"
  using assms
proof (induction w arbitrary: p)
  case (Cons c w)
  then have at: "drop p d = c # w @ xs" by simp
  have "memcache_req_step mem bid d r p = Move r (p + 1)"
    using dropD [OF at] Cons.prems lower_other [of c] by (simp add: memcache_req_step_def memcache_req_noreply_def)
  from run_Move_mc [OF at this] Cons.IH [of "p + 1"] Cons.prems dropD [OF at] show ?case by simp
qed simp

lemma run_noreply:
  assumes at: "drop p d = ''noreply'' @ CR # xs" and r: "state r = SW_RUNTO_CRLF" "token r = None"
    and ty: "memcache_storage r \<or> memcache_arithmetic r \<or> memcache_delete r \<or> memcache_touch r"
  shows "parse_run (memcache_req_step mem bid) d r p = parse_run (memcache_req_step mem bid) d
     (r\<lparr>noreply := True, state := memcache_after_line r\<rparr>) (p + 8)"
proof -
  have at0: "drop p d = CHR ''n'' # ''oreply'' @ CR # xs" using at by simp
  have at1: "drop (p + 1) d = ''oreply'' @ CR # xs" using dropD(3) [OF at0] by simp
  have at2: "drop (p + 7) d = CR # xs" using drop_shift [OF at] by (simp add: eval_nat_numeral)
  let ?run = "parse_run (memcache_req_step mem bid) d"
  let ?r = "r\<lparr>token := Some p, state := SW_NOREPLY\<rparr>" and ?r2 = "r\<lparr>noreply := True, state := SW_AFTER_NOREPLY\<rparr>"
  have "?run r p = ?run ?r (p + 1)"
    using dropD [OF at0] r ty by (intro run_Move_mc [OF at0]) (auto simp: memcache_req_step_def memcache_req_runto_crlf_def)
  also have "\<dots> = ?run ?r (p + 7)"
    using run_noreply_chars [OF at1, of ?r mem bid] by (simp add: islower_def eval_nat_numeral)
  also have "\<dots> = ?run ?r2 (p + 7)"
    using dropD [OF at2] at r
    by (intro run_Move_mc [OF at2]) (simp add: memcache_req_step_def memcache_req_noreply_def strcmp_def)
  also have "\<dots> = ?run (r\<lparr>noreply := True, state := memcache_after_line r\<rparr>) (p + 8)"
    using dropD [OF at2] r
    by (intro run_Move_mc [OF at2])
      (simp add: memcache_req_step_def memcache_req_after_noreply_def memcache_after_line_def memcache_storage_def)
  finally show ?thesis .
qed

lemma run_tail:
  assumes at: "drop p d = mc_tail nr @ xs" and r: "state r = SW_RUNTO_CRLF" "token r = None" "noreply r = False"
    and ty: "memcache_storage r \<or> memcache_arithmetic r \<or> memcache_delete r \<or> memcache_touch r"
  shows "parse_run (memcache_req_step mem bid) d r p = parse_run (memcache_req_step mem bid) d
     (r\<lparr>noreply := nr, state := memcache_after_line r\<rparr>) (p + length (mc_tail nr))"
proof (cases nr)
  case True
  then have at0: "drop p d = CHR '' '' # ''noreply'' @ CR # xs" using at by (simp add: mc_tail_def)
  have at1: "drop (p + 1) d = ''noreply'' @ CR # xs" using dropD(3) [OF at0] by simp
  from run_blank [OF at0, of r mem bid] run_noreply [OF at1 r(1,2) ty, of mem bid] r(1) True
  show ?thesis by (simp add: mc_tail_def eval_nat_numeral)
next
  case False
  then have at0: "drop p d = CR # xs" using at by (simp add: mc_tail_def)
  have "memcache_req_step mem bid d r p = Move (r\<lparr>noreply := nr, state := memcache_after_line r\<rparr>) (p + 1)"
    using dropD [OF at0] r False by (simp add: memcache_req_step_def memcache_req_runto_crlf_def CR_def)
  from run_Move_mc [OF at0 this] False show ?thesis by (simp add: mc_tail_def)
qed

lemma run_almost_done:
  assumes "drop p d = LF # xs" "state r = SW_ALMOST_DONE"
  shows "parse_run (memcache_req_step mem bid) d r p = Some (Done r p)"
  using dropD [OF assms(1)] assms(2) by (simp add: parse_run_step memcache_req_step_def memcache_req_almost_done_def)

lemma run_value:
  assumes at: "drop p d = LF # v @ CR # LF # xs" and v: "length v < 2 ^ 32"
    and r: "state r = SW_RUNTO_VAL" "vlen r = of_nat (length v)"
  shows "parse_run (memcache_req_step mem bid) d r p = Some (Done (r\<lparr>state := SW_ALMOST_DONE\<rparr>) (p + length v + 2))"
proof -
  have at1: "drop (p + 1) d = v @ CR # LF # xs" using dropD(3) [OF at] by simp
  have at2: "drop (p + 1 + length v) d = CR # LF # xs" by (rule drop_shift [OF at1])
  have at3: "drop (p + length v + 2) d = LF # xs" using dropD(3) [OF at2] by simp
  have u: "unat (vlen r) = length v" using unat_of_nat_small [OF v] r(2) by simp
  obtain y ys where y: "drop (p + 1) d = y # ys" using at1 by (cases "drop (p + 1) d") auto
  let ?run = "parse_run (memcache_req_step mem bid) d"
  have "?run r p = ?run (r\<lparr>state := SW_VAL\<rparr>) (p + 1)"
    using dropD [OF at] r by (intro run_Move_mc [OF at]) (simp add: memcache_req_step_def memcache_req_runto_val_def)
  also have "\<dots> = ?run (r\<lparr>state := SW_ALMOST_DONE\<rparr>) (p + length v + 2)"
    using dropD [OF at2] u
    by (intro run_Move_mc [OF y]) (simp add: memcache_req_step_def memcache_req_val_def val_step_def)
  also have "\<dots> = Some (Done (r\<lparr>state := SW_ALMOST_DONE\<rparr>) (p + length v + 2))"
    by (rule run_almost_done [OF at3]) simp
  finally show ?thesis .
qed

subsection \<open>Requests\<close>

text \<open>\<open>mc_parsed\<close>: from \<open>r\<close> at \<open>p\<close> the parser completes at \<open>q\<close>, having found the keys \<open>ks\<close>.\<close>

definition mc_parsed :: "(nat \<Rightarrow> bool) \<Rightarrow> nat \<Rightarrow> bytes \<Rightarrow> memcache_req \<Rightarrow> nat \<Rightarrow> bytes list \<Rightarrow> bool \<Rightarrow> nat \<Rightarrow> bool" where
  "mc_parsed mem bid d r p ks nr q \<longleftrightarrow> (\<exists>r' kps. parse_run (memcache_req_step mem bid) d r p = Some (Done r' q) \<and>
     mtype r' = mtype r \<and> quit r' = quit r \<and> noreply r' = nr \<and> keys r' = keys r @ kps \<and>
     map (key_bytes d) kps = ks \<and> (\<forall>kp \<in> set kps. kp_buf kp = bid))"

lemma mc_parsed_eq:
  assumes "parse_run (memcache_req_step mem bid) d r p = parse_run (memcache_req_step mem bid) d r1 p1"
    and "mc_parsed mem bid d r1 p1 ks nr q" "mtype r1 = mtype r" "quit r1 = quit r" "keys r1 = keys r"
  shows "mc_parsed mem bid d r p ks nr q"
  using assms by (auto simp: mc_parsed_def)

lemma mc_parsed_key:
  assumes at: "drop p d = k @ c # xs" and k: "mc_key_ok k" and mem: "\<forall>n. mem n"
    and r: "state r = SW_SPACES_BEFORE_KEY \<or> state r = SW_SPACES_BEFORE_KEYS"
    and c: "c = CHR '' '' \<or> c = CR \<and> \<not> memcache_storage r \<and> \<not> memcache_arithmetic r"
    and rest: "mc_parsed mem bid d (key_found bid p k r) (p + length k + (if c = CR then 0 else 1)) ks nr q"
  shows "mc_parsed mem bid d r p (k # ks) nr q"
proof -
  have "key_bytes d \<lparr>kp_buf = bid, kp_start = p, kp_end = p + length k\<rparr> = k" using at by (simp add: key_bytes_def)
  with rest run_key_mc [OF at k _ r c, of mem bid] mem show ?thesis
    by (auto simp: mc_parsed_def key_found_def)
qed

lemma mc_parsed_end:
  assumes "parse_run (memcache_req_step mem bid) d r p = Some (Done r' q)"
    and "mtype r' = mtype r" "quit r' = quit r" "noreply r' = nr" "keys r' = keys r"
  shows "mc_parsed mem bid d r p [] nr q"
  using assms by (auto simp: mc_parsed_def)

lemma mc_parsed_retrieve:
  assumes "drop p d = mc_join ks @ CR # LF # xs" "list_all mc_key_ok ks" "ks \<noteq> []" "\<forall>n. mem n" "memcache_retrieval r"
    and "state r = SW_SPACES_BEFORE_KEY \<or> state r = SW_SPACES_BEFORE_KEYS" "noreply r = False"
  shows "mc_parsed mem bid d r p ks False (p + length (mc_join ks) + 1)"
  using assms
proof (induction ks arbitrary: p r rule: mc_join.induct)
  case (2 k)
  let ?r = "key_found bid p k r"
  have ty: "\<not> memcache_storage r" "\<not> memcache_arithmetic r" "\<not> memcache_touch r" "\<not> memcache_delete r"
    using "2.prems"(5) by (auto simp: memcache_class_defs)
  have at: "drop p d = k @ CR # LF # xs" using "2.prems"(1) by simp
  have at1: "drop (p + length k) d = CR # LF # xs" by (rule drop_shift [OF at])
  have at2: "drop (p + length k + 1) d = LF # xs" using dropD(3) [OF at1] by simp
  have "memcache_req_step mem bid d ?r (p + length k) = Move (?r\<lparr>state := SW_ALMOST_DONE\<rparr>) (p + length k + 1)"
    using dropD [OF at1] ty "2.prems"(5)
    by (simp add: memcache_req_step_def key_found_def memcache_after_key_def memcache_req_spaces_before_keys_def)
  from run_Move_mc [OF at1 this] run_almost_done [OF at2, of "?r\<lparr>state := SW_ALMOST_DONE\<rparr>" mem bid]
  have "parse_run (memcache_req_step mem bid) d ?r (p + length k)
      = Some (Done (?r\<lparr>state := SW_ALMOST_DONE\<rparr>) (p + length k + 1))" by simp
  from mc_parsed_end [OF this] have "mc_parsed mem bid d ?r (p + length k) [] False (p + length k + 1)"
    using "2.prems"(7) by (simp add: key_found_def)
  with mc_parsed_key [OF at _ "2.prems"(4,6), where ks = "[]"] "2.prems"(2) ty show ?case by simp
next
  case (3 k k' ks)
  let ?r = "key_found bid p k r"
  have ty: "\<not> memcache_storage r" "\<not> memcache_arithmetic r" "\<not> memcache_touch r" "\<not> memcache_delete r"
    using "3.prems"(5) by (auto simp: memcache_class_defs)
  have at: "drop p d = k @ CHR '' '' # mc_join (k' # ks) @ CR # LF # xs" using "3.prems"(1) by simp
  have at1: "drop (p + length k + 1) d = mc_join (k' # ks) @ CR # LF # xs" using dropD(3) [OF drop_shift [OF at]] by simp
  have "mc_parsed mem bid d ?r (p + length k + 1) (k' # ks) False (p + length k + 1 + length (mc_join (k' # ks)) + 1)"
    using "3.prems"(2,5,7) ty
    by (intro "3.IH" [OF at1 _ _ "3.prems"(4)]) (simp_all add: key_found_def memcache_after_key_def memcache_retrieval_def)
  with mc_parsed_key [OF at _ "3.prems"(4,6), where ks = "k' # ks"] "3.prems"(2) show ?case by (simp add: add.assoc)
qed simp

lemma mc_tail_hd: "\<exists>c xs. mc_tail nr = c # xs \<and> (c = CHR '' '' \<or> c = CR)"
  by (cases nr) (auto simp: mc_tail_def)

text \<open>The rest of a line after its last argument, for commands without a value.\<close>

lemma mc_parsed_tail:
  assumes at: "drop p d = mc_tail nr @ LF # xs" and r: "state r = SW_RUNTO_CRLF" "token r = None" "noreply r = False"
    and ty: "memcache_arithmetic r \<or> memcache_delete r \<or> memcache_touch r"
  shows "mc_parsed mem bid d r p [] nr (p + length (mc_tail nr))"
proof -
  have "memcache_after_line r = SW_ALMOST_DONE"
    using ty by (auto simp: memcache_after_line_def memcache_class_defs)
  with run_tail [OF at r, of mem bid] ty run_almost_done [OF drop_shift [OF at], of "r\<lparr>noreply := nr, state := SW_ALMOST_DONE\<rparr>" mem bid]
  have "parse_run (memcache_req_step mem bid) d r p
      = Some (Done (r\<lparr>noreply := nr, state := SW_ALMOST_DONE\<rparr>) (p + length (mc_tail nr)))" by simp
  from mc_parsed_end [OF this] show ?thesis by simp
qed

lemma mc_parsed_number:
  assumes at: "drop p d = k @ CHR '' '' # show_nat n @ mc_tail nr @ LF # xs" and k: "mc_key_ok k" and mem: "\<forall>n. mem n"
    and r: "state r = SW_SPACES_BEFORE_KEY" "noreply r = False" and ty: "memcache_arithmetic r \<or> memcache_touch r"
  shows "mc_parsed mem bid d r p [k] nr (p + length k + 1 + length (show_nat n) + length (mc_tail nr))"
proof -
  let ?r = "key_found bid p k r"
  obtain c ys where c: "mc_tail nr = c # ys" "c = CHR '' '' \<or> c = CR" using mc_tail_hd by blast
  have at1: "drop (p + length k + 1) d = show_nat n @ mc_tail nr @ LF # xs"
    using dropD(3) [OF drop_shift [OF at]] by simp
  have at2: "drop (p + length k + 1 + length (show_nat n)) d = mc_tail nr @ LF # xs" by (rule drop_shift [OF at1])
  have s: "state ?r = SW_SPACES_BEFORE_NUM"
    using ty by (auto simp: key_found_def memcache_after_key_def memcache_class_defs)
  have num: "parse_run (memcache_req_step mem bid) d ?r (p + length k + 1) = parse_run (memcache_req_step mem bid) d
      (?r\<lparr>token := None, state := SW_RUNTO_CRLF\<rparr>) (p + length k + 1 + length (show_nat n))"
    using run_num [OF _ s c(2), of "p + length k + 1" d n "ys @ LF # xs" mem bid] at1 c(1) by simp
  have "mc_parsed mem bid d (?r\<lparr>token := None, state := SW_RUNTO_CRLF\<rparr>) (p + length k + 1 + length (show_nat n)) [] nr
      (p + length k + 1 + length (show_nat n) + length (mc_tail nr))"
    using mc_parsed_tail [OF at2, of "?r\<lparr>token := None, state := SW_RUNTO_CRLF\<rparr>" mem bid] ty r(2)
    by (auto simp: key_found_def memcache_class_defs)
  from mc_parsed_key [OF at k mem, of r bid "[]"] mc_parsed_eq [OF num this] r(1) show ?thesis
    by (simp add: key_found_def)
qed

lemma mc_parsed_delete:
  assumes at: "drop p d = k @ mc_tail nr @ LF # xs" and k: "mc_key_ok k" and mem: "\<forall>n. mem n"
    and r: "state r = SW_SPACES_BEFORE_KEY" "noreply r = False" and ty: "memcache_delete r"
  shows "mc_parsed mem bid d r p [k] nr (p + length k + length (mc_tail nr))"
proof -
  let ?r = "key_found bid p k r"
  have ty': "\<not> memcache_storage r" "\<not> memcache_arithmetic r" "\<not> memcache_touch r"
    using ty by (auto simp: memcache_class_defs)
  then have s: "state ?r = SW_RUNTO_CRLF" "token ?r = None" "noreply ?r = False" "memcache_delete ?r"
    using ty r(2) by (simp_all add: key_found_def memcache_after_key_def memcache_delete_def)
  have at1: "drop (p + length k) d = mc_tail nr @ LF # xs" by (rule drop_shift [OF at])
  have fin: "mc_parsed mem bid d ?r (p + length k) [] nr (p + length k + length (mc_tail nr))"
    using mc_parsed_tail [OF at1 s(1-3)] s(4) by blast
  show ?thesis
  proof (cases nr)
    case True
    then have at0: "drop p d = k @ CHR '' '' # ''noreply'' @ CR # LF # xs" using at by (simp add: mc_tail_def)
    have b: "drop (p + length k) d = CHR '' '' # ''noreply'' @ CR # LF # xs" by (rule drop_shift [OF at0])
    have "mc_parsed mem bid d ?r (p + length k + 1) [] nr (p + length k + length (mc_tail nr))"
      using fin run_blank [OF b, of ?r mem bid] s(1) by (simp add: mc_parsed_def)
    with mc_parsed_key [OF at0 k mem, of r bid "[]"] r(1) show ?thesis by simp
  next
    case False
    then have "drop p d = k @ CR # LF # xs" using at by (simp add: mc_tail_def)
    from mc_parsed_key [OF this k mem, of r bid "[]"] r(1) ty' fin show ?thesis by simp
  qed
qed

text \<open>The line of a storage command from its value length on, and the value.\<close>

lemma mc_parsed_vlen:
  assumes at: "drop p d = show_nat (length v) @ mc_cas cas @ mc_tail nr @ LF # v @ CR # LF # xs" and v: "length v < 2 ^ 32"
    and r: "state r = SW_SPACES_BEFORE_VLEN" "token r = None" "noreply r = False"
    and ty: "memcache_storage r" "memcache_cas r \<longleftrightarrow> cas \<noteq> None"
  shows "mc_parsed mem bid d r p [] nr (p + length (show_nat (length v)) + length (mc_cas cas) + length (mc_tail nr) + length v + 2)"
proof -
  let ?run = "parse_run (memcache_req_step mem bid) d"
  let ?p1 = "p + length (show_nat (length v))" and ?r = "r\<lparr>vlen := of_nat (length v), state := SW_RUNTO_CRLF\<rparr>"
  let ?p2 = "?p1 + length (mc_cas cas)" and ?r2 = "?r\<lparr>noreply := nr, state := SW_RUNTO_VAL\<rparr>"
  obtain c ys where c: "mc_tail nr = c # ys" "c = CHR '' '' \<or> c = CR" using mc_tail_hd by blast
  have at1: "drop ?p1 d = mc_cas cas @ mc_tail nr @ LF # v @ CR # LF # xs" by (rule drop_shift [OF at])
  have at2: "drop ?p2 d = mc_tail nr @ LF # v @ CR # LF # xs" by (rule drop_shift [OF at1])
  have at3: "drop (?p2 + length (mc_tail nr)) d = LF # v @ CR # LF # xs" by (rule drop_shift [OF at2])
  have st: "memcache_storage ?r" using ty(1) by (simp add: memcache_storage_def)
  have "?run r p = ?run ?r ?p2"
  proof (cases cas)
    case None
    with run_vlen [OF _ r(1,2), of p d "length v" c "ys @ LF # v @ CR # LF # xs" mem bid] at c ty(2) show ?thesis
      by (simp add: mc_cas_def)
  next
    case (Some n)
    let ?rc = "r\<lparr>vlen := of_nat (length v), state := SW_SPACES_BEFORE_CAS\<rparr>"
    have b: "drop ?p1 d = CHR '' '' # show_nat n @ c # ys @ LF # v @ CR # LF # xs" using at1 Some c(1) by (simp add: mc_cas_def)
    have b1: "drop (?p1 + 1) d = show_nat n @ c # ys @ LF # v @ CR # LF # xs" using dropD(3) [OF b] by simp
    have tok: "r\<lparr>vlen := of_nat (length v), token := None, state := SW_RUNTO_CRLF\<rparr> = ?r" using r(2) by simp
    have "?run r p = ?run ?rc ?p1"
      using run_vlen [OF _ r(1,2), of p d "length v" "CHR '' ''" "show_nat n @ mc_tail nr @ LF # v @ CR # LF # xs" mem bid] at Some ty(2)
      by (simp add: mc_cas_def)
    also have "\<dots> = ?run ?rc (?p1 + 1)" by (rule run_blank [OF b]) simp
    also have "\<dots> = ?run ?r ?p2" using run_cas [OF b1, of ?rc mem bid] c(2) Some tok by (simp add: mc_cas_def)
    finally show ?thesis .
  qed
  also have "\<dots> = ?run ?r2 (?p2 + length (mc_tail nr))"
    using run_tail [OF at2 _ _ _ disjI1 [OF st], of mem bid] r(2,3) st by (simp add: memcache_after_line_def)
  also have "\<dots> = Some (Done (?r2\<lparr>state := SW_ALMOST_DONE\<rparr>) (?p2 + length (mc_tail nr) + length v + 2))"
    by (rule run_value [OF at3 v]) simp_all
  finally show ?thesis by (rule mc_parsed_end) simp_all
qed

lemma mc_parsed_store:
  assumes at: "drop p d = k @ CHR '' '' # show_nat flags @ CHR '' '' # show_nat exp @ CHR '' '' # show_nat (length v)
      @ mc_cas cas @ mc_tail nr @ LF # v @ CR # LF # xs"
    and k: "mc_key_ok k" and mem: "\<forall>n. mem n" and v: "length v < 2 ^ 32"
    and r: "state r = SW_SPACES_BEFORE_KEY" "noreply r = False"
    and ty: "memcache_storage r" "memcache_cas r \<longleftrightarrow> cas \<noteq> None"
  shows "mc_parsed mem bid d r p [k] nr (p + length k + 1 + length (show_nat flags) + 1 + length (show_nat exp) + 1
    + length (show_nat (length v)) + length (mc_cas cas) + length (mc_tail nr) + length v + 2)"
proof -
  let ?r = "key_found bid p k r" and ?p1 = "p + length k + 1"
  let ?p2 = "?p1 + length (show_nat flags) + 1"
  let ?p3 = "?p2 + length (show_nat exp) + 1" and ?r3 = "?r\<lparr>token := None, state := SW_SPACES_BEFORE_VLEN\<rparr>"
  have at1: "drop ?p1 d = show_nat flags @ CHR '' '' # show_nat exp @ CHR '' '' # show_nat (length v)
      @ mc_cas cas @ mc_tail nr @ LF # v @ CR # LF # xs" using dropD(3) [OF drop_shift [OF at]] by simp
  have at2: "drop ?p2 d = show_nat exp @ CHR '' '' # show_nat (length v)
      @ mc_cas cas @ mc_tail nr @ LF # v @ CR # LF # xs" using dropD(3) [OF drop_shift [OF at1]] by simp
  have at3: "drop ?p3 d = show_nat (length v) @ mc_cas cas @ mc_tail nr @ LF # v @ CR # LF # xs"
    using dropD(3) [OF drop_shift [OF at2]] by simp
  have s: "state ?r = SW_SPACES_BEFORE_FLAGS" using ty(1) by (simp add: key_found_def memcache_after_key_def)
  have fin: "mc_parsed mem bid d ?r3 ?p3 [] nr
      (?p3 + length (show_nat (length v)) + length (mc_cas cas) + length (mc_tail nr) + length v + 2)"
    using r(2) ty by (intro mc_parsed_vlen [OF at3 v]) (simp_all add: key_found_def memcache_class_defs)
  have run: "parse_run (memcache_req_step mem bid) d ?r ?p1 = parse_run (memcache_req_step mem bid) d ?r3 ?p3"
    using run_flags [OF at1 s, of mem bid]
      run_expiry [OF at2, of "?r\<lparr>token := None, state := SW_SPACES_BEFORE_EXPIRY\<rparr>" mem bid] by simp
  from mc_parsed_key [OF at k mem, of r bid "[]"] r(1) mc_parsed_eq [OF run fin] show ?thesis by simp
qed

lemma mc_parsed_quit:
  assumes at: "drop p d = ''quit'' @ CR # LF # xs" and r: "state r = SW_START" "noreply r = False"
  shows "\<exists>r'. parse_run (memcache_req_step mem bid) d r p = Some (Done r' (p + 5)) \<and> mtype r' = MSG_REQ_MC_QUIT \<and>
    quit r' \<and> noreply r' = False \<and> keys r' = keys r"
proof -
  have at1: "drop (p + 4) d = CR # LF # xs" using drop_shift [OF at] by (simp add: eval_nat_numeral)
  have at2: "drop (p + 5) d = LF # xs" using dropD(3) [OF at1] by (simp add: eval_nat_numeral)
  let ?run = "parse_run (memcache_req_step mem bid) d"
  let ?r = "r\<lparr>token := None, mtype := MSG_REQ_MC_QUIT, narg := narg r + 1, quit := True, state := SW_CRLF\<rparr>"
  have "?run r p = ?run (r\<lparr>token := Some p, state := SW_REQ_TYPE\<rparr>) (p + 4)"
    using run_word [OF at _ _ r(1), of mem bid] by (simp add: islower_def eval_nat_numeral)
  also have "\<dots> = ?run ?r (p + 4)"
    using dropD [OF at1] at
    by (intro run_Move_mc [OF at1])
      (simp add: memcache_req_step_def memcache_req_type_def memcache_cmd_type_def memcache_cmd_table_def strcmp_def Let_def)
  also have "\<dots> = ?run (?r\<lparr>state := SW_ALMOST_DONE\<rparr>) (p + 5)"
    using dropD [OF at1]
    by (intro run_Move_mc [OF at1]) (simp add: memcache_req_step_def memcache_req_crlf_def)
  also have "\<dots> = Some (Done (?r\<lparr>state := SW_ALMOST_DONE\<rparr>) (p + 5))" by (rule run_almost_done [OF at2]) simp
  finally show ?thesis using r(2) by simp
qed

text \<open>A command with arguments: its first word, then what the lemmas above say of the rest.\<close>

lemma mc_parsed_cmd:
  assumes at: "drop p d = c @ CHR '' '' # xs" and c: "map_of memcache_commands c = Some ty" "ty \<noteq> MSG_REQ_MC_QUIT"
    and r: "state r = SW_START" "quit r = False" "keys r = []"
    and rest: "mc_parsed mem bid d (r\<lparr>token := None, mtype := ty, narg := narg r + 1, state := SW_SPACES_BEFORE_KEY\<rparr>)
      (p + length c + 1) (mc_keys x) (mc_noreply x) q"
    and x: "mc_type x = Some ty" "x \<noteq> Mc_quit" "q = p + length (mc_encode x) - 1"
  shows "\<exists>r'. parse_run (memcache_req_step mem bid) d r p = Some (Done r' (p + length (mc_encode x) - 1)) \<and>
    mc_type x = Some (mtype r') \<and> quit r' = (x = Mc_quit) \<and> noreply r' = mc_noreply x \<and>
    map (key_bytes d) (keys r') = mc_keys x \<and> (\<forall>kp \<in> set (keys r'). kp_buf kp = bid)"
  using rest run_cmd [OF at c r(1), of mem bid] r(2,3) x by (auto simp: mc_parsed_def)

lemma mc_request_run:
  assumes ok: "mc_req_ok x" and mem: "\<forall>n. mem n" and at: "drop p d = mc_encode x @ xs"
    and r: "state r = SW_START" "quit r = False" "keys r = []" and nr: "noreply r = False"
  shows "\<exists>r'. parse_run (memcache_req_step mem bid) d r p = Some (Done r' (p + length (mc_encode x) - 1)) \<and>
    mc_type x = Some (mtype r') \<and> quit r' = (x = Mc_quit) \<and> noreply r' = mc_noreply x \<and>
    map (key_bytes d) (keys r') = mc_keys x \<and> (\<forall>kp \<in> set (keys r'). kp_buf kp = bid)"
proof (cases x)
  case (Mc_retrieve c ks)
  then obtain ty where ty: "map_of memcache_commands c = Some ty" "ty \<in> {MSG_REQ_MC_GET, MSG_REQ_MC_GETS}" "ty \<noteq> MSG_REQ_MC_QUIT"
    using ok by (auto simp: memcache_commands_def)
  let ?r = "r\<lparr>token := None, mtype := ty, narg := narg r + 1, state := SW_SPACES_BEFORE_KEY\<rparr>"
  have at0: "drop p d = c @ CHR '' '' # mc_join ks @ CR # LF # xs" using at Mc_retrieve by simp
  have at1: "drop (p + length c + 1) d = mc_join ks @ CR # LF # xs" using dropD(3) [OF drop_shift [OF at0]] by simp
  have "mc_parsed mem bid d ?r (p + length c + 1) ks False (p + length c + 1 + length (mc_join ks) + 1)"
    using ok Mc_retrieve ty(2) nr by (intro mc_parsed_retrieve [OF at1 _ _ mem]) (auto simp: memcache_retrieval_def)
  then show ?thesis using ty(1) Mc_retrieve by (intro mc_parsed_cmd [OF at0 ty(1,3) r]) (simp_all add: add.assoc)
next
  case (Mc_store c k flags exp cas v nr')
  then obtain ty where ty: "map_of memcache_commands c = Some ty"
    "ty \<in> {MSG_REQ_MC_SET, MSG_REQ_MC_CAS, MSG_REQ_MC_ADD, MSG_REQ_MC_REPLACE, MSG_REQ_MC_APPEND, MSG_REQ_MC_PREPEND}"
    "ty = MSG_REQ_MC_CAS \<longleftrightarrow> cas \<noteq> None" "ty \<noteq> MSG_REQ_MC_QUIT"
    using ok by (auto simp: memcache_commands_def)
  let ?r = "r\<lparr>token := None, mtype := ty, narg := narg r + 1, state := SW_SPACES_BEFORE_KEY\<rparr>"
  have at0: "drop p d = c @ CHR '' '' # k @ CHR '' '' # show_nat flags @ CHR '' '' # show_nat exp @ CHR '' ''
      # show_nat (length v) @ mc_cas cas @ mc_tail nr' @ LF # v @ CR # LF # xs" using at Mc_store by simp
  have at1: "drop (p + length c + 1) d = k @ CHR '' '' # show_nat flags @ CHR '' '' # show_nat exp @ CHR '' ''
      # show_nat (length v) @ mc_cas cas @ mc_tail nr' @ LF # v @ CR # LF # xs" using dropD(3) [OF drop_shift [OF at0]] by simp
  have st: "memcache_storage ?r" "memcache_cas ?r \<longleftrightarrow> cas \<noteq> None"
    using ty(2,3) by (simp_all add: memcache_storage_def memcache_cas_def)
  have "mc_key_ok k" "length v < 2 ^ 32" using ok Mc_store by simp_all
  note this(1) mem this(2)
  from mc_parsed_store [OF at1 this _ _ st] nr have fin: "mc_parsed mem bid d ?r (p + length c + 1) [k] nr'
      (p + length c + 1 + length k + 1 + length (show_nat flags) + 1 + length (show_nat exp) + 1
       + length (show_nat (length v)) + length (mc_cas cas) + length (mc_tail nr') + length v + 2)" by simp
  show ?thesis using fin ty(1) Mc_store by (intro mc_parsed_cmd [OF at0 ty(1,4) r]) (simp_all add: add.assoc)
next
  case (Mc_number c k n nr')
  then obtain ty where ty: "map_of memcache_commands c = Some ty" "ty \<in> {MSG_REQ_MC_INCR, MSG_REQ_MC_DECR, MSG_REQ_MC_TOUCH}"
    "ty \<noteq> MSG_REQ_MC_QUIT" using ok by (auto simp: memcache_commands_def)
  let ?r = "r\<lparr>token := None, mtype := ty, narg := narg r + 1, state := SW_SPACES_BEFORE_KEY\<rparr>"
  have at0: "drop p d = c @ CHR '' '' # k @ CHR '' '' # show_nat n @ mc_tail nr' @ LF # xs" using at Mc_number by simp
  have at1: "drop (p + length c + 1) d = k @ CHR '' '' # show_nat n @ mc_tail nr' @ LF # xs"
    using dropD(3) [OF drop_shift [OF at0]] by simp
  have st: "memcache_arithmetic ?r \<or> memcache_touch ?r" using ty(2) by (auto simp: memcache_class_defs)
  have k: "mc_key_ok k" using ok Mc_number by simp
  have "mc_parsed mem bid d ?r (p + length c + 1) [k] nr'
      (p + length c + 1 + length k + 1 + length (show_nat n) + length (mc_tail nr'))"
    using nr by (intro mc_parsed_number [OF at1 k mem _ _ st]) simp_all
  then show ?thesis using ty(1) Mc_number by (intro mc_parsed_cmd [OF at0 ty(1,3) r]) (simp_all add: add.assoc)
next
  case (Mc_delete k nr')
  let ?r = "r\<lparr>token := None, mtype := MSG_REQ_MC_DELETE, narg := narg r + 1, state := SW_SPACES_BEFORE_KEY\<rparr>"
  have ty: "map_of memcache_commands ''delete'' = Some MSG_REQ_MC_DELETE" by (simp add: memcache_commands_def)
  have at0: "drop p d = ''delete'' @ CHR '' '' # k @ mc_tail nr' @ LF # xs" using at Mc_delete by simp
  have at1: "drop (p + length ''delete'' + 1) d = k @ mc_tail nr' @ LF # xs" using dropD(3) [OF drop_shift [OF at0]] by simp
  have st: "memcache_delete ?r" by (simp add: memcache_delete_def)
  have k: "mc_key_ok k" using ok Mc_delete by simp
  have "mc_parsed mem bid d ?r (p + length ''delete'' + 1) [k] nr' (p + length ''delete'' + 1 + length k + length (mc_tail nr'))"
    using nr by (intro mc_parsed_delete [OF at1 k mem _ _ st]) simp_all
  then show ?thesis using Mc_delete by (intro mc_parsed_cmd [OF at0 ty _ r]) (simp_all add: add.assoc)
next
  case Mc_quit
  then have "drop p d = ''quit'' @ CR # LF # xs" using at by simp
  from mc_parsed_quit [OF this r(1) nr, of mem bid] r(3) Mc_quit show ?thesis by (auto simp: eval_nat_numeral)
qed

lemma mc_encode_nonempty: "0 < length (mc_encode x)"
  by (cases x) simp_all

text \<open>
  C5: the memcached request parser inverts the protocol.  A well-formed retrieval, storage,
  arithmetic, touch, delete or quit request, whatever follows it in the buffer, is accepted up
  to its last byte (the data block included), with its command, exactly its keys, and its
  \<open>noreply\<close> flag.
\<close>
theorem memcache_parse_req_roundtrip:
  assumes ok: "mc_req_ok x" and mem: "\<forall>n. mem n" and b: "mdata b = pre @ mc_encode x @ rest"
    and r: "r = (fresh_msg SW_START)\<lparr>pos := length pre\<rparr>"
  shows "\<exists>r'. memcache_parse_req mem b r = Some r' \<and> result r' = MSG_PARSE_OK \<and> mc_type x = Some (mtype r') \<and>
     pos r' = length pre + length (mc_encode x) \<and> quit r' = (x = Mc_quit) \<and> noreply r' = mc_noreply x \<and>
     map (key_bytes (mdata b)) (keys r') = mc_keys x \<and> (\<forall>kp \<in> set (keys r'). kp_buf kp = mid b)"
proof -
  have "drop (length pre) (mdata b) = mc_encode x @ rest" using b by simp
  from mc_request_run [OF ok mem this, of r "mid b"] mc_encode_nonempty [of x] r show ?thesis
    by (auto simp: memcache_parse_req_def parse_with_def parse_run_def memcache_req_done_def fresh_msg_def)
qed

theorem memcache_parse_req_roundtrip_witness:
  "\<exists>r'. memcache_parse_req (\<lambda>n. True)
       (example_mbuf (''xy'' @ mc_encode (Mc_store ''set'' ''k'' 3 60 None ''value'' True) @ ''get''))
       ((fresh_msg SW_START)\<lparr>pos := length ''xy''\<rparr>) = Some r' \<and>
     result r' = MSG_PARSE_OK \<and> mc_type (Mc_store ''set'' ''k'' 3 60 None ''value'' True) = Some (mtype r') \<and>
     pos r' = length ''xy'' + length (mc_encode (Mc_store ''set'' ''k'' 3 60 None ''value'' True)) \<and>
     quit r' = (Mc_store ''set'' ''k'' 3 60 None ''value'' True = Mc_quit) \<and>
     noreply r' = mc_noreply (Mc_store ''set'' ''k'' 3 60 None ''value'' True) \<and>
     map (key_bytes (mdata (example_mbuf (''xy'' @ mc_encode (Mc_store ''set'' ''k'' 3 60 None ''value'' True) @ ''get'')))) (keys r')
       = mc_keys (Mc_store ''set'' ''k'' 3 60 None ''value'' True) \<and>
     (\<forall>kp \<in> set (keys r'). kp_buf kp
       = mid (example_mbuf (''xy'' @ mc_encode (Mc_store ''set'' ''k'' 3 60 None ''value'' True) @ ''get'')))"
  by (rule memcache_parse_req_roundtrip [where rest = "''get''"]) (simp_all add: example_mbuf_def mc_key_ok_def CR_def)

text \<open>The key of a request that the parser refuses.\<close>

lemma run_bad_key:
  assumes at: "drop p d = k @ c # xs" and k: "CHR '' '' \<notin> set k" "CR \<notin> set k" "250 < length k"
    and r: "state r = SW_SPACES_BEFORE_KEY" and c: "c = CHR '' '' \<or> c = CR"
  shows "\<exists>r'. parse_run (memcache_req_step mem bid) d r p = Some (Error r')"
proof -
  obtain x v where v: "k = x # v" "x \<noteq> CHR '' ''" "x \<noteq> CR" "CHR '' '' \<notin> set v" "CR \<notin> set v"
    using k by (cases k) auto
  have at0: "drop p d = x # v @ c # xs" using at v by simp
  have at1: "drop (p + 1) d = v @ c # xs" using dropD(3) [OF at0] by simp
  have at2: "drop (p + length k) d = c # xs" by (rule drop_shift [OF at])
  let ?r1 = "r\<lparr>token := None, state := SW_KEY\<rparr>" and ?r2 = "r\<lparr>token := Some p, state := SW_KEY\<rparr>"
  let ?run = "parse_run (memcache_req_step mem bid) d"
  have "?run r p = ?run ?r1 p"
    using dropD [OF at0] v(2) r
    by (intro run_Move_mc [OF at0]) (simp add: memcache_req_step_def memcache_req_spaces_before_key_def)
  also have "\<dots> = ?run ?r2 (p + 1)"
    using dropD [OF at0] v(2,3) by (intro run_Move_mc [OF at0]) (simp add: memcache_req_step_def memcache_req_key_def)
  also have "\<dots> = ?run ?r2 (p + length k)" using run_key_chars [OF at1 v(4,5), of ?r2 p mem bid] v(1) by simp
  also have "\<dots> = Some (Error ?r2)"
    using dropD [OF at2] k(3) c
    by (auto simp: parse_run_step memcache_req_step_def memcache_req_key_def Let_def MEMCACHE_MAX_KEY_LENGTH_def)
  finally show ?thesis by blast
qed

text \<open>
  C21: a key of more than 250 bytes is refused, whatever the command, so that a request the
  memcached server would reject never reaches it.
\<close>
theorem memcache_parse_req_long_key:
  assumes c: "map_of memcache_commands c = Some ty" "ty \<noteq> MSG_REQ_MC_QUIT"
    and k: "CHR '' '' \<notin> set k" "CR \<notin> set k" "250 < length k" and e: "e = CHR '' '' \<or> e = CR"
    and b: "mdata b = pre @ c @ CHR '' '' # k @ e # rest" and r: "r = (fresh_msg SW_START)\<lparr>pos := length pre\<rparr>"
  shows "\<exists>r'. memcache_parse_req mem b r = Some r' \<and> result r' = MSG_PARSE_ERROR"
proof -
  have at: "drop (length pre) (mdata b) = c @ CHR '' '' # k @ e # rest" using b by simp
  have at1: "drop (length pre + length c + 1) (mdata b) = k @ e # rest" using dropD(3) [OF drop_shift [OF at]] by simp
  let ?r = "r\<lparr>token := None, mtype := ty, narg := narg r + 1, state := SW_SPACES_BEFORE_KEY\<rparr>"
  from run_cmd [OF at c, of r mem "mid b"] run_bad_key [OF at1 k, of ?r mem "mid b"] e r show ?thesis
    by (auto simp: memcache_parse_req_def parse_with_def parse_run_def parse_error_def fresh_msg_def)
qed

theorem memcache_parse_req_long_key_witness:
  "\<exists>r'. memcache_parse_req (\<lambda>n. True) (example_mbuf (''xy'' @ ''get'' @ CHR '' '' # replicate 251 (CHR ''k'') @ CR # [LF]))
       ((fresh_msg SW_START)\<lparr>pos := length ''xy''\<rparr>) = Some r' \<and> result r' = MSG_PARSE_ERROR"
  by (rule memcache_parse_req_long_key [where c = "''get''" and ty = MSG_REQ_MC_GET and pre = "''xy''" and k = "replicate 251 (CHR ''k'')" and e = CR])
    (simp_all add: memcache_commands_def example_mbuf_def CR_def)

end
