(* ===== verification/Memcache_Response.thy ===== *)
theory Memcache_Response
  imports Memcache_Encoding
begin

text \<open>
  \<open>memcache_parse_rsp\<close> of \<^verbatim>\<open>proto/nc_memcache.c\<close>: one definition per state of its \<open>switch\<close>, the exit
  that rewinds a response to its start when a buffer is full, and \<open>memcache_failure\<close>.
\<close>

subsection \<open>The states\<close>

datatype memcache_rsp_state =
    SW_START | SW_RSP_NUM | SW_RSP_STR | SW_SPACES_BEFORE_KEY | SW_KEY | SW_SPACES_BEFORE_FLAGS | SW_FLAGS
  | SW_SPACES_BEFORE_VLEN | SW_VLEN | SW_RUNTO_VAL | SW_VAL | SW_VAL_LF | SW_END | SW_RUNTO_CRLF | SW_CRLF | SW_ALMOST_DONE

type_synonym memcache_rsp = "memcache_rsp_state msg"

definition memcache_rsp_start :: "char \<Rightarrow> memcache_rsp \<Rightarrow> nat \<Rightarrow> memcache_rsp outcome" where
  "memcache_rsp_start ch r p = Move (r\<lparr>state := if isdigit ch then SW_RSP_NUM else SW_RSP_STR\<rparr>) p"

definition memcache_rsp_num :: "char \<Rightarrow> memcache_rsp \<Rightarrow> nat \<Rightarrow> memcache_rsp outcome" where
  "memcache_rsp_num ch r p =
     (let t = (case token r of None \<Rightarrow> p | Some t \<Rightarrow> t) in
      if isdigit ch then Move (r\<lparr>token := Some t\<rparr>) (p + 1)
      else if ch = CHR '' '' \<or> ch = CR then Move (r\<lparr>token := None, mtype := MSG_RSP_MC_NUM, state := SW_CRLF\<rparr>) p
      else Error (r\<lparr>token := Some t\<rparr>))"

text \<open>The responses by the length \<open>n\<close> of their first word; \<open>END\<close> includes the CR after it.\<close>

definition memcache_rsp_table :: "nat \<Rightarrow> (bytes \<times> msg_type) list" where
  "memcache_rsp_table n =
     (if n = 3 then [(''END'' @ [CR], MSG_RSP_MC_END)]
      else if n = 5 then [(''VALUE'', MSG_RSP_MC_VALUE), (''ERROR'', MSG_RSP_MC_ERROR)]
      else if n = 6 then [(''STORED'', MSG_RSP_MC_STORED), (''EXISTS'', MSG_RSP_MC_EXISTS)]
      else if n = 7 then [(''DELETED'', MSG_RSP_MC_DELETED), (''TOUCHED'', MSG_RSP_MC_TOUCHED)]
      else if n = 9 then [(''NOT_FOUND'', MSG_RSP_MC_NOT_FOUND)]
      else if n = 10 then [(''NOT_STORED'', MSG_RSP_MC_NOT_STORED)]
      else if n = 12 then [(''CLIENT_ERROR'', MSG_RSP_MC_CLIENT_ERROR), (''SERVER_ERROR'', MSG_RSP_MC_SERVER_ERROR)]
      else [])"

text \<open>The state after the first word.\<close>

definition memcache_after_word :: "msg_type \<Rightarrow> memcache_rsp_state" where
  "memcache_after_word ty =
     (if ty = MSG_RSP_MC_VALUE then SW_SPACES_BEFORE_KEY
      else if ty = MSG_RSP_MC_CLIENT_ERROR \<or> ty = MSG_RSP_MC_SERVER_ERROR then SW_RUNTO_CRLF
      else SW_CRLF)"

definition memcache_rsp_str :: "nat \<Rightarrow> bytes \<Rightarrow> memcache_rsp \<Rightarrow> nat \<Rightarrow> memcache_rsp outcome" where
  "memcache_rsp_str bid d r p =
     (let ch = d ! p; t = (case token r of None \<Rightarrow> p | Some t \<Rightarrow> t) in
      if ch = CHR '' '' \<or> ch = CR then
        let ty = first_cmp (memcache_rsp_table (p - t)) (drop t d) MSG_UNKNOWN;
            r' = r\<lparr>token := Some t, mtype := ty, msg_end := if ty = MSG_RSP_MC_END then Some (bid, t) else msg_end r\<rparr> in
        if ty = MSG_UNKNOWN then Error r' else Move (r'\<lparr>state := memcache_after_word ty\<rparr>) p
      else Move (r\<lparr>token := Some t\<rparr>) (p + 1))"

definition memcache_rsp_spaces_before_key :: "char \<Rightarrow> memcache_rsp \<Rightarrow> nat \<Rightarrow> memcache_rsp outcome" where
  "memcache_rsp_spaces_before_key ch r p = (if ch \<noteq> CHR '' '' then Move (r\<lparr>state := SW_KEY\<rparr>) p else Move r (p + 1))"

definition memcache_rsp_key :: "char \<Rightarrow> memcache_rsp \<Rightarrow> nat \<Rightarrow> memcache_rsp outcome" where
  "memcache_rsp_key ch r p =
     (if ch = CHR '' '' then Move (r\<lparr>state := SW_SPACES_BEFORE_FLAGS\<rparr>) (p + 1) else Move r (p + 1))"

definition memcache_rsp_spaces_before_flags :: "char \<Rightarrow> memcache_rsp \<Rightarrow> nat \<Rightarrow> memcache_rsp outcome" where
  "memcache_rsp_spaces_before_flags ch r p =
     (if ch = CHR '' '' then Move r (p + 1)
      else if \<not> isdigit ch then Error r
      else Move (r\<lparr>state := SW_FLAGS\<rparr>) p)"

definition memcache_rsp_flags :: "char \<Rightarrow> memcache_rsp \<Rightarrow> nat \<Rightarrow> memcache_rsp outcome" where
  "memcache_rsp_flags ch r p =
     (if isdigit ch then Move r (p + 1)
      else if ch = CHR '' '' then Move (r\<lparr>state := SW_SPACES_BEFORE_VLEN\<rparr>) (p + 1)
      else Error r)"

definition memcache_rsp_spaces_before_vlen :: "char \<Rightarrow> memcache_rsp \<Rightarrow> nat \<Rightarrow> memcache_rsp outcome" where
  "memcache_rsp_spaces_before_vlen ch r p =
     (if ch = CHR '' '' then Move r (p + 1)
      else if \<not> isdigit ch then Error r
      else Move (r\<lparr>state := SW_VLEN, vlen := 0\<rparr>) p)"

definition memcache_rsp_vlen :: "char \<Rightarrow> memcache_rsp \<Rightarrow> nat \<Rightarrow> memcache_rsp outcome" where
  "memcache_rsp_vlen ch r p =
     (if isdigit ch then Move (r\<lparr>vlen := dec_digit (vlen r) ch\<rparr>) (p + 1)
      else if ch = CHR '' '' \<or> ch = CR then Move (r\<lparr>state := SW_RUNTO_CRLF\<rparr>) p
      else Error r)"

definition memcache_rsp_runto_val :: "char \<Rightarrow> memcache_rsp \<Rightarrow> nat \<Rightarrow> memcache_rsp outcome" where
  "memcache_rsp_runto_val ch r p = (if ch = LF then Move (r\<lparr>state := SW_VAL, token := None\<rparr>) (p + 1) else Error r)"

definition memcache_rsp_val :: "bytes \<Rightarrow> memcache_rsp \<Rightarrow> nat \<Rightarrow> memcache_rsp outcome" where
  "memcache_rsp_val = val_step SW_VAL_LF"

definition memcache_rsp_val_lf :: "char \<Rightarrow> memcache_rsp \<Rightarrow> nat \<Rightarrow> memcache_rsp outcome" where
  "memcache_rsp_val_lf ch r p = (if ch = LF then Move (r\<lparr>state := SW_RSP_STR\<rparr>) (p + 1) else Error r)"

text \<open>No state leads here any more, but the code is there.\<close>

definition memcache_rsp_end :: "nat \<Rightarrow> bytes \<Rightarrow> memcache_rsp \<Rightarrow> nat \<Rightarrow> memcache_rsp outcome" where
  "memcache_rsp_end bid d r p =
     (let ch = d ! p in
      case token r of
        None \<Rightarrow> if ch \<noteq> CHR ''E'' then Error r else Move (r\<lparr>token := Some p\<rparr>) (p + 1)
      | Some t \<Rightarrow>
          if ch = CR then
            if p - t = 3 then
              if strcmp (drop t d) (''END'' @ [CR])
              then Move (r\<lparr>token := None, msg_end := Some (bid, t), state := SW_ALMOST_DONE\<rparr>) (p + 1)
              else Move (r\<lparr>token := None\<rparr>) (p + 1)
            else Error (r\<lparr>token := None\<rparr>)
          else Move r (p + 1))"

definition memcache_rsp_runto_crlf :: "char \<Rightarrow> memcache_rsp \<Rightarrow> nat \<Rightarrow> memcache_rsp outcome" where
  "memcache_rsp_runto_crlf ch r p =
     (if ch = CR then Move (r\<lparr>state := if mtype r = MSG_RSP_MC_VALUE then SW_RUNTO_VAL else SW_ALMOST_DONE\<rparr>) (p + 1)
      else Move r (p + 1))"

definition memcache_rsp_crlf :: "char \<Rightarrow> memcache_rsp \<Rightarrow> nat \<Rightarrow> memcache_rsp outcome" where
  "memcache_rsp_crlf ch r p =
     (if ch = CHR '' '' then Move r (p + 1)
      else if ch = CR then Move (r\<lparr>state := SW_ALMOST_DONE\<rparr>) (p + 1)
      else Error r)"

definition memcache_rsp_almost_done :: "char \<Rightarrow> memcache_rsp \<Rightarrow> nat \<Rightarrow> memcache_rsp outcome" where
  "memcache_rsp_almost_done ch r p = (if ch = LF then Done r p else Error r)"

subsection \<open>The parser\<close>

definition memcache_rsp_step :: "nat \<Rightarrow> bytes \<Rightarrow> memcache_rsp \<Rightarrow> nat \<Rightarrow> memcache_rsp outcome" where
  "memcache_rsp_step bid d r p =
     (let ch = d ! p in
      case state r of
        SW_START \<Rightarrow> memcache_rsp_start ch r p
      | SW_RSP_NUM \<Rightarrow> memcache_rsp_num ch r p
      | SW_RSP_STR \<Rightarrow> memcache_rsp_str bid d r p
      | SW_SPACES_BEFORE_KEY \<Rightarrow> memcache_rsp_spaces_before_key ch r p
      | SW_KEY \<Rightarrow> memcache_rsp_key ch r p
      | SW_SPACES_BEFORE_FLAGS \<Rightarrow> memcache_rsp_spaces_before_flags ch r p
      | SW_FLAGS \<Rightarrow> memcache_rsp_flags ch r p
      | SW_SPACES_BEFORE_VLEN \<Rightarrow> memcache_rsp_spaces_before_vlen ch r p
      | SW_VLEN \<Rightarrow> memcache_rsp_vlen ch r p
      | SW_RUNTO_VAL \<Rightarrow> memcache_rsp_runto_val ch r p
      | SW_VAL \<Rightarrow> memcache_rsp_val d r p
      | SW_VAL_LF \<Rightarrow> memcache_rsp_val_lf ch r p
      | SW_END \<Rightarrow> memcache_rsp_end bid d r p
      | SW_RUNTO_CRLF \<Rightarrow> memcache_rsp_runto_crlf ch r p
      | SW_CRLF \<Rightarrow> memcache_rsp_crlf ch r p
      | SW_ALMOST_DONE \<Rightarrow> memcache_rsp_almost_done ch r p)"

text \<open>
  The end of the buffer.  A line that is carried into the next buffer is read from its start
  again: the states up to \<open>SW_RUNTO_VAL\<close> in the order of the enumeration, \<open>SW_CRLF\<close> and
  \<open>SW_ALMOST_DONE\<close> are reset.
\<close>

definition memcache_rsp_rewind :: "memcache_rsp_state \<Rightarrow> memcache_rsp_state" where
  "memcache_rsp_rewind s = (if s \<in> {SW_VAL, SW_VAL_LF, SW_END, SW_RUNTO_CRLF} then s else SW_START)"

definition memcache_rsp_again :: "mbuf \<Rightarrow> memcache_rsp \<Rightarrow> nat \<Rightarrow> memcache_rsp" where
  "memcache_rsp_again b r p =
     (let r' = r\<lparr>pos := p\<rparr> in
      if mlast b = mend b \<and> token r' \<noteq> None
      then r'\<lparr>state := memcache_rsp_rewind (state r'), pos := the (token r'), token := None, result := MSG_PARSE_REPAIR\<rparr>
      else r'\<lparr>result := MSG_PARSE_AGAIN\<rparr>)"

definition memcache_parse_rsp :: "mbuf \<Rightarrow> memcache_rsp \<Rightarrow> memcache_rsp option" where
  "memcache_parse_rsp b = parse_with (memcache_rsp_step (mid b)) memcache_rsp_again (parse_done SW_START) b"

definition memcache_failure :: "memcache_rsp \<Rightarrow> bool" where
  "memcache_failure r = False"

lemmas memcache_rsp_defs = memcache_rsp_start_def memcache_rsp_num_def memcache_rsp_spaces_before_key_def memcache_rsp_key_def
  memcache_rsp_spaces_before_flags_def memcache_rsp_flags_def memcache_rsp_spaces_before_vlen_def memcache_rsp_vlen_def
  memcache_rsp_runto_val_def memcache_rsp_val_lf_def memcache_rsp_runto_crlf_def memcache_rsp_crlf_def memcache_rsp_almost_done_def

subsection \<open>The parser keeps its contract\<close>

text \<open>The value length is read from the end of its digits until the value is passed.\<close>

definition memcache_rsp_live :: "memcache_rsp \<Rightarrow> bool" where
  "memcache_rsp_live r \<longleftrightarrow> state r \<in> {SW_VLEN, SW_RUNTO_VAL, SW_VAL} \<or> state r = SW_RUNTO_CRLF \<and> mtype r = MSG_RSP_MC_VALUE"

definition memcache_rsp_inv :: "memcache_rsp \<Rightarrow> nat \<Rightarrow> bool" where
  "memcache_rsp_inv r p \<longleftrightarrow> (\<forall>t. token r = Some t \<longrightarrow> t \<le> p)"

definition memcache_rsp_rank :: "memcache_rsp \<Rightarrow> nat" where
  "memcache_rsp_rank r = (case state r of SW_START \<Rightarrow> 3 | SW_RSP_STR \<Rightarrow> 2 | SW_RSP_NUM \<Rightarrow> 1 | SW_SPACES_BEFORE_KEY \<Rightarrow> 1
     | SW_SPACES_BEFORE_FLAGS \<Rightarrow> 1 | SW_SPACES_BEFORE_VLEN \<Rightarrow> 2 | SW_VLEN \<Rightarrow> 1 | _ \<Rightarrow> 0)"

lemma memcache_rsp_str_Move:
  assumes "memcache_rsp_str bid d r p = Move r' p'" "state r = SW_RSP_STR"
  shows "(token r' = Some p \<or> token r' = token r) \<and> (p' = p + 1 \<or> p' = p \<and> memcache_rsp_rank r' < memcache_rsp_rank r)"
  using assms
  by (auto simp: memcache_rsp_str_def memcache_rsp_rank_def memcache_after_word_def Let_def split: if_splits option.splits)

lemma memcache_rsp_end_Move:
  assumes "memcache_rsp_end bid d r p = Move r' p'"
  shows "(token r' = None \<or> token r' = Some p \<or> token r' = token r) \<and> p' = p + 1"
  using assms by (auto simp: memcache_rsp_end_def Let_def split: if_splits option.splits)

lemma memcache_rsp_step_Move:
  assumes "memcache_rsp_inv r p" "p < length d" "memcache_rsp_step bid d r p = Move r' p'"
  shows "memcache_rsp_inv r' p' \<and> p' \<le> length d \<and> (p < p' \<or> p' = p \<and> memcache_rsp_rank r' < memcache_rsp_rank r)"
proof -
  have "(token r' = None \<or> token r' = Some p \<or> token r' = token r) \<and> p' \<le> length d \<and>
      (p < p' \<or> p' = p \<and> memcache_rsp_rank r' < memcache_rsp_rank r)"
  proof (cases "state r")
    case SW_RSP_STR
    then show ?thesis using memcache_rsp_str_Move [of bid d r p r' p'] assms by (auto simp: memcache_rsp_step_def)
  next
    case SW_END
    then show ?thesis using memcache_rsp_end_Move [of bid d r p r' p'] assms by (auto simp: memcache_rsp_step_def)
  next
    case SW_VAL
    then show ?thesis
      using val_step_Move [of SW_VAL_LF d r p r' p'] assms by (auto simp: memcache_rsp_step_def memcache_rsp_val_def)
  qed (use assms in \<open>auto simp: memcache_rsp_step_def memcache_rsp_defs memcache_rsp_rank_def Let_def split: if_splits option.splits\<close>)
  then show ?thesis using assms(1) by (auto simp: memcache_rsp_inv_def)
qed

lemma memcache_rsp_data_Done:
  "memcache_rsp_str bid d r p \<noteq> Done r' p'" "memcache_rsp_end bid d r p \<noteq> Done r' p'"
  by (simp_all add: memcache_rsp_str_def memcache_rsp_end_def Let_def split: option.split)

lemma memcache_rsp_step_Done: "memcache_rsp_step bid d r p = Done r' p' \<Longrightarrow> p' = p"
  by (cases "state r")
    (simp_all add: memcache_rsp_step_def memcache_rsp_defs memcache_rsp_data_Done memcache_rsp_val_def val_step_Done Let_def
      split: if_splits)

lemma memcache_rsp_table_length: "\<forall>(s, t) \<in> set (memcache_rsp_table n). length s \<le> Suc n"
  by (auto simp: memcache_rsp_table_def)

lemma memcache_rsp_data_more:
  assumes "memcache_rsp_inv r p" "p < length d"
  shows "memcache_rsp_str bid (d @ e) r p = memcache_rsp_str bid d r p"
    and "memcache_rsp_end bid (d @ e) r p = memcache_rsp_end bid d r p"
proof -
  define t where "t = (case token r of None \<Rightarrow> p | Some t \<Rightarrow> t)"
  have "t \<le> p" using assms(1) by (auto simp: t_def memcache_rsp_inv_def split: option.split)
  with assms(2) have "first_cmp (memcache_rsp_table (p - t)) (drop t d @ e) MSG_UNKNOWN
      = first_cmp (memcache_rsp_table (p - t)) (drop t d) MSG_UNKNOWN"
    using memcache_rsp_table_length [of "p - t"] by (intro first_cmp_append) fastforce
  with \<open>t \<le> p\<close> assms(2) show "memcache_rsp_str bid (d @ e) r p = memcache_rsp_str bid d r p"
    by (simp add: memcache_rsp_str_def nth_append Let_def t_def [symmetric])
  show "memcache_rsp_end bid (d @ e) r p = memcache_rsp_end bid d r p"
    using assms by (auto simp: memcache_rsp_end_def nth_append Let_def strcmp_def memcache_rsp_inv_def split: option.split)
qed

lemma memcache_rsp_step_more:
  assumes inv: "memcache_rsp_inv r p" and p: "p < length d"
  shows "outcome_sim (vlen_sim memcache_rsp_live) (memcache_rsp_step bid (d @ e) r p) (memcache_rsp_step bid d r p) \<or>
    (\<exists>r'. memcache_rsp_step bid d r p = Move r' (length d) \<and>
      (e \<noteq> [] \<longrightarrow> outcome_sim (vlen_sim memcache_rsp_live) (memcache_rsp_step bid (d @ e) r p)
        (memcache_rsp_step bid (d @ e) r' (length d))))"
proof (cases "state r = SW_VAL")
  case True
  then have s: "memcache_rsp_step bid d' r' p' = val_step SW_VAL_LF d' r' p'" if "state r' = state r" for d' r' p'
    using that by (simp add: memcache_rsp_step_def memcache_rsp_val_def)
  from val_step_more [OF p, of SW_VAL_LF memcache_rsp_live e r] show ?thesis
    by (auto simp: s memcache_rsp_live_def vlen_outcome_refl)
next
  case False
  then have "memcache_rsp_step bid (d @ e) r p = memcache_rsp_step bid d r p"
    using p memcache_rsp_data_more [OF inv p, of bid e] by (cases "state r") (simp_all add: memcache_rsp_step_def nth_append)
  then show ?thesis by (simp add: vlen_outcome_refl)
qed

lemma memcache_rsp_step_mark:
  "memcache_rsp_step bid d (mark x y r) p = map_outcome (mark x y) (memcache_rsp_step bid d r p)"
  by (cases "state r")
    (simp_all add: memcache_rsp_step_def memcache_rsp_defs memcache_rsp_str_def memcache_rsp_end_def memcache_rsp_val_def
      val_step_mark Let_def split: option.split)

text \<open>A state that does not read the value length passes it on, or sets a fresh one.\<close>

lemma memcache_rsp_step_set_vlen:
  assumes "\<not> memcache_rsp_live r" "state r \<noteq> SW_SPACES_BEFORE_VLEN"
  shows "memcache_rsp_step bid d (r\<lparr>vlen := v\<rparr>) p = map_outcome (\<lambda>r. r\<lparr>vlen := v\<rparr>) (memcache_rsp_step bid d r p)"
  using assms
  by (cases "state r")
    (simp_all add: memcache_rsp_live_def memcache_rsp_step_def memcache_rsp_defs memcache_rsp_str_def memcache_rsp_end_def
      Let_def split: option.split)

lemma memcache_rsp_step_not_live:
  assumes "\<not> memcache_rsp_live r" "state r \<noteq> SW_SPACES_BEFORE_VLEN" "memcache_rsp_step bid d r p = Move r' p'"
  shows "\<not> memcache_rsp_live r'"
  using assms
  by (cases "state r")
    (auto simp: memcache_rsp_live_def memcache_rsp_step_def memcache_rsp_defs memcache_rsp_str_def memcache_rsp_end_def
      memcache_after_word_def Let_def split: option.splits if_splits)

lemma vlen_sim_set:
  assumes "\<not> live r" "\<not> live (r\<lparr>vlen := v\<rparr>)"
  shows "vlen_sim live r (r\<lparr>vlen := v\<rparr>)"
  using assms by (simp add: vlen_sim_def vlen_same_def)

lemma memcache_rsp_live_vlen: "memcache_rsp_live (r\<lparr>vlen := v\<rparr>) = memcache_rsp_live r"
  by (simp add: memcache_rsp_live_def)

lemma memcache_rsp_step_ends:
  "memcache_rsp_step bid d r p = Done r' p' \<Longrightarrow> r' = r \<and> state r = SW_ALMOST_DONE" "memcache_rsp_step bid d r p \<noteq> Enomem r'"
  by (cases "state r"; simp add: memcache_rsp_step_def memcache_rsp_defs memcache_rsp_data_Done memcache_rsp_val_def val_step_def
      memcache_rsp_str_def memcache_rsp_end_def Let_def split: if_splits option.splits)+

lemma memcache_rsp_step_vlen:
  assumes "\<not> memcache_rsp_live r"
  shows "outcome_sim (vlen_sim memcache_rsp_live) (memcache_rsp_step bid d r p) (memcache_rsp_step bid d (r\<lparr>vlen := v\<rparr>) p)"
proof (cases "state r = SW_SPACES_BEFORE_VLEN")
  case True
  then show ?thesis
    by (auto simp: memcache_rsp_step_def memcache_rsp_spaces_before_vlen_def vlen_sim_def vlen_same_def memcache_rsp_live_def Let_def)
next
  case False
  note eq = memcache_rsp_step_set_vlen [OF assms False, of bid d v p]
  show ?thesis
  proof (cases "memcache_rsp_step bid d r p")
    case (Move r' p')
    with memcache_rsp_step_not_live [OF assms False Move] eq show ?thesis
      by (simp add: vlen_sim_set memcache_rsp_live_vlen)
  next
    case (Done r' p')
    with memcache_rsp_step_ends(1) [OF Done] assms eq show ?thesis by (simp add: vlen_sim_set memcache_rsp_live_vlen)
  qed (use eq memcache_rsp_step_ends(2) [of bid d r p] in simp_all)
qed

lemma memcache_rsp_step_sim:
  assumes "vlen_sim memcache_rsp_live r r'"
  shows "outcome_sim (vlen_sim memcache_rsp_live) (memcache_rsp_step bid d r p) (memcache_rsp_step bid d r' p)"
proof (cases "r = r'")
  case False
  then obtain v where "r' = r\<lparr>vlen := v\<rparr>" "\<not> memcache_rsp_live r"
    using assms by (auto simp: vlen_sim_def dest!: vlen_same_ex)
  then show ?thesis using memcache_rsp_step_vlen by blast
qed (simp add: vlen_outcome_refl)

lemma memcache_rsp_inv_sim: "vlen_sim memcache_rsp_live r r' \<Longrightarrow> memcache_rsp_inv r p \<Longrightarrow> memcache_rsp_inv r' p"
  by (auto simp: memcache_rsp_inv_def dest!: vlen_sim_same vlen_same_ex)

interpretation memcache_rsp: msg_parser "memcache_rsp_step bid" memcache_rsp_inv memcache_rsp_rank
  "vlen_sim memcache_rsp_live" memcache_rsp_again "parse_done SW_START" vlen_same for bid
proof unfold_locales
  fix r :: memcache_rsp and p and d e :: bytes
  assume "memcache_rsp_inv r p" "p < length d"
  then show "outcome_sim (vlen_sim memcache_rsp_live) (memcache_rsp_step bid (d @ e) r p) (memcache_rsp_step bid d r p) \<or>
    (\<exists>r'. memcache_rsp_step bid d r p = Move r' (length d) \<and>
      (e \<noteq> [] \<longrightarrow> outcome_sim (vlen_sim memcache_rsp_live) (memcache_rsp_step bid (d @ e) r p)
        (memcache_rsp_step bid (d @ e) r' (length d))))"
    by (rule memcache_rsp_step_more)
next
  fix b :: mbuf and r :: memcache_rsp
  assume inv: "memcache_rsp_inv r (mlast b)"
  then show "pos (memcache_rsp_again b r (mlast b)) \<le> mlast b"
    by (auto simp: memcache_rsp_again_def Let_def memcache_rsp_inv_def)
  show "memcache_rsp_inv (memcache_rsp_again b r (mlast b)) (pos (memcache_rsp_again b r (mlast b)))"
    using inv by (simp add: memcache_rsp_inv_def memcache_rsp_again_def Let_def)
next
  fix b :: mbuf and r :: memcache_rsp and p
  show "result (memcache_rsp_again b r p) \<in> {MSG_PARSE_AGAIN, MSG_PARSE_REPAIR}" by (simp add: memcache_rsp_again_def Let_def)
next
  fix b :: mbuf and r :: memcache_rsp and p
  assume "mlast b < mend b"
  then show "memcache_rsp_again b r p = mark p MSG_PARSE_AGAIN r" by (simp add: memcache_rsp_again_def mark_def Let_def)
next
  fix r r' :: memcache_rsp and p
  assume "vlen_sim memcache_rsp_live r r'"
  then show "vlen_same (parse_done SW_START r p) (parse_done SW_START r' p)"
    by (auto simp: parse_done_def vlen_same_def dest!: vlen_sim_same vlen_same_ex)
next
  fix r :: memcache_rsp and x y p
  show "memcache_rsp_inv (mark x y r) p = memcache_rsp_inv r p" by (simp add: memcache_rsp_inv_def)
qed (simp_all add: memcache_rsp_step_mark parse_done_mark parse_done_def memcache_rsp_step_sim vlen_same_mark,
    (blast intro: vlen_sim_equiv vlen_same_equiv vlen_sim_same vlen_same_mark memcache_rsp_inv_sim
      dest: memcache_rsp_step_Move memcache_rsp_step_Done)+)

text \<open>
  C37: the memcached response parser always returns, although a response may make it look at
  one byte four times: it stays within the buffer, and a response that wants more input can be
  parsed again.
\<close>
theorem memcache_parse_rsp_total:
  assumes "memcache_rsp_inv r (pos r)" "pos r \<le> mlast b"
  shows "\<exists>r'. memcache_parse_rsp b r = Some r' \<and> (result r' \<noteq> MSG_PARSE_ERROR \<longrightarrow> pos r' \<le> mlast b) \<and>
     (result r' \<in> {MSG_PARSE_AGAIN, MSG_PARSE_REPAIR} \<longrightarrow> memcache_rsp_inv r' (pos r'))"
  unfolding memcache_parse_rsp_def by (rule memcache_rsp.parse_with_total [OF assms])

theorem memcache_parse_rsp_total_witness:
  "\<exists>r'. memcache_parse_rsp (example_mbuf ''VALUE k'') (fresh_msg SW_START) = Some r' \<and>
     (result r' \<noteq> MSG_PARSE_ERROR \<longrightarrow> pos r' \<le> mlast (example_mbuf ''VALUE k'')) \<and>
     (result r' \<in> {MSG_PARSE_AGAIN, MSG_PARSE_REPAIR} \<longrightarrow> memcache_rsp_inv r' (pos r'))"
  by (rule memcache_parse_rsp_total) (simp_all add: fresh_msg_def memcache_rsp_inv_def)

text \<open>
  C23: memcached responses may arrive in pieces: however the bytes of a response are cut into
  reads, as long as they fit the buffer, the parser reaches the result it reaches on all bytes
  at once (up to the remaining value length, which it does not use again).
\<close>
theorem memcache_parse_rsp_pieces:
  assumes "memcache_rsp_inv r (pos r)" "pos r \<le> mlast b" "[] \<notin> set es" "mlast b + length (concat es) < mend b"
  shows "rel_option (msg_agree vlen_same) (parse_pieces memcache_parse_rsp b r es)
     (memcache_parse_rsp (b\<lparr>mdata := mdata b @ concat es\<rparr>) r)"
proof -
  have "parse_pieces memcache_parse_rsp b r es
      = parse_pieces (parse_with (memcache_rsp_step (mid b)) memcache_rsp_again (parse_done SW_START)) b r es"
    by (rule parse_pieces_cong) (simp add: memcache_parse_rsp_def)
  then show ?thesis
    using memcache_rsp.parse_pieces_whole [OF assms, of "mid b"] by (simp add: memcache_parse_rsp_def)
qed

theorem memcache_parse_rsp_pieces_witness:
  "rel_option (msg_agree vlen_same)
     (parse_pieces memcache_parse_rsp (example_mbuf ''VALUE k 0 3'') (fresh_msg SW_START) [[CR], [LF, CHR ''a'']])
     (memcache_parse_rsp ((example_mbuf ''VALUE k 0 3'')\<lparr>mdata := ''VALUE k 0 3'' @ concat [[CR], [LF, CHR ''a'']]\<rparr>) (fresh_msg SW_START))"
  using memcache_parse_rsp_pieces [of "fresh_msg SW_START" "example_mbuf ''VALUE k 0 3''" "[[CR], [LF, CHR ''a'']]"]
  by (simp add: fresh_msg_def example_mbuf_def memcache_rsp_inv_def)

subsection \<open>Responses\<close>

text \<open>
  A response: one word; a number; an error with a text; or the items of a retrieval (key,
  flags, cas unique, value), which end with \<open>END\<close>.
\<close>

datatype mc_rsp =
    Rsp_word bytes
  | Rsp_num nat
  | Rsp_error bytes bytes
  | Rsp_values "(bytes \<times> nat \<times> nat option \<times> bytes) list"

definition mc_encode_value :: "bytes \<times> nat \<times> nat option \<times> bytes \<Rightarrow> bytes" where
  "mc_encode_value = (\<lambda>(k, flags, cas, v). ''VALUE'' @ CHR '' '' # k @ CHR '' '' # show_nat flags @ CHR '' ''
     # show_nat (length v) @ mc_cas cas @ [CR, LF] @ v @ [CR, LF])"

fun mc_encode_rsp :: "mc_rsp \<Rightarrow> bytes" where
  "mc_encode_rsp (Rsp_word w) = w @ [CR, LF]"
| "mc_encode_rsp (Rsp_num n) = show_nat n @ [CR, LF]"
| "mc_encode_rsp (Rsp_error w s) = w @ CHR '' '' # s @ [CR, LF]"
| "mc_encode_rsp (Rsp_values vs) = concat (map mc_encode_value vs) @ ''END'' @ [CR, LF]"

definition mc_words :: "(bytes \<times> msg_type) list" where
  "mc_words = [(''ERROR'', MSG_RSP_MC_ERROR), (''STORED'', MSG_RSP_MC_STORED), (''EXISTS'', MSG_RSP_MC_EXISTS),
     (''DELETED'', MSG_RSP_MC_DELETED), (''TOUCHED'', MSG_RSP_MC_TOUCHED), (''NOT_FOUND'', MSG_RSP_MC_NOT_FOUND),
     (''NOT_STORED'', MSG_RSP_MC_NOT_STORED)]"

definition mc_errors :: "(bytes \<times> msg_type) list" where
  "mc_errors = [(''CLIENT_ERROR'', MSG_RSP_MC_CLIENT_ERROR), (''SERVER_ERROR'', MSG_RSP_MC_SERVER_ERROR)]"

fun mc_value_ok :: "bytes \<times> nat \<times> nat option \<times> bytes \<Rightarrow> bool" where
  "mc_value_ok (k, flags, cas, v) \<longleftrightarrow> k \<noteq> [] \<and> CHR '' '' \<notin> set k \<and> length v < 2 ^ 32"

fun mc_rsp_type :: "mc_rsp \<Rightarrow> msg_type option" where
  "mc_rsp_type (Rsp_word w) = map_of mc_words w"
| "mc_rsp_type (Rsp_num n) = Some MSG_RSP_MC_NUM"
| "mc_rsp_type (Rsp_error w s) = map_of mc_errors w"
| "mc_rsp_type (Rsp_values vs) = Some MSG_RSP_MC_END"

fun mc_rsp_ok :: "mc_rsp \<Rightarrow> bool" where
  "mc_rsp_ok (Rsp_word w) \<longleftrightarrow> w \<in> fst ` set mc_words"
| "mc_rsp_ok (Rsp_num n) \<longleftrightarrow> True"
| "mc_rsp_ok (Rsp_error w s) \<longleftrightarrow> w \<in> fst ` set mc_errors \<and> CR \<notin> set s"
| "mc_rsp_ok (Rsp_values vs) \<longleftrightarrow> list_all mc_value_ok vs"

lemmas run_Move_rsp = run_Move [where step = "memcache_rsp_step bid" for bid]

text \<open>The first word, up to the byte after it.\<close>

lemma run_rsp_chars:
  assumes "drop p d = w @ xs" "CHR '' '' \<notin> set w" "CR \<notin> set w" "state r = SW_RSP_STR" "token r = Some t"
  shows "parse_run (memcache_rsp_step bid) d r p = parse_run (memcache_rsp_step bid) d r (p + length w)"
  using assms
proof (induction w arbitrary: p)
  case (Cons c w)
  then have at: "drop p d = c # w @ xs" by simp
  have "memcache_rsp_step bid d r p = Move r (p + 1)"
    using dropD [OF at] Cons.prems by (auto simp: memcache_rsp_step_def memcache_rsp_str_def Let_def)
  from run_Move_rsp [OF at this] Cons.IH [of "p + 1"] Cons.prems dropD [OF at] show ?case by simp
qed simp

definition word_found :: "nat \<Rightarrow> nat \<Rightarrow> msg_type \<Rightarrow> memcache_rsp \<Rightarrow> memcache_rsp" where
  "word_found bid p ty r = r\<lparr>token := Some p, mtype := ty, msg_end := if ty = MSG_RSP_MC_END then Some (bid, p) else msg_end r,
     state := memcache_after_word ty\<rparr>"

lemma run_rsp_word:
  assumes at: "drop p d = w @ c # xs" and w: "w \<noteq> []" "CHR '' '' \<notin> set w" "CR \<notin> set w" and c: "c = CHR '' '' \<or> c = CR"
    and ty: "first_cmp (memcache_rsp_table (length w)) (w @ c # xs) MSG_UNKNOWN = ty" "ty \<noteq> MSG_UNKNOWN"
    and r: "state r = SW_RSP_STR" "token r = None"
  shows "parse_run (memcache_rsp_step bid) d r p = parse_run (memcache_rsp_step bid) d (word_found bid p ty r) (p + length w)"
proof -
  obtain x v where v: "w = x # v" "x \<noteq> CHR '' ''" "x \<noteq> CR" "CHR '' '' \<notin> set v" "CR \<notin> set v"
    using w by (cases w) auto
  have at0: "drop p d = x # v @ c # xs" using at v by simp
  have at1: "drop (p + 1) d = v @ c # xs" using dropD(3) [OF at0] by simp
  have at2: "drop (p + length w) d = c # xs" by (rule drop_shift [OF at])
  let ?run = "parse_run (memcache_rsp_step bid) d" and ?r = "r\<lparr>token := Some p\<rparr>"
  have "?run r p = ?run ?r (p + 1)"
    using dropD [OF at0] v(2,3) r
    by (intro run_Move_rsp [OF at0]) (simp add: memcache_rsp_step_def memcache_rsp_str_def)
  also have "\<dots> = ?run ?r (p + length w)" using run_rsp_chars [OF at1 v(4,5), of ?r p bid] v(1) r by simp
  also have "\<dots> = ?run (word_found bid p ty r) (p + length w)"
    using dropD [OF at2] c ty at r
    by (intro run_Move_rsp [OF at2]) (auto simp: memcache_rsp_step_def memcache_rsp_str_def word_found_def Let_def)
  finally show ?thesis .
qed

lemma run_rsp_start:
  assumes "drop p d = c # xs" "\<not> isdigit c" "state r = SW_START"
  shows "parse_run (memcache_rsp_step bid) d r p = parse_run (memcache_rsp_step bid) d (r\<lparr>state := SW_RSP_STR\<rparr>) p"
  using dropD [OF assms(1)] assms(2,3)
  by (intro run_Move_rsp [OF assms(1)]) (simp add: memcache_rsp_step_def memcache_rsp_start_def)

text \<open>The two ways in which a line ends.\<close>

lemma run_rsp_crlf:
  assumes at: "drop p d = CR # LF # xs" and r: "state r = SW_CRLF"
  shows "parse_run (memcache_rsp_step bid) d r p = Some (Done (r\<lparr>state := SW_ALMOST_DONE\<rparr>) (p + 1))"
proof -
  have at1: "drop (p + 1) d = LF # xs" using dropD(3) [OF at] by simp
  show ?thesis using dropD [OF at] dropD [OF at1] r
    by (simp add: parse_run_step memcache_rsp_step_def memcache_rsp_crlf_def memcache_rsp_almost_done_def)
qed

lemma run_rsp_runto:
  assumes "drop p d = s @ CR # xs" "CR \<notin> set s" "state r = SW_RUNTO_CRLF"
  shows "parse_run (memcache_rsp_step bid) d r p = parse_run (memcache_rsp_step bid) d
     (r\<lparr>state := if mtype r = MSG_RSP_MC_VALUE then SW_RUNTO_VAL else SW_ALMOST_DONE\<rparr>) (p + length s + 1)"
  using assms
proof (induction s arbitrary: p)
  case Nil
  then have at: "drop p d = CR # xs" by simp
  show ?case
    using dropD [OF at] Nil.prems(3)
    by (simp add: parse_run_step memcache_rsp_step_def memcache_rsp_runto_crlf_def)
next
  case (Cons c s)
  then have at: "drop p d = c # s @ CR # xs" by simp
  have "memcache_rsp_step bid d r p = Move r (p + 1)"
    using dropD [OF at] Cons.prems by (auto simp: memcache_rsp_step_def memcache_rsp_runto_crlf_def)
  from run_Move_rsp [OF at this] Cons.IH [of "p + 1"] Cons.prems dropD [OF at] show ?case by simp
qed

subsection \<open>Items of a retrieval\<close>

lemma run_rsp_key:
  assumes "drop p d = k @ CHR '' '' # xs" "CHR '' '' \<notin> set k" "state r = SW_KEY"
  shows "parse_run (memcache_rsp_step bid) d r p
    = parse_run (memcache_rsp_step bid) d (r\<lparr>state := SW_SPACES_BEFORE_FLAGS\<rparr>) (p + length k + 1)"
  using assms
proof (induction k arbitrary: p)
  case Nil
  then have at: "drop p d = CHR '' '' # xs" by simp
  show ?case using dropD [OF at] Nil.prems(3) by (simp add: parse_run_step memcache_rsp_step_def memcache_rsp_key_def)
next
  case (Cons c k)
  then have at: "drop p d = c # k @ CHR '' '' # xs" by simp
  have "memcache_rsp_step bid d r p = Move r (p + 1)"
    using dropD [OF at] Cons.prems by (auto simp: memcache_rsp_step_def memcache_rsp_key_def)
  from run_Move_rsp [OF at this] Cons.IH [of "p + 1"] Cons.prems dropD [OF at] show ?case by simp
qed

lemma run_rsp_flag_digits:
  assumes "drop p d = ds @ xs" "\<forall>c \<in> set ds. isdigit c" "state r = SW_FLAGS"
  shows "parse_run (memcache_rsp_step bid) d r p = parse_run (memcache_rsp_step bid) d r (p + length ds)"
  using assms
proof (induction ds arbitrary: p)
  case (Cons c ds)
  then have at: "drop p d = c # ds @ xs" by simp
  have "memcache_rsp_step bid d r p = Move r (p + 1)"
    using dropD [OF at] Cons.prems by (simp add: memcache_rsp_step_def memcache_rsp_flags_def)
  from run_Move_rsp [OF at this] Cons.IH [of "p + 1"] Cons.prems dropD [OF at] show ?case by simp
qed simp

lemma run_rsp_vlen_digits:
  assumes "drop p d = ds @ xs" "\<forall>c \<in> set ds. isdigit c" "state r = SW_VLEN"
  shows "parse_run (memcache_rsp_step bid) d r p
    = parse_run (memcache_rsp_step bid) d (r\<lparr>vlen := foldl dec_digit (vlen r) ds\<rparr>) (p + length ds)"
  using assms
proof (induction ds arbitrary: p r)
  case (Cons c ds)
  then have at: "drop p d = c # ds @ xs" by simp
  have "memcache_rsp_step bid d r p = Move (r\<lparr>vlen := dec_digit (vlen r) c\<rparr>) (p + 1)"
    using dropD [OF at] Cons.prems by (simp add: memcache_rsp_step_def memcache_rsp_vlen_def)
  from run_Move_rsp [OF at this] Cons.IH [of "p + 1" "r\<lparr>vlen := dec_digit (vlen r) c\<rparr>"] Cons.prems dropD [OF at]
  show ?case by simp
qed simp

lemma mc_cas_no_CR: "CR \<notin> set (mc_cas cas)"
  using show_nat_digits not_digit_CR(1) by (fastforce simp: mc_cas_def split: option.split)

text \<open>The line of an item after its key: flags, value length and the optional cas unique.\<close>

lemma run_rsp_numbers:
  assumes at: "drop p d = show_nat flags @ CHR '' '' # show_nat n @ mc_cas cas @ CR # xs"
    and r: "state r = SW_SPACES_BEFORE_FLAGS" "mtype r = MSG_RSP_MC_VALUE"
  shows "parse_run (memcache_rsp_step bid) d r p = parse_run (memcache_rsp_step bid) d
    (r\<lparr>vlen := of_nat n, state := SW_RUNTO_VAL\<rparr>) (p + length (show_nat flags) + 1 + length (show_nat n) + length (mc_cas cas) + 1)"
proof -
  let ?run = "parse_run (memcache_rsp_step bid) d"
  let ?p1 = "p + length (show_nat flags)"
  let ?p2 = "?p1 + 1 + length (show_nat n)"
  let ?r2 = "r\<lparr>state := SW_VLEN, vlen := 0\<rparr>"
  obtain f fs where f: "show_nat flags = f # fs" "isdigit f" using show_nat_Cons by blast
  obtain g gs where g: "show_nat n = g # gs" "isdigit g" using show_nat_Cons by blast
  obtain c ys where c: "mc_cas cas @ CR # xs = c # ys" "c = CHR '' '' \<or> c = CR" by (cases cas) (auto simp: mc_cas_def)
  have at0: "drop p d = f # fs @ CHR '' '' # show_nat n @ mc_cas cas @ CR # xs" using at f by simp
  have at1: "drop ?p1 d = CHR '' '' # show_nat n @ mc_cas cas @ CR # xs" by (rule drop_shift [OF at])
  have at2: "drop (?p1 + 1) d = show_nat n @ mc_cas cas @ CR # xs" using dropD(3) [OF at1] by simp
  have at2': "drop (?p1 + 1) d = g # gs @ mc_cas cas @ CR # xs" using at2 g by simp
  have at3: "drop ?p2 d = mc_cas cas @ CR # xs" by (rule drop_shift [OF at2])
  have at3': "drop ?p2 d = c # ys" using at3 c by simp
  have "?run r p = ?run (r\<lparr>state := SW_FLAGS\<rparr>) p"
    using dropD [OF at0] f(2) r digit_blank [of f]
    by (intro run_Move_rsp [OF at0]) (simp add: memcache_rsp_step_def memcache_rsp_spaces_before_flags_def)
  also have "\<dots> = ?run (r\<lparr>state := SW_FLAGS\<rparr>) ?p1" by (rule run_rsp_flag_digits [OF at show_nat_digits]) simp
  also have "\<dots> = ?run (r\<lparr>state := SW_SPACES_BEFORE_VLEN\<rparr>) (?p1 + 1)"
    using dropD [OF at1] by (intro run_Move_rsp [OF at1]) (simp add: memcache_rsp_step_def memcache_rsp_flags_def)
  also have "\<dots> = ?run ?r2 (?p1 + 1)"
    using dropD [OF at2'] g(2) digit_blank [of g]
    by (intro run_Move_rsp [OF at2']) (simp add: memcache_rsp_step_def memcache_rsp_spaces_before_vlen_def)
  also have "\<dots> = ?run (r\<lparr>state := SW_VLEN, vlen := of_nat n\<rparr>) ?p2"
    using run_rsp_vlen_digits [OF at2 show_nat_digits, of ?r2 bid] by (simp add: show_nat_value)
  also have "\<dots> = ?run (r\<lparr>vlen := of_nat n, state := SW_RUNTO_CRLF\<rparr>) ?p2"
    using dropD [OF at3'] c(2) by (intro run_Move_rsp [OF at3']) (auto simp: memcache_rsp_step_def memcache_rsp_vlen_def)
  also have "\<dots> = ?run (r\<lparr>vlen := of_nat n, state := SW_RUNTO_VAL\<rparr>) (?p2 + length (mc_cas cas) + 1)"
    using run_rsp_runto [OF at3 mc_cas_no_CR, of "r\<lparr>vlen := of_nat n, state := SW_RUNTO_CRLF\<rparr>" bid] r(2) by simp
  finally show ?thesis .
qed

lemma run_rsp_value:
  assumes at: "drop p d = LF # v @ CR # LF # xs" and v: "length v < 2 ^ 32"
    and r: "state r = SW_RUNTO_VAL" "vlen r = of_nat (length v)"
  shows "parse_run (memcache_rsp_step bid) d r p
    = parse_run (memcache_rsp_step bid) d (r\<lparr>token := None, state := SW_RSP_STR\<rparr>) (p + length v + 3)"
proof -
  have at1: "drop (p + 1) d = v @ CR # LF # xs" using dropD(3) [OF at] by simp
  have at2: "drop (p + 1 + length v) d = CR # LF # xs" by (rule drop_shift [OF at1])
  have at3: "drop (p + length v + 2) d = LF # xs" using dropD(3) [OF at2] by simp
  have u: "unat (vlen r) = length v" using unat_of_nat_small [OF v] r(2) by simp
  obtain y ys where y: "drop (p + 1) d = y # ys" using at1 by (cases "drop (p + 1) d") auto
  let ?run = "parse_run (memcache_rsp_step bid) d"
  have "?run r p = ?run (r\<lparr>state := SW_VAL, token := None\<rparr>) (p + 1)"
    using dropD [OF at] r by (intro run_Move_rsp [OF at]) (simp add: memcache_rsp_step_def memcache_rsp_runto_val_def)
  also have "\<dots> = ?run (r\<lparr>token := None, state := SW_VAL_LF\<rparr>) (p + length v + 2)"
    using dropD [OF at2] u
    by (intro run_Move_rsp [OF y]) (simp add: memcache_rsp_step_def memcache_rsp_val_def val_step_def)
  also have "\<dots> = ?run (r\<lparr>token := None, state := SW_RSP_STR\<rparr>) (p + length v + 3)"
    using dropD [OF at3]
    by (intro run_Move_rsp [OF at3]) (simp add: memcache_rsp_step_def memcache_rsp_val_lf_def eval_nat_numeral)
  finally show ?thesis .
qed

text \<open>One item: the parser is at the next item, or at \<open>END\<close>, in the state it reads words in.\<close>

lemma run_rsp_item:
  assumes at: "drop p d = mc_encode_value it @ xs" and it: "mc_value_ok it" and r: "state r = SW_RSP_STR" "token r = None"
  shows "\<exists>r'. parse_run (memcache_rsp_step bid) d r p
      = parse_run (memcache_rsp_step bid) d r' (p + length (mc_encode_value it)) \<and>
    state r' = SW_RSP_STR \<and> token r' = None"
proof -
  obtain k flags cas v where i: "it = (k, flags, cas, v)" by (metis prod_cases4)
  let ?run = "parse_run (memcache_rsp_step bid) d"
  let ?s = "show_nat flags @ CHR '' '' # show_nat (length v) @ mc_cas cas @ CR # LF # v @ CR # LF # xs"
  let ?r1 = "word_found bid p MSG_RSP_MC_VALUE r"
  let ?p2 = "p + 5 + 1 + length k + 1"
  let ?p3 = "?p2 + length (show_nat flags) + 1 + length (show_nat (length v)) + length (mc_cas cas) + 1"
  obtain x ys where k: "k = x # ys" "x \<noteq> CHR '' ''" "CHR '' '' \<notin> set k" using it i by (cases k) auto
  have at0: "drop p d = ''VALUE'' @ CHR '' '' # k @ CHR '' '' # ?s" using at i by (simp add: mc_encode_value_def)
  have at1: "drop (p + 5) d = CHR '' '' # k @ CHR '' '' # ?s" using drop_shift [OF at0] by (simp add: eval_nat_numeral)
  have at2: "drop (p + 5 + 1) d = k @ CHR '' '' # ?s" using dropD(3) [OF at1] by simp
  have at2': "drop (p + 5 + 1) d = x # ys @ CHR '' '' # ?s" using at2 k(1) by simp
  have at3: "drop ?p2 d = ?s" using dropD(3) [OF drop_shift [OF at2]] by simp
  have at4: "drop ?p3 d = LF # v @ CR # LF # xs"
    using drop_shift [of ?p2 d "show_nat flags @ CHR '' '' # show_nat (length v) @ mc_cas cas @ [CR]"] at3
    by (simp add: add.assoc)
  have "?run r p = ?run ?r1 (p + 5)"
    using run_rsp_word [OF at0 _ _ _ _ _ _ r, of MSG_RSP_MC_VALUE bid]
    by (simp add: memcache_rsp_table_def strcmp_def CR_def eval_nat_numeral)
  also have "\<dots> = ?run ?r1 (p + 5 + 1)"
    using dropD [OF at1]
    by (intro run_Move_rsp [OF at1])
      (simp add: memcache_rsp_step_def word_found_def memcache_after_word_def memcache_rsp_spaces_before_key_def)
  also have "\<dots> = ?run (?r1\<lparr>state := SW_KEY\<rparr>) (p + 5 + 1)"
    using dropD [OF at2'] k(2)
    by (intro run_Move_rsp [OF at2'])
      (simp add: memcache_rsp_step_def word_found_def memcache_after_word_def memcache_rsp_spaces_before_key_def)
  also have "\<dots> = ?run (?r1\<lparr>state := SW_SPACES_BEFORE_FLAGS\<rparr>) ?p2"
    using run_rsp_key [OF at2 k(3), of "?r1\<lparr>state := SW_KEY\<rparr>" bid] by simp
  also have "\<dots> = ?run (?r1\<lparr>state := SW_SPACES_BEFORE_FLAGS, vlen := of_nat (length v), state := SW_RUNTO_VAL\<rparr>) ?p3"
    using run_rsp_numbers [OF at3, of "?r1\<lparr>state := SW_SPACES_BEFORE_FLAGS\<rparr>" bid] by (simp add: word_found_def)
  also have "\<dots> = ?run (?r1\<lparr>vlen := of_nat (length v), token := None, state := SW_RSP_STR\<rparr>) (?p3 + length v + 3)"
    using run_rsp_value [OF at4, of "?r1\<lparr>vlen := of_nat (length v), state := SW_RUNTO_VAL\<rparr>" bid] it i by simp
  finally have "?run r p = ?run (?r1\<lparr>vlen := of_nat (length v), token := None, state := SW_RSP_STR\<rparr>) (p + length (mc_encode_value it))"
    using i by (simp add: mc_encode_value_def eval_nat_numeral add.assoc)
  then show ?thesis by (intro exI [of _ "?r1\<lparr>vlen := of_nat (length v), token := None, state := SW_RSP_STR\<rparr>"]) simp
qed

text \<open>\<open>mc_accepted\<close>: the parser completes at \<open>q\<close> with the type \<open>ty\<close> and, for \<open>END\<close>, its position.\<close>

definition mc_accepted :: "nat \<Rightarrow> bytes \<Rightarrow> memcache_rsp \<Rightarrow> nat \<Rightarrow> msg_type \<Rightarrow> nat \<Rightarrow> bool" where
  "mc_accepted bid d r p ty q \<longleftrightarrow> (\<exists>r'. parse_run (memcache_rsp_step bid) d r p = Some (Done r' q) \<and> mtype r' = ty \<and>
     (ty = MSG_RSP_MC_END \<longrightarrow> msg_end r' = Some (bid, q - 4)))"

lemma mc_accepted_eq:
  "parse_run (memcache_rsp_step bid) d r p = parse_run (memcache_rsp_step bid) d r' p' \<Longrightarrow>
   mc_accepted bid d r' p' ty q \<Longrightarrow> mc_accepted bid d r p ty q"
  by (simp add: mc_accepted_def)

lemma mc_accepted_values:
  assumes "drop p d = concat (map mc_encode_value vs) @ ''END'' @ CR # LF # xs" "list_all mc_value_ok vs"
    and "state r = SW_RSP_STR" "token r = None"
  shows "mc_accepted bid d r p MSG_RSP_MC_END (p + length (concat (map mc_encode_value vs)) + 4)"
  using assms
proof (induction vs arbitrary: p r)
  case Nil
  then have at: "drop p d = ''END'' @ CR # LF # xs" by simp
  have at1: "drop (p + 3) d = CR # LF # xs" using drop_shift [OF at] by (simp add: eval_nat_numeral)
  let ?r = "word_found bid p MSG_RSP_MC_END r"
  have "parse_run (memcache_rsp_step bid) d r p = parse_run (memcache_rsp_step bid) d ?r (p + 3)"
    using run_rsp_word [OF at _ _ _ _ _ _ Nil.prems(3,4), of MSG_RSP_MC_END bid]
    by (simp add: memcache_rsp_table_def strcmp_def CR_def eval_nat_numeral)
  moreover have "parse_run (memcache_rsp_step bid) d ?r (p + 3) = Some (Done (?r\<lparr>state := SW_ALMOST_DONE\<rparr>) (p + 3 + 1))"
    by (rule run_rsp_crlf [OF at1]) (simp add: word_found_def memcache_after_word_def)
  ultimately show ?case by (simp add: mc_accepted_def word_found_def eval_nat_numeral)
next
  case (Cons it vs)
  then have at: "drop p d = mc_encode_value it @ concat (map mc_encode_value vs) @ ''END'' @ CR # LF # xs" by simp
  from run_rsp_item [OF at _ Cons.prems(3,4), of bid] Cons.prems(2) obtain r' where
    r': "parse_run (memcache_rsp_step bid) d r p = parse_run (memcache_rsp_step bid) d r' (p + length (mc_encode_value it))"
    "state r' = SW_RSP_STR" "token r' = None" by auto
  from mc_accepted_eq [OF r'(1)] Cons.IH [OF drop_shift [OF at] _ r'(2,3)] Cons.prems(2) show ?case by (simp add: add.assoc)
qed

lemma mc_words_lookup:
  assumes "(w, ty) \<in> set (mc_words @ mc_errors)"
  shows "w \<noteq> [] \<and> CHR '' '' \<notin> set w \<and> CR \<notin> set w \<and> ty \<noteq> MSG_UNKNOWN \<and> ty \<noteq> MSG_RSP_MC_END \<and> ty \<noteq> MSG_RSP_MC_VALUE \<and>
    \<not> isdigit (hd w) \<and> first_cmp (memcache_rsp_table (length w)) (w @ xs) MSG_UNKNOWN = ty"
  using assms unfolding mc_words_def mc_errors_def
  by (simp only: set_append list.set Un_iff, elim disjE insertE emptyE)
    (simp_all add: memcache_rsp_table_def isdigit_def strcmp_def CR_def)

lemma run_first_word:
  assumes at: "drop p d = w @ c # xs" and w: "(w, ty) \<in> set (mc_words @ mc_errors)" and c: "c = CHR '' '' \<or> c = CR"
    and r: "state r = SW_START" "token r = None"
  shows "parse_run (memcache_rsp_step bid) d r p
    = parse_run (memcache_rsp_step bid) d (word_found bid p ty (r\<lparr>state := SW_RSP_STR\<rparr>)) (p + length w)"
proof -
  note l = mc_words_lookup [OF w, of "c # xs"]
  obtain x ys where x: "w = x # ys" using l by (cases w) auto
  have at0: "drop p d = x # ys @ c # xs" using at x by simp
  have "\<not> isdigit x" using l x by simp
  from run_rsp_start [OF at0 this r(1), of bid] run_rsp_word [OF at _ _ _ c, of ty "r\<lparr>state := SW_RSP_STR\<rparr>" bid] l r(2)
  show ?thesis by simp
qed

lemma mc_accepted_word:
  assumes at: "drop p d = w @ CR # LF # xs" and w: "(w, ty) \<in> set mc_words" and r: "state r = SW_START" "token r = None"
  shows "mc_accepted bid d r p ty (p + length w + 1)"
proof -
  let ?r = "word_found bid p ty (r\<lparr>state := SW_RSP_STR\<rparr>)"
  have w': "(w, ty) \<in> set (mc_words @ mc_errors)" using w by simp
  have "ty \<notin> {MSG_RSP_MC_VALUE, MSG_RSP_MC_CLIENT_ERROR, MSG_RSP_MC_SERVER_ERROR}" using w by (auto simp: mc_words_def)
  then have "parse_run (memcache_rsp_step bid) d ?r (p + length w) = Some (Done (?r\<lparr>state := SW_ALMOST_DONE\<rparr>) (p + length w + 1))"
    by (intro run_rsp_crlf [OF drop_shift [OF at]]) (simp add: word_found_def memcache_after_word_def)
  with run_first_word [OF at w' _ r, of bid] mc_words_lookup [OF w'] show ?thesis
    by (simp add: mc_accepted_def word_found_def)
qed

lemma mc_accepted_error:
  assumes at: "drop p d = w @ CHR '' '' # s @ CR # LF # xs" and w: "(w, ty) \<in> set mc_errors" and s: "CR \<notin> set s"
    and r: "state r = SW_START" "token r = None"
  shows "mc_accepted bid d r p ty (p + length w + 1 + length s + 1)"
proof -
  let ?r = "word_found bid p ty (r\<lparr>state := SW_RSP_STR\<rparr>)"
  have w': "(w, ty) \<in> set (mc_words @ mc_errors)" using w by simp
  have ty: "ty \<in> {MSG_RSP_MC_CLIENT_ERROR, MSG_RSP_MC_SERVER_ERROR}" using w by (auto simp: mc_errors_def)
  have at1: "drop (p + length w) d = (CHR '' '' # s) @ CR # LF # xs" using drop_shift [OF at] by simp
  have at2: "drop (p + length w + 1 + length s + 1) d = LF # xs" using dropD(3) [OF drop_shift [OF at1]] by simp
  have "parse_run (memcache_rsp_step bid) d ?r (p + length w)
      = parse_run (memcache_rsp_step bid) d (?r\<lparr>state := SW_ALMOST_DONE\<rparr>) (p + length w + 1 + length s + 1)"
    using run_rsp_runto [OF at1, of ?r bid] s ty by (auto simp: word_found_def memcache_after_word_def)
  also have "\<dots> = Some (Done (?r\<lparr>state := SW_ALMOST_DONE\<rparr>) (p + length w + 1 + length s + 1))"
    using dropD [OF at2] by (simp add: parse_run_step memcache_rsp_step_def memcache_rsp_almost_done_def)
  finally show ?thesis using run_first_word [OF at w' _ r, of bid] mc_words_lookup [OF w']
    by (simp add: mc_accepted_def word_found_def)
qed

lemma run_rsp_num_digits:
  assumes "drop p d = ds @ xs" "\<forall>c \<in> set ds. isdigit c" "state r = SW_RSP_NUM" "ds \<noteq> [] \<or> token r \<noteq> None"
  shows "\<exists>t. parse_run (memcache_rsp_step bid) d r p = parse_run (memcache_rsp_step bid) d (r\<lparr>token := Some t\<rparr>) (p + length ds)"
  using assms
proof (induction ds arbitrary: p r)
  case Nil
  then obtain t where "token r = Some t" by auto
  then have "r\<lparr>token := Some t\<rparr> = r" by simp
  then show ?case by (metis add.right_neutral list.size(3))
next
  case (Cons c ds)
  then have at: "drop p d = c # ds @ xs" by simp
  define t where "t = (case token r of None \<Rightarrow> p | Some t \<Rightarrow> t)"
  have "memcache_rsp_step bid d r p = Move (r\<lparr>token := Some t\<rparr>) (p + 1)"
    using dropD [OF at] Cons.prems by (simp add: memcache_rsp_step_def memcache_rsp_num_def Let_def t_def)
  from run_Move_rsp [OF at this] Cons.IH [of "p + 1" "r\<lparr>token := Some t\<rparr>"] Cons.prems dropD [OF at] show ?case by simp
qed

lemma mc_accepted_num:
  assumes at: "drop p d = show_nat n @ CR # LF # xs" and r: "state r = SW_START"
  shows "mc_accepted bid d r p MSG_RSP_MC_NUM (p + length (show_nat n) + 1)"
proof -
  let ?run = "parse_run (memcache_rsp_step bid) d"
  obtain f fs where f: "show_nat n = f # fs" "isdigit f" using show_nat_Cons by blast
  have at0: "drop p d = f # fs @ CR # LF # xs" using at f by simp
  have at1: "drop (p + length (show_nat n)) d = CR # LF # xs" by (rule drop_shift [OF at])
  have "?run r p = ?run (r\<lparr>state := SW_RSP_NUM\<rparr>) p"
    using dropD [OF at0] f(2) r by (intro run_Move_rsp [OF at0]) (simp add: memcache_rsp_step_def memcache_rsp_start_def)
  also obtain t where "?run (r\<lparr>state := SW_RSP_NUM\<rparr>) p
      = ?run (r\<lparr>state := SW_RSP_NUM, token := Some t\<rparr>) (p + length (show_nat n))"
    using run_rsp_num_digits [OF at show_nat_digits, of "r\<lparr>state := SW_RSP_NUM\<rparr>" bid] by auto
  also have "\<dots> = ?run (r\<lparr>token := None, mtype := MSG_RSP_MC_NUM, state := SW_CRLF\<rparr>) (p + length (show_nat n))"
    using dropD [OF at1] by (intro run_Move_rsp [OF at1]) (simp add: memcache_rsp_step_def memcache_rsp_num_def)
  also have "\<dots> = Some (Done (r\<lparr>token := None, mtype := MSG_RSP_MC_NUM, state := SW_ALMOST_DONE\<rparr>) (p + length (show_nat n) + 1))"
    using run_rsp_crlf [OF at1, of "r\<lparr>token := None, mtype := MSG_RSP_MC_NUM, state := SW_CRLF\<rparr>" bid] by simp
  finally show ?thesis by (simp add: mc_accepted_def)
qed

lemma mc_accepted_rsp:
  assumes ok: "mc_rsp_ok y" and at: "drop p d = mc_encode_rsp y @ xs" and r: "state r = SW_START" "token r = None"
  shows "\<exists>ty. mc_rsp_type y = Some ty \<and> mc_accepted bid d r p ty (p + length (mc_encode_rsp y) - 1)"
proof (cases y)
  case (Rsp_word w)
  then obtain ty where "map_of mc_words w = Some ty" using ok by (auto simp: mc_words_def)
  with mc_accepted_word [OF _ map_of_SomeD r, of p d w xs ty bid] at Rsp_word show ?thesis by simp
next
  case (Rsp_num n)
  with mc_accepted_num [OF _ r(1), of p d n xs bid] at show ?thesis by simp
next
  case (Rsp_error w s)
  then obtain ty where "map_of mc_errors w = Some ty" using ok by (auto simp: mc_errors_def)
  with mc_accepted_error [OF _ map_of_SomeD _ r, of p d w s xs ty bid] at ok Rsp_error show ?thesis by (simp add: add.assoc)
next
  case (Rsp_values vs)
  then have at0: "drop p d = concat (map mc_encode_value vs) @ ''END'' @ CR # LF # xs" using at by simp
  have "\<exists>c ys. drop p d = c # ys \<and> \<not> isdigit c"
    using at0 by (cases vs) (auto simp: mc_encode_value_def isdigit_def)
  then obtain c ys where c: "drop p d = c # ys" "\<not> isdigit c" by blast
  have "mc_accepted bid d (r\<lparr>state := SW_RSP_STR\<rparr>) p MSG_RSP_MC_END (p + length (concat (map mc_encode_value vs)) + 4)"
    using ok Rsp_values r(2) by (intro mc_accepted_values [OF at0]) simp_all
  from mc_accepted_eq [OF run_rsp_start [OF c r(1)] this] Rsp_values show ?thesis by (simp add: eval_nat_numeral)
qed

lemma mc_encode_rsp_nonempty: "0 < length (mc_encode_rsp y)"
  by (cases y) simp_all

text \<open>
  C6: the memcached response parser inverts the protocol.  A one-word reply, a number, an error
  with its text, or any number of items followed by \<open>END\<close>, whatever follows it in the buffer, is
  accepted up to its last byte, values included, with its type; for a retrieval the recorded
  position of \<open>END\<close> is that of the terminating line.
\<close>
theorem memcache_parse_rsp_roundtrip:
  assumes ok: "mc_rsp_ok y" and b: "mdata b = pre @ mc_encode_rsp y @ rest"
    and r: "r = (fresh_msg SW_START)\<lparr>pos := length pre\<rparr>"
  shows "\<exists>r'. memcache_parse_rsp b r = Some r' \<and> result r' = MSG_PARSE_OK \<and> mc_rsp_type y = Some (mtype r') \<and>
     pos r' = length pre + length (mc_encode_rsp y) \<and>
     (mtype r' = MSG_RSP_MC_END \<longrightarrow> msg_end r' = Some (mid b, pos r' - length (''END'' @ [CR, LF])))"
proof -
  have "drop (length pre) (mdata b) = mc_encode_rsp y @ rest" using b by simp
  from mc_accepted_rsp [OF ok this, of r "mid b"] mc_encode_rsp_nonempty [of y] r show ?thesis
    by (auto simp: mc_accepted_def memcache_parse_rsp_def parse_with_def parse_run_def parse_done_def fresh_msg_def)
qed

theorem memcache_parse_rsp_roundtrip_witness:
  "\<exists>r'. memcache_parse_rsp (example_mbuf (''xy'' @ mc_encode_rsp (Rsp_values [(''k'', 0, Some 7, ''END'')]) @ ''z''))
       ((fresh_msg SW_START)\<lparr>pos := length ''xy''\<rparr>) = Some r' \<and>
     result r' = MSG_PARSE_OK \<and> mc_rsp_type (Rsp_values [(''k'', 0, Some 7, ''END'')]) = Some (mtype r') \<and>
     pos r' = length ''xy'' + length (mc_encode_rsp (Rsp_values [(''k'', 0, Some 7, ''END'')])) \<and>
     (mtype r' = MSG_RSP_MC_END \<longrightarrow> msg_end r'
       = Some (mid (example_mbuf (''xy'' @ mc_encode_rsp (Rsp_values [(''k'', 0, Some 7, ''END'')]) @ ''z'')),
               pos r' - length (''END'' @ [CR, LF])))"
  by (rule memcache_parse_rsp_roundtrip [where rest = "''z''"]) (simp_all add: example_mbuf_def)

end
