(* ===== verification/Spec2Isabelle.thy ===== *)
theory Spec2Isabelle
  imports Hash_Kit Hash_Jenkins Hash_MD5 Server_Pool Receive Redis_Response Memcache_Response
begin

text \<open>
  A verification of twemproxy (nutcracker 0.4.1), a proxy that multiplexes client
  connections onto memcached and redis servers.

  \<^bold>\<open>The program.\<close>  A pool of servers listens on one port.  A client connection receives bytes
  into a chain of fixed-size buffers; the parser of the protocol cuts them into requests
  and records where the keys are.  The key of a request is hashed, the hash is mapped to a
  server by the distribution of the pool, and the request is queued on a connection to
  that server.  Responses are parsed the same way, paired with the requests in order, and
  sent back.  A server that fails too often is ejected: the distribution is rebuilt
  without it, and it is tried again after a time.

  \<^bold>\<open>Conventions.\<close>  Bytes are lists of characters.  Machine integers that can wrap are words
  (\<open>u32\<close> for \<open>uint32_t\<close>); sizes and offsets that stay below the size of a buffer are natural
  numbers, times are integers.  A pointer into a buffer is the identity of the buffer with
  an offset, a pointer to a server or message is a number.  The result \<open>None\<close> stands for what the C
  code leaves undefined or guards by an assertion: an access outside an array or a buffer,
  a null pointer, a failed \<open>ASSERT\<close>; theorems show that it does not occur.  What the
  operating system decides (clock readings, \<open>random()\<close>, the success of allocations, the
  results of \<open>read\<close> and \<open>connect\<close>) is an argument of the definitions.  Log output, \<open>errno\<close> and
  statistics are left out of the operations.

  \<^bold>\<open>The theories\<close>, in the order of their dependencies.  File names are relative to
  \<^verbatim>\<open>src/src/\<close>.

  \<^item> \<^verbatim>\<open>NC_Prelude\<close>: promotion of characters, little-endian loads, status codes, decimal output,
    and lemmas on lists and words that several components use.

  \<^item> \<^verbatim>\<open>Hash_Kit\<close>, \<^verbatim>\<open>Hash_Jenkins\<close>, \<^verbatim>\<open>Hash_MD5\<close>: the functions of \<^verbatim>\<open>hashkit/\<close> that turn a key into 32
    bits, with the tables of the source.  CRC-32 is compared with division of polynomials, the four FNV
    functions with the published ones (on ASCII keys: other bytes are sign-extended by the source), MD5 with RFC
    1321 for inputs in any number of pieces; \<open>hash_jenkins\<close> has three loops for the alignments
    of the key and is shown to give one result for all of them.

  \<^item> \<^verbatim>\<open>Float_Round\<close>, \<^verbatim>\<open>Distribution\<close>: \<^verbatim>\<open>hashkit/nc_ketama.c\<close>, \<^verbatim>\<open>nc_modula.c\<close>, \<^verbatim>\<open>nc_random.c\<close> with the
    records of \<^verbatim>\<open>nc_server.h\<close>.  Single-precision arithmetic is rounding of rationals to 24
    bits.  A rebuild, with its assertions, stays within the memory it allocated and yields a sorted ring of live
    servers on which each has its proportional part of the points; the binary search is a lookup on that ring, and removing a server moves only
    the keys it had.  The bounds in the hypotheses (at most 20000 servers, names of at most
    75 bytes, total weight below 2 to the 32) are those under which the rounding errors
    cannot exceed the allocation and \<open>snprintf\<close> cannot truncate a name.

  \<^item> \<^verbatim>\<open>Server_Pool\<close>: \<^verbatim>\<open>nc_server.c\<close>.  Failure counts, ejection, rebuild and re-admission of servers, the
    hash tag, the choice of the server of a key, and the queue of connections of a server.
    The locale \<open>distribution\<close> is the contract between the pool and a strategy; it is
    interpreted for all three, and \<open>covering\<close> extends it for the two that give every live
    server a slot.  The invariant \<open>pool_inv\<close> holds in every pool reachable by requests,
    connections made in advance, closed connections and answers in any order; the events
    label the steps, so that what happens between an ejection and the retry time is a
    statement about runs.  \<open>server_resolve\<close> and the socket of \<open>server_connect\<close> are left out; the
    latter's success is an argument.

  \<^item> \<^verbatim>\<open>Mbuf\<close>: \<^verbatim>\<open>nc_mbuf.c\<close>, the buffers, their free queue and \<open>mbuf_split\<close>, which loses no byte.

  \<^item> \<^verbatim>\<open>Msg_Type\<close>, \<^verbatim>\<open>Msg_Parse\<close>, \<^verbatim>\<open>Wire_Format\<close>: message types, and what the four parsers share.  A parser is a
    loop around one step per byte; the loop is a partial function, and the locales
    \<open>parser\<close> and \<open>msg_parser\<close> state the contract of a step (it makes progress, stays in the
    buffer, and looks ahead only in ways that more input does not invalidate) from which
    termination and independence of the fragmentation of the input follow once for all.

  \<^item> \<^verbatim>\<open>Redis_Command\<close>, \<^verbatim>\<open>Redis_Request\<close>, \<^verbatim>\<open>Redis_Encoding\<close>, \<^verbatim>\<open>Redis_Response\<close>: the command table and the
    two parsers of \<^verbatim>\<open>proto/nc_redis.c\<close>, one definition per state of the \<open>switch\<close>.  Each parser
    interprets \<open>msg_parser\<close> and inverts an encoding of requests or replies.  Command
    recognition is compared with the tables of \<^verbatim>\<open>src/notes/redis.md\<close>.

  \<^item> \<^verbatim>\<open>Memcache_Request\<close>, \<^verbatim>\<open>Memcache_Encoding\<close>, \<^verbatim>\<open>Memcache_Response\<close>: the same for \<^verbatim>\<open>proto/nc_memcache.c\<close>.  The
    steps leave out the assertions of the \<open>switch\<close>; a second loop has those of the request parser, and the two
    loops agree.

  \<^item> \<^verbatim>\<open>Message\<close>, \<^verbatim>\<open>Receive\<close>: \<^verbatim>\<open>nc_message.c\<close>.  The operations that build the buffers of a message, and the receiving loop,
    which reads (\<open>conn_recv\<close> of \<^verbatim>\<open>nc_connection.c\<close>), parses, cuts a complete message off and goes on with
    the rest (\<open>req_recv_next\<close> of \<^verbatim>\<open>nc_request.c\<close>); pipelined requests
    come out one by one, in order, with exactly their bytes, until the handler of a message
    sets an error or ends the connection.

  \<^bold>\<open>Loops and fuel.\<close>  Nothing runs on fuel.  Loops over data are structural recursions, the
  binary search and \<open>nc_strchr\<close> have a measure, and the loops whose end depends on the
  input (the parsers and the receiving loop) are partial functions for which the theorems
  state that they return.

  \<^bold>\<open>Not modelled.\<close>  The queues that pair requests with responses (\<^verbatim>\<open>nc_request.c\<close>, \<^verbatim>\<open>nc_response.c\<close>,
  \<^verbatim>\<open>nc_client.c\<close>) and the splitting of requests with several keys; the parsers they feed on
  are.  The other operations on connections, the event loop and the listener (\<^verbatim>\<open>nc_connection.c\<close>, \<^verbatim>\<open>nc_core.c\<close>, \<^verbatim>\<open>nc_proxy.c\<close>,
  \<^verbatim>\<open>event/\<close>), which wrap system calls.  The configuration (\<^verbatim>\<open>nc_conf.c\<close>), which is driven by
  libyaml; what it checks enters as hypotheses.  Statistics (\<^verbatim>\<open>nc_stats.c\<close>), logging, signals
  and start-up.  The red-black tree of timeouts (\<^verbatim>\<open>nc_rbtree.c\<close>).  Arrays and queues
  (\<^verbatim>\<open>nc_array.c\<close>, \<^verbatim>\<open>nc_queue.h\<close>) are lists in the model.
\<close>

end
